(* ===== verification/Kernel_Prelude.thy ===== *)
theory Kernel_Prelude
  imports Main "HOL-Library.Word"
begin

text \<open>
  Shared vocabulary of the development: the machine integer types of the 32-bit ARM
  configuration, the error numbers the modelled functions return, bounds-checked access to
  byte buffers, and little/big endian loads and stores.  A read or a write outside a buffer
  is the value \<open>None\<close>, so a model never hides an access the C code would have made outside
  its object.
\<close>

unbundle bit_operations_syntax

type_synonym u8 = "8 word"
type_synonym u16 = "16 word"
type_synonym u32 = "32 word"
type_synonym u64 = "64 word"
type_synonym bytes = "u8 list"

named_theorems buf_simps

section \<open>Error numbers\<close>

datatype errno = EPERM | ENOENT | EIO | EAGAIN | ENOMEM | EACCES | EFAULT | EBUSY | EINVAL
  | EDEADLK | ENOLCK | EOVERFLOW | ERANGE | EMSGSIZE | ENOSPC | EEXIST | ESRCH | ENODEV | EOPNOTSUPP
  | EINTR | EFBIG | EIDRM | E2BIG | ENODATA | EBADF | ERESTARTSYS | FILE_LOCK_DEFERRED

section \<open>Byte buffers\<close>

definition rd :: "'a list \<Rightarrow> nat \<Rightarrow> nat \<Rightarrow> 'a list option" where
  "rd buf off n = (if off + n \<le> length buf then Some (take n (drop off buf)) else None)"

definition wr :: "'a list \<Rightarrow> nat \<Rightarrow> 'a list \<Rightarrow> 'a list option" where
  "wr buf off bs =
     (if off + length bs \<le> length buf
      then Some (take off buf @ bs @ drop (off + length bs) buf) else None)"

section \<open>Endian loads and stores\<close>

definition le32_to_cpu :: "bytes \<Rightarrow> u32" where
  "le32_to_cpu bs =
     (ucast (bs ! 0) OR push_bit 8 (ucast (bs ! 1)) OR
      push_bit 16 (ucast (bs ! 2)) OR push_bit 24 (ucast (bs ! 3)))"

definition cpu_to_le32 :: "u32 \<Rightarrow> bytes" where
  "cpu_to_le32 w =
     [ucast w, ucast (drop_bit 8 w), ucast (drop_bit 16 w), ucast (drop_bit 24 w)]"

definition be32_to_cpu :: "bytes \<Rightarrow> u32" where
  "be32_to_cpu bs = le32_to_cpu [bs ! 3, bs ! 2, bs ! 1, bs ! 0]"

definition cpu_to_be32 :: "u32 \<Rightarrow> bytes" where
  "cpu_to_be32 w = rev (cpu_to_le32 w)"

definition be16_to_cpu :: "bytes \<Rightarrow> u16" where
  "be16_to_cpu bs = push_bit 8 (ucast (bs ! 0)) OR ucast (bs ! 1)"

definition le16_to_cpu :: "bytes \<Rightarrow> u16" where
  "le16_to_cpu bs = push_bit 8 (ucast (bs ! 1)) OR ucast (bs ! 0)"

definition cpu_to_le16 :: "u16 \<Rightarrow> bytes" where
  "cpu_to_le16 w = [ucast w, ucast (drop_bit 8 w)]"

section \<open>Lemmas on buffers\<close>

lemma rd_Some_iff: "rd buf off n = Some bs \<longleftrightarrow> off + n \<le> length buf \<and> bs = take n (drop off buf)"
  by (auto simp: rd_def)

lemma wr_Some_iff:
  "wr buf off bs = Some buf' \<longleftrightarrow>
     off + length bs \<le> length buf \<and> buf' = take off buf @ bs @ drop (off + length bs) buf"
  by (auto simp: wr_def)

lemma length_rd [buf_simps]: "rd buf off n = Some bs \<Longrightarrow> length bs = n"
  by (auto simp: rd_Some_iff)

lemma length_wr [buf_simps]: "wr buf off bs = Some buf' \<Longrightarrow> length buf' = length buf"
  by (auto simp: wr_Some_iff)

lemma rd_append [buf_simps]: "rd (pre @ mid @ post) (length pre) (length mid) = Some mid"
  by (simp add: rd_def)

lemma wr_append [buf_simps]:
  "length mid' = length mid \<Longrightarrow>
   wr (pre @ mid @ post) (length pre) mid' = Some (pre @ mid' @ post)"
  by (simp add: wr_def)

lemma rd_at: "off = length pre \<Longrightarrow> n = length mid \<Longrightarrow> rd (pre @ mid @ post) off n = Some mid"
  by (simp add: rd_append)

lemma wr_at:
  "off = length pre \<Longrightarrow> length mid' = length mid \<Longrightarrow>
   wr (pre @ mid @ post) off mid' = Some (pre @ mid' @ post)"
  by (simp add: wr_append)

section \<open>Ranges of machine integers\<close>

lemma unat_u8_less: "unat (w :: u8) < 256"
  using unsigned_less[of w] by simp

lemma unat_u16_less: "unat (w :: u16) < 65536"
  using unsigned_less[of w] by simp

lemma unat_u32_less: "unat (w :: u32) < 4294967296"
  using unsigned_less[of w] by simp

lemma of_nat_unat_u32 [simp]: "of_nat (unat (w :: u32)) = w"
  by simp

lemma unat_of_nat_u32: "n < 4294967296 \<Longrightarrow> unat (of_nat n :: u32) = n"
  by (simp add: unat_of_nat)

lemma sint_u32:
  assumes "unat (w :: u32) < 2147483648"
  shows "sint w = int (unat w)"
proof -
  have "uint w = int (unat w)" by simp
  then have "uint w < 2147483648" using assms by linarith
  moreover have "- 2147483648 \<le> uint w" using uint_ge_0[of w] by linarith
  ultimately show ?thesis by (simp add: sint_uint signed_take_bit_int_eq_self_iff)
qed

lemma word_pred:
  fixes x :: u32
  assumes "s < x"
  shows "a \<le> x - 1 \<longleftrightarrow> a < x" "unat (x - 1) = unat x - 1" "x - 1 < x"
proof -
  have x: "x \<noteq> 0" using assms by auto
  show u: "unat (x - 1) = unat x - 1" using x by (rule unat_minus_one)
  have "0 < unat x" using x by (simp add: unat_gt_0)
  then show "a \<le> x - 1 \<longleftrightarrow> a < x" "x - 1 < x" by (auto simp: word_le_nat_alt word_less_nat_alt u)
qed

lemma word_succ:
  fixes x :: u32
  assumes "x < f"
  shows "x + 1 \<le> a \<longleftrightarrow> x < a" "unat (x + 1) = unat x + 1" "x < x + 1"
proof -
  have "unat x < 4294967295" using assms unat_u32_less [of f] by (simp add: word_less_nat_alt)
  then show u: "unat (x + 1) = unat x + 1" by (simp add: unat_word_ariths)
  then show "x + 1 \<le> a \<longleftrightarrow> x < a" "x < x + 1" by (auto simp: word_le_nat_alt word_less_nat_alt)
qed

section \<open>Lemmas on endian conversion\<close>

lemma le16_cpu_to_le16 [simp]: "le16_to_cpu (cpu_to_le16 w) = w"
  by (rule bit_word_eqI) (auto simp: le16_to_cpu_def cpu_to_le16_def bit_simps)

lemma length_cpu_to_le16 [simp]: "length (cpu_to_le16 w) = 2"
  by (simp add: cpu_to_le16_def)

lemma length_cpu_to_le32 [simp]: "length (cpu_to_le32 w) = 4"
  by (simp add: cpu_to_le32_def)

lemma length_cpu_to_be32 [simp]: "length (cpu_to_be32 w) = 4"
  by (simp add: cpu_to_be32_def)

lemma le32_to_cpu_to_le32 [simp]: "le32_to_cpu (cpu_to_le32 w) = w"
proof (rule bit_word_eqI)
  fix n
  assume "n < LENGTH(32)"
  then show "bit (le32_to_cpu (cpu_to_le32 w)) n = bit w n"
    by (cases "n < 16"; cases "n < 24") (auto simp: le32_to_cpu_def cpu_to_le32_def bit_simps)
qed

lemma list4_conv: "length bs = 4 \<Longrightarrow> bs = [bs ! 0, bs ! 1, bs ! 2, bs ! 3]"
  by (auto simp: numeral_eq_Suc length_Suc_conv)

lemma cpu_to_le32_to_cpu [simp]:
  assumes "length bs = 4"
  shows "cpu_to_le32 (le32_to_cpu bs) = bs"
proof -
  obtain a b c d where bs: "bs = [a, b, c, d]"
    using assms by (auto simp: numeral_eq_Suc length_Suc_conv)
  have "ucast (le32_to_cpu bs) = a" "ucast (drop_bit 8 (le32_to_cpu bs)) = b"
    "ucast (drop_bit 16 (le32_to_cpu bs)) = c" "ucast (drop_bit 24 (le32_to_cpu bs)) = d"
    by (rule bit_word_eqI; auto simp: bs le32_to_cpu_def bit_simps dest: bit_imp_le_length)+
  then show ?thesis by (simp add: cpu_to_le32_def bs)
qed

lemma be32_to_cpu_to_be32 [simp]: "be32_to_cpu (cpu_to_be32 w) = w"
proof -
  have "[cpu_to_be32 w ! 3, cpu_to_be32 w ! 2, cpu_to_be32 w ! 1, cpu_to_be32 w ! 0] = cpu_to_le32 w"
    by (simp add: cpu_to_be32_def cpu_to_le32_def)
  then show ?thesis by (simp add: be32_to_cpu_def)
qed

lemma cpu_to_be32_to_cpu [simp]:
  assumes "length bs = 4"
  shows "cpu_to_be32 (be32_to_cpu bs) = bs"
proof -
  have "rev [bs ! 3, bs ! 2, bs ! 1, bs ! 0] = bs"
    using list4_conv[OF assms] by simp
  then show ?thesis by (simp add: be32_to_cpu_def cpu_to_be32_def)
qed

section \<open>Endian loads as numbers\<close>

lemma le32_to_cpu_plus: "le32_to_cpu bs =
     (ucast (bs ! 0) + push_bit 8 (ucast (bs ! 1)) +
      push_bit 16 (ucast (bs ! 2)) + push_bit 24 (ucast (bs ! 3)))"
  unfolding le32_to_cpu_def
  by (subst disjunctive_add, (auto simp: bit_simps dest: bit_imp_le_length)[1])+ (simp add: or.assoc)

lemma unat_push_bit_ucast: "unat (push_bit k (ucast (b::u8) :: u32)) = 2^k * unat b" if "k \<le> 24"
proof -
  have b: "unat b < 256" using unsigned_less[of b] by simp
  moreover have "(2::nat)^k \<le> 2^24" using that by (intro power_increasing) auto
  ultimately have "2^k * unat b \<le> 2^24 * 255" by (intro mult_le_mono) auto
  with b show ?thesis
    by (simp only: unsigned_push_bit_eq unsigned_ucast_eq)
      (simp add: take_bit_eq_mod push_bit_eq_mult mult.commute)
qed

lemma unat_le32_to_cpu: "unat (le32_to_cpu bs) =
  unat (bs!0) + 2^8 * unat (bs!1) + 2^16 * unat (bs!2) + 2^24 * unat (bs!3)"
proof -
  have b: "unat b < 256" for b :: u8 using unsigned_less[of b] by simp
  have 0: "unat (ucast (b::u8) :: u32) = unat b" for b using unat_push_bit_ucast[of 0 b] by simp
  show ?thesis
    using b[of "bs!0"] b[of "bs!1"] b[of "bs!2"] b[of "bs!3"]
    by (simp add: le32_to_cpu_plus unat_word_ariths unat_push_bit_ucast 0)
qed

lemma find_append: "List.find P (xs @ ys) = (case List.find P xs of None \<Rightarrow> List.find P ys | Some x \<Rightarrow> Some x)"
  by (induction xs) auto

end
