(* ===== verification/Tea_Ciphers.thy ===== *)
theory Tea_Ciphers
  imports Kernel_Prelude
begin

text \<open>
  The TEA, XTEA and XETA block ciphers of \<^verbatim>\<open>crypto/tea.c\<close>.  A cipher context is the key
  schedule the setkey function stores; an encryption or decryption maps an 8-byte block to
  an 8-byte block.  The XTEA loops run until the running sum reaches a limit, so they are
  defined as partial functions: \<open>None\<close> would be a loop that never meets its limit.
\<close>

section \<open>Context and key setup\<close>

definition TEA_ROUNDS :: nat where "TEA_ROUNDS = 32"
definition TEA_DELTA :: u32 where "TEA_DELTA = 0x9e3779b9"
definition XTEA_ROUNDS :: u32 where "XTEA_ROUNDS = 32"
definition XTEA_DELTA :: u32 where "XTEA_DELTA = 0x9e3779b9"

record tea_ctx =
  KEY :: "u32 list"

definition tea_setkey :: "bytes \<Rightarrow> tea_ctx" where
  "tea_setkey in_key =
     \<lparr>KEY = [le32_to_cpu (take 4 in_key), le32_to_cpu (take 4 (drop 4 in_key)),
             le32_to_cpu (take 4 (drop 8 in_key)), le32_to_cpu (take 4 (drop 12 in_key))]\<rparr>"

definition xtea_setkey :: "bytes \<Rightarrow> tea_ctx" where
  "xtea_setkey in_key =
     \<lparr>KEY = [le32_to_cpu (take 4 in_key), le32_to_cpu (take 4 (drop 4 in_key)),
             le32_to_cpu (take 4 (drop 8 in_key)), le32_to_cpu (take 4 (drop 12 in_key))]\<rparr>"

section \<open>TEA\<close>

fun tea_encrypt_loop :: "tea_ctx \<Rightarrow> nat \<Rightarrow> u32 \<Rightarrow> u32 \<Rightarrow> u32 \<Rightarrow> u32 \<times> u32" where
  "tea_encrypt_loop ctx 0 sm y z = (y, z)"
| "tea_encrypt_loop ctx (Suc n) sm y z =
     (let k0 = KEY ctx ! 0; k1 = KEY ctx ! 1; k2 = KEY ctx ! 2; k3 = KEY ctx ! 3;
          sm = sm + TEA_DELTA;
          y = y + ((push_bit 4 z + k0) XOR (z + sm) XOR (drop_bit 5 z + k1));
          z = z + ((push_bit 4 y + k2) XOR (y + sm) XOR (drop_bit 5 y + k3))
      in tea_encrypt_loop ctx n sm y z)"

definition tea_encrypt :: "tea_ctx \<Rightarrow> bytes \<Rightarrow> bytes" where
  "tea_encrypt ctx src =
     (let y = le32_to_cpu (take 4 src); z = le32_to_cpu (take 4 (drop 4 src));
          (y, z) = tea_encrypt_loop ctx TEA_ROUNDS 0 y z
      in cpu_to_le32 y @ cpu_to_le32 z)"

fun tea_decrypt_loop :: "tea_ctx \<Rightarrow> nat \<Rightarrow> u32 \<Rightarrow> u32 \<Rightarrow> u32 \<Rightarrow> u32 \<times> u32" where
  "tea_decrypt_loop ctx 0 sm y z = (y, z)"
| "tea_decrypt_loop ctx (Suc n) sm y z =
     (let k0 = KEY ctx ! 0; k1 = KEY ctx ! 1; k2 = KEY ctx ! 2; k3 = KEY ctx ! 3;
          z = z - ((push_bit 4 y + k2) XOR (y + sm) XOR (drop_bit 5 y + k3));
          y = y - ((push_bit 4 z + k0) XOR (z + sm) XOR (drop_bit 5 z + k1));
          sm = sm - TEA_DELTA
      in tea_decrypt_loop ctx n sm y z)"

definition tea_decrypt :: "tea_ctx \<Rightarrow> bytes \<Rightarrow> bytes" where
  "tea_decrypt ctx src =
     (let y = le32_to_cpu (take 4 src); z = le32_to_cpu (take 4 (drop 4 src));
          (y, z) = tea_decrypt_loop ctx TEA_ROUNDS (push_bit 5 TEA_DELTA) y z
      in cpu_to_le32 y @ cpu_to_le32 z)"

section \<open>XTEA\<close>

partial_function (option) xtea_encrypt_loop ::
    "tea_ctx \<Rightarrow> u32 \<Rightarrow> u32 \<Rightarrow> u32 \<Rightarrow> u32 \<Rightarrow> (u32 \<times> u32) option" where
  "xtea_encrypt_loop ctx limit sm y z =
     (if sm = limit then Some (y, z)
      else let y = y + (((push_bit 4 z XOR drop_bit 5 z) + z) XOR (sm + KEY ctx ! unat (sm AND 3)));
               sm = sm + XTEA_DELTA;
               z = z + (((push_bit 4 y XOR drop_bit 5 y) + y) XOR
                        (sm + KEY ctx ! unat (drop_bit 11 sm AND 3)))
           in xtea_encrypt_loop ctx limit sm y z)"

definition xtea_encrypt :: "tea_ctx \<Rightarrow> bytes \<Rightarrow> bytes option" where
  "xtea_encrypt ctx src =
     (let y = le32_to_cpu (take 4 src); z = le32_to_cpu (take 4 (drop 4 src))
      in map_option (\<lambda>(y, z). cpu_to_le32 y @ cpu_to_le32 z)
           (xtea_encrypt_loop ctx (XTEA_DELTA * XTEA_ROUNDS) 0 y z))"

partial_function (option) xtea_decrypt_loop ::
    "tea_ctx \<Rightarrow> u32 \<Rightarrow> u32 \<Rightarrow> u32 \<Rightarrow> (u32 \<times> u32) option" where
  "xtea_decrypt_loop ctx sm y z =
     (if sm = 0 then Some (y, z)
      else let z = z - (((push_bit 4 y XOR drop_bit 5 y) + y) XOR
                        (sm + KEY ctx ! unat (drop_bit 11 sm AND 3)));
               sm = sm - XTEA_DELTA;
               y = y - (((push_bit 4 z XOR drop_bit 5 z) + z) XOR (sm + KEY ctx ! unat (sm AND 3)))
           in xtea_decrypt_loop ctx sm y z)"

definition xtea_decrypt :: "tea_ctx \<Rightarrow> bytes \<Rightarrow> bytes option" where
  "xtea_decrypt ctx src =
     (let y = le32_to_cpu (take 4 src); z = le32_to_cpu (take 4 (drop 4 src))
      in map_option (\<lambda>(y, z). cpu_to_le32 y @ cpu_to_le32 z)
           (xtea_decrypt_loop ctx (XTEA_DELTA * XTEA_ROUNDS) y z))"

section \<open>XETA\<close>

partial_function (option) xeta_encrypt_loop ::
    "tea_ctx \<Rightarrow> u32 \<Rightarrow> u32 \<Rightarrow> u32 \<Rightarrow> u32 \<Rightarrow> (u32 \<times> u32) option" where
  "xeta_encrypt_loop ctx limit sm y z =
     (if sm = limit then Some (y, z)
      else let y = y + ((push_bit 4 z XOR drop_bit 5 z) + (z XOR sm) + KEY ctx ! unat (sm AND 3));
               sm = sm + XTEA_DELTA;
               z = z + ((push_bit 4 y XOR drop_bit 5 y) + (y XOR sm) +
                        KEY ctx ! unat (drop_bit 11 sm AND 3))
           in xeta_encrypt_loop ctx limit sm y z)"

definition xeta_encrypt :: "tea_ctx \<Rightarrow> bytes \<Rightarrow> bytes option" where
  "xeta_encrypt ctx src =
     (let y = le32_to_cpu (take 4 src); z = le32_to_cpu (take 4 (drop 4 src))
      in map_option (\<lambda>(y, z). cpu_to_le32 y @ cpu_to_le32 z)
           (xeta_encrypt_loop ctx (XTEA_DELTA * XTEA_ROUNDS) 0 y z))"

partial_function (option) xeta_decrypt_loop ::
    "tea_ctx \<Rightarrow> u32 \<Rightarrow> u32 \<Rightarrow> u32 \<Rightarrow> (u32 \<times> u32) option" where
  "xeta_decrypt_loop ctx sm y z =
     (if sm = 0 then Some (y, z)
      else let z = z - ((push_bit 4 y XOR drop_bit 5 y) + (y XOR sm) +
                        KEY ctx ! unat (drop_bit 11 sm AND 3));
               sm = sm - XTEA_DELTA;
               y = y - ((push_bit 4 z XOR drop_bit 5 z) + (z XOR sm) + KEY ctx ! unat (sm AND 3))
           in xeta_decrypt_loop ctx sm y z)"

definition xeta_decrypt :: "tea_ctx \<Rightarrow> bytes \<Rightarrow> bytes option" where
  "xeta_decrypt ctx src =
     (let y = le32_to_cpu (take 4 src); z = le32_to_cpu (take 4 (drop 4 src))
      in map_option (\<lambda>(y, z). cpu_to_le32 y @ cpu_to_le32 z)
           (xeta_decrypt_loop ctx (XTEA_DELTA * XTEA_ROUNDS) y z))"

section \<open>Round schedules\<close>

text \<open>
  What the three ciphers share: a round that starts at running sum \<open>s\<close>, and an inverse
  round that starts at the sum the round ended with.  Iterating the inverse over the
  decreasing sums undoes iterating the round over the increasing ones.
\<close>

fun iter_enc :: "(u32 \<Rightarrow> u32 \<times> u32 \<Rightarrow> u32 \<times> u32) \<Rightarrow> u32 \<Rightarrow> nat \<Rightarrow> u32 \<Rightarrow> u32 \<times> u32 \<Rightarrow> u32 \<times> u32" where
  "iter_enc f d 0 s p = p"
| "iter_enc f d (Suc n) s p = iter_enc f d n (s + d) (f s p)"

fun iter_dec :: "(u32 \<Rightarrow> u32 \<times> u32 \<Rightarrow> u32 \<times> u32) \<Rightarrow> u32 \<Rightarrow> nat \<Rightarrow> u32 \<Rightarrow> u32 \<times> u32 \<Rightarrow> u32 \<times> u32" where
  "iter_dec g d 0 s p = p"
| "iter_dec g d (Suc n) s p = iter_dec g d n (s - d) (g s p)"

lemma iter_enc_snoc: "iter_enc f d (Suc n) s p = f (s + of_nat n * d) (iter_enc f d n s p)"
proof (induction n arbitrary: s p)
  case 0
  then show ?case by simp
next
  case (Suc n)
  have "iter_enc f d (Suc (Suc n)) s p = iter_enc f d (Suc n) (s + d) (f s p)" by simp
  also have "\<dots> = f (s + d + of_nat n * d) (iter_enc f d n (s + d) (f s p))" by (rule Suc.IH)
  finally show ?case by (simp add: add.assoc distrib_right)
qed

locale round_schedule =
  fixes rnd :: "'k \<Rightarrow> u32 \<Rightarrow> u32 \<times> u32 \<Rightarrow> u32 \<times> u32"
    and unrnd :: "'k \<Rightarrow> u32 \<Rightarrow> u32 \<times> u32 \<Rightarrow> u32 \<times> u32"
    and delta :: u32
  assumes unrnd_rnd: "unrnd k (s + delta) (rnd k s p) = p"
begin

lemma iter_dec_enc:
  "iter_dec (unrnd k) delta n (s + of_nat n * delta) (iter_enc (rnd k) delta n s p) = p"
proof (induction n)
  case 0
  then show ?case by simp
next
  case (Suc n)
  have "iter_dec (unrnd k) delta (Suc n) (s + of_nat (Suc n) * delta)
          (iter_enc (rnd k) delta (Suc n) s p) =
        iter_dec (unrnd k) delta n (s + of_nat n * delta)
          (unrnd k (s + of_nat n * delta + delta)
             (rnd k (s + of_nat n * delta) (iter_enc (rnd k) delta n s p)))"
    by (simp add: iter_enc_snoc algebra_simps del: iter_enc.simps)
  then show ?case by (simp add: unrnd_rnd Suc.IH)
qed

end

section \<open>The rounds of the three ciphers\<close>

definition tea_rnd :: "tea_ctx \<Rightarrow> u32 \<Rightarrow> u32 \<times> u32 \<Rightarrow> u32 \<times> u32" where
  "tea_rnd ctx s p = tea_encrypt_loop ctx 1 s (fst p) (snd p)"

definition tea_unrnd :: "tea_ctx \<Rightarrow> u32 \<Rightarrow> u32 \<times> u32 \<Rightarrow> u32 \<times> u32" where
  "tea_unrnd ctx s p = tea_decrypt_loop ctx 1 s (fst p) (snd p)"

definition xtea_rnd :: "tea_ctx \<Rightarrow> u32 \<Rightarrow> u32 \<times> u32 \<Rightarrow> u32 \<times> u32" where
  "xtea_rnd ctx s p =
     (let y = fst p; z = snd p;
          y = y + (((push_bit 4 z XOR drop_bit 5 z) + z) XOR (s + KEY ctx ! unat (s AND 3)));
          s = s + XTEA_DELTA
      in (y, z + (((push_bit 4 y XOR drop_bit 5 y) + y) XOR (s + KEY ctx ! unat (drop_bit 11 s AND 3)))))"

definition xtea_unrnd :: "tea_ctx \<Rightarrow> u32 \<Rightarrow> u32 \<times> u32 \<Rightarrow> u32 \<times> u32" where
  "xtea_unrnd ctx s p =
     (let y = fst p; z = snd p;
          z = z - (((push_bit 4 y XOR drop_bit 5 y) + y) XOR (s + KEY ctx ! unat (drop_bit 11 s AND 3)));
          s = s - XTEA_DELTA
      in (y - (((push_bit 4 z XOR drop_bit 5 z) + z) XOR (s + KEY ctx ! unat (s AND 3))), z))"

definition xeta_rnd :: "tea_ctx \<Rightarrow> u32 \<Rightarrow> u32 \<times> u32 \<Rightarrow> u32 \<times> u32" where
  "xeta_rnd ctx s p =
     (let y = fst p; z = snd p;
          y = y + ((push_bit 4 z XOR drop_bit 5 z) + (z XOR s) + KEY ctx ! unat (s AND 3));
          s = s + XTEA_DELTA
      in (y, z + ((push_bit 4 y XOR drop_bit 5 y) + (y XOR s) + KEY ctx ! unat (drop_bit 11 s AND 3))))"

definition xeta_unrnd :: "tea_ctx \<Rightarrow> u32 \<Rightarrow> u32 \<times> u32 \<Rightarrow> u32 \<times> u32" where
  "xeta_unrnd ctx s p =
     (let y = fst p; z = snd p;
          z = z - ((push_bit 4 y XOR drop_bit 5 y) + (y XOR s) + KEY ctx ! unat (drop_bit 11 s AND 3));
          s = s - XTEA_DELTA
      in (y - ((push_bit 4 z XOR drop_bit 5 z) + (z XOR s) + KEY ctx ! unat (s AND 3)), z))"

interpretation tea_sched: round_schedule tea_rnd tea_unrnd TEA_DELTA
  by unfold_locales (simp add: tea_rnd_def tea_unrnd_def Let_def)

interpretation xtea_sched: round_schedule xtea_rnd xtea_unrnd XTEA_DELTA
  by unfold_locales (simp add: xtea_rnd_def xtea_unrnd_def Let_def)

interpretation xeta_sched: round_schedule xeta_rnd xeta_unrnd XTEA_DELTA
  by unfold_locales (simp add: xeta_rnd_def xeta_unrnd_def Let_def)

section \<open>The loops are the iterated rounds\<close>

lemma tea_encrypt_loop_iter:
  "tea_encrypt_loop ctx n s y z = iter_enc (tea_rnd ctx) TEA_DELTA n s (y, z)"
  by (induction n arbitrary: s y z) (simp_all add: tea_rnd_def Let_def)

lemma tea_decrypt_loop_iter:
  "tea_decrypt_loop ctx n s y z = iter_dec (tea_unrnd ctx) TEA_DELTA n s (y, z)"
  by (induction n arbitrary: s y z) (simp_all add: tea_unrnd_def Let_def)

lemma XTEA_DELTA_mult_neq_0: "0 < n \<Longrightarrow> n \<le> 32 \<Longrightarrow> of_nat n * XTEA_DELTA \<noteq> 0"
proof -
  have "\<forall>n \<in> set [1..<33]. of_nat n * XTEA_DELTA \<noteq> 0"
    by (simp add: XTEA_DELTA_def upt_rec)
  then show "0 < n \<Longrightarrow> n \<le> 32 \<Longrightarrow> of_nat n * XTEA_DELTA \<noteq> 0" by simp
qed

text \<open>The loops of XTEA and XETA share their shape: one round per turn, until the sum meets its limit.\<close>

locale sum_driven = round_schedule rnd unrnd XTEA_DELTA
  for rnd :: "'k \<Rightarrow> u32 \<Rightarrow> u32 \<times> u32 \<Rightarrow> u32 \<times> u32"
    and unrnd :: "'k \<Rightarrow> u32 \<Rightarrow> u32 \<times> u32 \<Rightarrow> u32 \<times> u32" +
  fixes eloop :: "'k \<Rightarrow> u32 \<Rightarrow> u32 \<Rightarrow> u32 \<Rightarrow> u32 \<Rightarrow> (u32 \<times> u32) option"
    and dloop :: "'k \<Rightarrow> u32 \<Rightarrow> u32 \<Rightarrow> u32 \<Rightarrow> (u32 \<times> u32) option"
  assumes eloop_end: "eloop k lim lim y z = Some (y, z)"
    and eloop_step: "s \<noteq> lim \<Longrightarrow>
      eloop k lim s y z = eloop k lim (s + XTEA_DELTA) (fst (rnd k s (y, z))) (snd (rnd k s (y, z)))"
    and dloop_end: "dloop k 0 y z = Some (y, z)"
    and dloop_step: "s \<noteq> 0 \<Longrightarrow>
      dloop k s y z = dloop k (s - XTEA_DELTA) (fst (unrnd k s (y, z))) (snd (unrnd k s (y, z)))"
begin

lemma eloop_iter:
  "n \<le> 32 \<Longrightarrow> s + of_nat n * XTEA_DELTA = lim \<Longrightarrow>
     eloop k lim s y z = Some (iter_enc (rnd k) XTEA_DELTA n s (y, z))"
proof (induction n arbitrary: s y z)
  case 0
  then show ?case by (simp add: eloop_end)
next
  case (Suc n)
  have "of_nat (Suc n) * XTEA_DELTA \<noteq> 0"
    using Suc.prems by (intro XTEA_DELTA_mult_neq_0) simp_all
  then have "s \<noteq> lim" using Suc.prems by (metis add_cancel_right_right)
  then have "eloop k lim s y z =
      eloop k lim (s + XTEA_DELTA) (fst (rnd k s (y, z))) (snd (rnd k s (y, z)))"
    by (rule eloop_step)
  also have "\<dots> = Some (iter_enc (rnd k) XTEA_DELTA n (s + XTEA_DELTA) (rnd k s (y, z)))"
    using Suc.prems by (subst Suc.IH) (simp_all add: algebra_simps)
  finally show ?case by simp
qed

lemma dloop_iter:
  "n \<le> 32 \<Longrightarrow> of_nat n * XTEA_DELTA = s \<Longrightarrow>
     dloop k s y z = Some (iter_dec (unrnd k) XTEA_DELTA n s (y, z))"
proof (induction n arbitrary: s y z)
  case 0
  then show ?case by (auto simp: dloop_end)
next
  case (Suc n)
  have "s \<noteq> 0"
    using Suc.prems XTEA_DELTA_mult_neq_0[of "Suc n"] by simp
  then have "dloop k s y z =
      dloop k (s - XTEA_DELTA) (fst (unrnd k s (y, z))) (snd (unrnd k s (y, z)))"
    by (rule dloop_step)
  also have "\<dots> = Some (iter_dec (unrnd k) XTEA_DELTA n (s - XTEA_DELTA) (unrnd k s (y, z)))"
    using Suc.prems by (subst Suc.IH) (auto simp: algebra_simps)
  finally show ?case by simp
qed

lemma dloop_eloop:
  "\<exists>y' z'. eloop k (XTEA_DELTA * XTEA_ROUNDS) 0 y z = Some (y', z') \<and>
           dloop k (XTEA_DELTA * XTEA_ROUNDS) y' z' = Some (y, z)"
proof -
  let ?lim = "XTEA_DELTA * XTEA_ROUNDS"
  have lim: "of_nat 32 * XTEA_DELTA = ?lim" by (simp add: XTEA_ROUNDS_def)
  obtain y' z' where it: "iter_enc (rnd k) XTEA_DELTA 32 0 (y, z) = (y', z')" by fastforce
  have e: "eloop k ?lim 0 y z = Some (y', z')"
    using eloop_iter[of 32 0 ?lim k y z] lim it by simp
  have "dloop k ?lim y' z' = Some (iter_dec (unrnd k) XTEA_DELTA 32 ?lim (y', z'))"
    using lim by (intro dloop_iter) simp_all
  also have "iter_dec (unrnd k) XTEA_DELTA 32 ?lim (y', z') = (y, z)"
    using iter_dec_enc[of k 32 0 "(y, z)"] lim it by simp
  finally show ?thesis using e by blast
qed

end

interpretation xtea_loops: sum_driven xtea_rnd xtea_unrnd xtea_encrypt_loop xtea_decrypt_loop
proof
  fix ctx lim s y z
  show "xtea_encrypt_loop ctx lim lim y z = Some (y, z)"
    by (simp add: xtea_encrypt_loop.simps)
  show "xtea_decrypt_loop ctx 0 y z = Some (y, z)"
    by (simp add: xtea_decrypt_loop.simps)
  show "s \<noteq> lim \<Longrightarrow> xtea_encrypt_loop ctx lim s y z =
      xtea_encrypt_loop ctx lim (s + XTEA_DELTA) (fst (xtea_rnd ctx s (y, z))) (snd (xtea_rnd ctx s (y, z)))"
    by (subst xtea_encrypt_loop.simps) (simp add: xtea_rnd_def Let_def)
  show "s \<noteq> 0 \<Longrightarrow> xtea_decrypt_loop ctx s y z =
      xtea_decrypt_loop ctx (s - XTEA_DELTA) (fst (xtea_unrnd ctx s (y, z))) (snd (xtea_unrnd ctx s (y, z)))"
    by (subst xtea_decrypt_loop.simps) (simp add: xtea_unrnd_def Let_def)
qed

interpretation xeta_loops: sum_driven xeta_rnd xeta_unrnd xeta_encrypt_loop xeta_decrypt_loop
proof
  fix ctx lim s y z
  show "xeta_encrypt_loop ctx lim lim y z = Some (y, z)"
    by (simp add: xeta_encrypt_loop.simps)
  show "xeta_decrypt_loop ctx 0 y z = Some (y, z)"
    by (simp add: xeta_decrypt_loop.simps)
  show "s \<noteq> lim \<Longrightarrow> xeta_encrypt_loop ctx lim s y z =
      xeta_encrypt_loop ctx lim (s + XTEA_DELTA) (fst (xeta_rnd ctx s (y, z))) (snd (xeta_rnd ctx s (y, z)))"
    by (subst xeta_encrypt_loop.simps) (simp add: xeta_rnd_def Let_def)
  show "s \<noteq> 0 \<Longrightarrow> xeta_decrypt_loop ctx s y z =
      xeta_decrypt_loop ctx (s - XTEA_DELTA) (fst (xeta_unrnd ctx s (y, z))) (snd (xeta_unrnd ctx s (y, z)))"
    by (subst xeta_decrypt_loop.simps) (simp add: xeta_unrnd_def Let_def)
qed

section \<open>Round trips on blocks\<close>

lemma block_halves:
  "length src = 8 \<Longrightarrow>
   cpu_to_le32 (le32_to_cpu (take 4 src)) @ cpu_to_le32 (le32_to_cpu (take 4 (drop 4 src))) = src"
  using append_take_drop_id[of 4 src] by simp

lemma length_tea_encrypt: "length (tea_encrypt ctx src) = 8"
  by (simp add: tea_encrypt_def Let_def split: prod.split)

lemma length_tea_decrypt: "length (tea_decrypt ctx src) = 8"
  by (simp add: tea_decrypt_def Let_def split: prod.split)

lemma tea_decrypt_tea_encrypt:
  assumes "length src = 8"
  shows "tea_decrypt ctx (tea_encrypt ctx src) = src"
proof -
  let ?y = "le32_to_cpu (take 4 src)" and ?z = "le32_to_cpu (take 4 (drop 4 src))"
  obtain y' z' where it: "iter_enc (tea_rnd ctx) TEA_DELTA 32 0 (?y, ?z) = (y', z')" by fastforce
  have "push_bit 5 TEA_DELTA = 0 + of_nat 32 * TEA_DELTA"
    by (simp add: TEA_DELTA_def)
  then have "tea_decrypt_loop ctx 32 (push_bit 5 TEA_DELTA) y' z' = (?y, ?z)"
    using tea_sched.iter_dec_enc[of ctx 32 0 "(?y, ?z)"] it by (simp add: tea_decrypt_loop_iter)
  then show ?thesis
    using assms it block_halves
    by (simp add: tea_encrypt_def tea_decrypt_def TEA_ROUNDS_def tea_encrypt_loop_iter Let_def)
qed

lemma xtea_decrypt_xtea_encrypt:
  assumes "length src = 8"
  shows "\<exists>dst. xtea_encrypt ctx src = Some dst \<and> length dst = 8 \<and> xtea_decrypt ctx dst = Some src"
proof -
  let ?y = "le32_to_cpu (take 4 src)" and ?z = "le32_to_cpu (take 4 (drop 4 src))"
  obtain y' z' where
    "xtea_encrypt_loop ctx (XTEA_DELTA * XTEA_ROUNDS) 0 ?y ?z = Some (y', z')"
    "xtea_decrypt_loop ctx (XTEA_DELTA * XTEA_ROUNDS) y' z' = Some (?y, ?z)"
    using xtea_loops.dloop_eloop by blast
  then show ?thesis
    using assms block_halves by (simp add: xtea_encrypt_def xtea_decrypt_def Let_def)
qed

lemma xeta_decrypt_xeta_encrypt:
  assumes "length src = 8"
  shows "\<exists>dst. xeta_encrypt ctx src = Some dst \<and> length dst = 8 \<and> xeta_decrypt ctx dst = Some src"
proof -
  let ?y = "le32_to_cpu (take 4 src)" and ?z = "le32_to_cpu (take 4 (drop 4 src))"
  obtain y' z' where
    "xeta_encrypt_loop ctx (XTEA_DELTA * XTEA_ROUNDS) 0 ?y ?z = Some (y', z')"
    "xeta_decrypt_loop ctx (XTEA_DELTA * XTEA_ROUNDS) y' z' = Some (?y, ?z)"
    using xeta_loops.dloop_eloop by blast
  then show ?thesis
    using assms block_halves by (simp add: xeta_encrypt_def xeta_decrypt_def Let_def)
qed

end
