(* ===== verification/Block_Modes.thy ===== *)
theory Block_Modes
  imports Tea_Ciphers "HOL-Library.Monad_Syntax"
begin

text \<open>
  The chaining modes over a block cipher: \<^verbatim>\<open>crypto/ecb.c\<close>, \<^verbatim>\<open>crypto/cbc.c\<close>,
  \<^verbatim>\<open>crypto/pcbc.c\<close>, \<^verbatim>\<open>crypto/ctr.c\<close>, and the byte-string helpers of
  \<^verbatim>\<open>crypto/algapi.c\<close>.  The cipher's function pointer is the argument \<open>fn\<close> of every mode.
  A walk step is the record \<open>blkcipher_walk\<close>: the mapped source and destination chunks, the
  chaining value and the number of bytes mapped.  An in-place call works on one buffer, the
  source chunk.  A pointer to the chaining value is either the walk's own buffer (\<open>None\<close>) or
  an offset into the source chunk (\<open>Some off\<close>), so that the aliasing of the in-place loops
  is kept.
\<close>

section \<open>Byte-string helpers\<close>

fun crypto_xor_byte :: "bytes \<Rightarrow> bytes \<Rightarrow> nat \<Rightarrow> bytes option" where
  "crypto_xor_byte a b 0 = Some a"
| "crypto_xor_byte (x # a) (y # b) (Suc n) =
     map_option (\<lambda>r. (x XOR y) # r) (crypto_xor_byte a b n)"
| "crypto_xor_byte _ _ (Suc n) = None"

fun crypto_xor :: "bytes \<Rightarrow> bytes \<Rightarrow> nat \<Rightarrow> bytes option" where
  "crypto_xor dst src sz =
     (if 4 \<le> sz then do {
        x \<leftarrow> rd dst 0 4;
        y \<leftarrow> rd src 0 4;
        r \<leftarrow> crypto_xor (drop 4 dst) (drop 4 src) (sz - 4);
        Some (cpu_to_le32 (le32_to_cpu x XOR le32_to_cpu y) @ r)
      } else crypto_xor_byte dst src sz)"

fun crypto_inc_byte :: "bytes \<Rightarrow> nat \<Rightarrow> bytes option" where
  "crypto_inc_byte a 0 = Some a"
| "crypto_inc_byte a (Suc n) =
     (if n < length a then
        let c = a ! n + 1; a = a[n := c]
        in if c \<noteq> 0 then Some a else crypto_inc_byte a n
      else None)"

fun crypto_inc :: "bytes \<Rightarrow> nat \<Rightarrow> bytes option" where
  "crypto_inc a sz =
     (if 4 \<le> sz then do {
        w \<leftarrow> rd a (sz - 4) 4;
        let c = be32_to_cpu w + 1;
        a \<leftarrow> wr a (sz - 4) (cpu_to_be32 c);
        if c \<noteq> 0 then Some a else crypto_inc a (sz - 4)
      } else crypto_inc_byte a sz)"

declare crypto_xor.simps [simp del] crypto_inc.simps [simp del]

section \<open>The walk\<close>

record blkcipher_walk =
  walk_src :: bytes
  walk_dst :: bytes
  walk_iv :: bytes
  walk_nbytes :: u32

definition iv_deref :: "bytes \<Rightarrow> bytes \<Rightarrow> nat \<Rightarrow> nat option \<Rightarrow> bytes option" where
  "iv_deref wiv src bsize p = (case p of None \<Rightarrow> rd wiv 0 bsize | Some off \<Rightarrow> rd src off bsize)"

section \<open>Electronic codebook\<close>

partial_function (option) crypto_ecb_crypt_loop ::
    "(bytes \<Rightarrow> bytes option) \<Rightarrow> nat \<Rightarrow> nat \<Rightarrow> u32 \<Rightarrow> bytes \<Rightarrow> bytes \<Rightarrow> (bytes \<times> u32) option" where
  "crypto_ecb_crypt_loop fn bsize off nbytes src dst = do {
     s \<leftarrow> rd src off bsize;
     d \<leftarrow> fn s;
     dst \<leftarrow> wr dst off d;
     (let nbytes = nbytes - of_nat bsize in
      if bsize \<le> unat nbytes then crypto_ecb_crypt_loop fn bsize (off + bsize) nbytes src dst
      else Some (dst, nbytes))
   }"

section \<open>Cipher block chaining\<close>

partial_function (option) crypto_cbc_encrypt_segment_loop ::
    "(bytes \<Rightarrow> bytes option) \<Rightarrow> nat \<Rightarrow> nat \<Rightarrow> u32 \<Rightarrow> bytes \<Rightarrow> bytes \<Rightarrow> bytes \<Rightarrow>
     (bytes \<times> bytes \<times> u32) option" where
  "crypto_cbc_encrypt_segment_loop fn bsize off nbytes src dst iv = do {
     s \<leftarrow> rd src off bsize;
     iv \<leftarrow> crypto_xor iv s bsize;
     d \<leftarrow> fn iv;
     dst \<leftarrow> wr dst off d;
     iv \<leftarrow> wr iv 0 d;
     (let nbytes = nbytes - of_nat bsize in
      if bsize \<le> unat nbytes then crypto_cbc_encrypt_segment_loop fn bsize (off + bsize) nbytes src dst iv
      else Some (dst, iv, nbytes))
   }"

definition crypto_cbc_encrypt_segment ::
    "(bytes \<Rightarrow> bytes option) \<Rightarrow> nat \<Rightarrow> blkcipher_walk \<Rightarrow> (blkcipher_walk \<times> u32) option" where
  "crypto_cbc_encrypt_segment fn bsize walk = do {
     (dst, iv, nbytes) \<leftarrow> crypto_cbc_encrypt_segment_loop fn bsize 0 (walk_nbytes walk)
                            (walk_src walk) (walk_dst walk) (walk_iv walk);
     Some (walk\<lparr>walk_dst := dst, walk_iv := iv\<rparr>, nbytes)
   }"

partial_function (option) crypto_cbc_encrypt_inplace_loop ::
    "(bytes \<Rightarrow> bytes option) \<Rightarrow> nat \<Rightarrow> nat \<Rightarrow> u32 \<Rightarrow> bytes \<Rightarrow> bytes \<Rightarrow> nat option \<Rightarrow>
     (bytes \<times> nat option \<times> u32) option" where
  "crypto_cbc_encrypt_inplace_loop fn bsize off nbytes src wiv ivp = do {
     s \<leftarrow> rd src off bsize;
     iv \<leftarrow> iv_deref wiv src bsize ivp;
     x \<leftarrow> crypto_xor s iv bsize;
     src \<leftarrow> wr src off x;
     d \<leftarrow> fn x;
     src \<leftarrow> wr src off d;
     (let ivp = Some off; nbytes = nbytes - of_nat bsize in
      if bsize \<le> unat nbytes then crypto_cbc_encrypt_inplace_loop fn bsize (off + bsize) nbytes src wiv ivp
      else Some (src, ivp, nbytes))
   }"

definition crypto_cbc_encrypt_inplace ::
    "(bytes \<Rightarrow> bytes option) \<Rightarrow> nat \<Rightarrow> blkcipher_walk \<Rightarrow> (blkcipher_walk \<times> u32) option" where
  "crypto_cbc_encrypt_inplace fn bsize walk = do {
     (src, ivp, nbytes) \<leftarrow> crypto_cbc_encrypt_inplace_loop fn bsize 0 (walk_nbytes walk)
                             (walk_src walk) (walk_iv walk) None;
     iv \<leftarrow> iv_deref (walk_iv walk) src bsize ivp;
     wiv \<leftarrow> wr (walk_iv walk) 0 iv;
     Some (walk\<lparr>walk_src := src, walk_iv := wiv\<rparr>, nbytes)
   }"

partial_function (option) crypto_cbc_decrypt_segment_loop ::
    "(bytes \<Rightarrow> bytes option) \<Rightarrow> nat \<Rightarrow> nat \<Rightarrow> u32 \<Rightarrow> bytes \<Rightarrow> bytes \<Rightarrow> bytes \<Rightarrow> nat option \<Rightarrow>
     (bytes \<times> nat option \<times> u32) option" where
  "crypto_cbc_decrypt_segment_loop fn bsize off nbytes src dst wiv ivp = do {
     s \<leftarrow> rd src off bsize;
     d \<leftarrow> fn s;
     iv \<leftarrow> iv_deref wiv src bsize ivp;
     d \<leftarrow> crypto_xor d iv bsize;
     dst \<leftarrow> wr dst off d;
     (let ivp = Some off; nbytes = nbytes - of_nat bsize in
      if bsize \<le> unat nbytes then crypto_cbc_decrypt_segment_loop fn bsize (off + bsize) nbytes src dst wiv ivp
      else Some (dst, ivp, nbytes))
   }"

definition crypto_cbc_decrypt_segment ::
    "(bytes \<Rightarrow> bytes option) \<Rightarrow> nat \<Rightarrow> blkcipher_walk \<Rightarrow> (blkcipher_walk \<times> u32) option" where
  "crypto_cbc_decrypt_segment fn bsize walk = do {
     (dst, ivp, nbytes) \<leftarrow> crypto_cbc_decrypt_segment_loop fn bsize 0 (walk_nbytes walk)
                             (walk_src walk) (walk_dst walk) (walk_iv walk) None;
     iv \<leftarrow> iv_deref (walk_iv walk) (walk_src walk) bsize ivp;
     wiv \<leftarrow> wr (walk_iv walk) 0 iv;
     Some (walk\<lparr>walk_dst := dst, walk_iv := wiv\<rparr>, nbytes)
   }"

text \<open>
  The in-place decryption runs backwards from the last whole block, so that each block is
  chained with a predecessor that is still ciphertext.
\<close>

partial_function (option) crypto_cbc_decrypt_inplace_loop ::
    "(bytes \<Rightarrow> bytes option) \<Rightarrow> nat \<Rightarrow> nat \<Rightarrow> u32 \<Rightarrow> bytes \<Rightarrow> (bytes \<times> nat \<times> u32) option" where
  "crypto_cbc_decrypt_inplace_loop fn bsize off nbytes src = do {
     s \<leftarrow> rd src off bsize;
     d \<leftarrow> fn s;
     src \<leftarrow> wr src off d;
     (let nbytes = nbytes - of_nat bsize in
      if unat nbytes < bsize then Some (src, off, nbytes)
      else if off < bsize then None
      else do {
        p \<leftarrow> rd src (off - bsize) bsize;
        x \<leftarrow> crypto_xor d p bsize;
        src \<leftarrow> wr src off x;
        crypto_cbc_decrypt_inplace_loop fn bsize (off - bsize) nbytes src
      })
   }"

definition crypto_cbc_decrypt_inplace ::
    "(bytes \<Rightarrow> bytes option) \<Rightarrow> nat \<Rightarrow> blkcipher_walk \<Rightarrow> (blkcipher_walk \<times> u32) option" where
  "crypto_cbc_decrypt_inplace fn bsize walk = do {
     let nbytes = walk_nbytes walk;
     let off = unat (nbytes - (nbytes AND (of_nat bsize - 1)) - of_nat bsize);
     last_iv \<leftarrow> rd (walk_src walk) off bsize;
     (src, off, nbytes) \<leftarrow> crypto_cbc_decrypt_inplace_loop fn bsize off nbytes (walk_src walk);
     s \<leftarrow> rd src off bsize;
     x \<leftarrow> crypto_xor s (walk_iv walk) bsize;
     src \<leftarrow> wr src off x;
     wiv \<leftarrow> wr (walk_iv walk) 0 last_iv;
     Some (walk\<lparr>walk_src := src, walk_iv := wiv\<rparr>, nbytes)
   }"

section \<open>Propagating cipher block chaining\<close>

partial_function (option) crypto_pcbc_encrypt_segment_loop ::
    "(bytes \<Rightarrow> bytes option) \<Rightarrow> nat \<Rightarrow> nat \<Rightarrow> u32 \<Rightarrow> bytes \<Rightarrow> bytes \<Rightarrow> bytes \<Rightarrow>
     (bytes \<times> bytes \<times> u32) option" where
  "crypto_pcbc_encrypt_segment_loop fn bsize off nbytes src dst iv = do {
     s \<leftarrow> rd src off bsize;
     iv \<leftarrow> crypto_xor iv s bsize;
     d \<leftarrow> fn iv;
     dst \<leftarrow> wr dst off d;
     iv \<leftarrow> wr iv 0 d;
     iv \<leftarrow> crypto_xor iv s bsize;
     (let nbytes = nbytes - of_nat bsize in
      if bsize \<le> unat nbytes then crypto_pcbc_encrypt_segment_loop fn bsize (off + bsize) nbytes src dst iv
      else Some (dst, iv, nbytes))
   }"

partial_function (option) crypto_pcbc_encrypt_inplace_loop ::
    "(bytes \<Rightarrow> bytes option) \<Rightarrow> nat \<Rightarrow> nat \<Rightarrow> u32 \<Rightarrow> bytes \<Rightarrow> bytes \<Rightarrow> (bytes \<times> bytes \<times> u32) option" where
  "crypto_pcbc_encrypt_inplace_loop fn bsize off nbytes src iv = do {
     tmpbuf \<leftarrow> rd src off bsize;
     iv \<leftarrow> crypto_xor iv tmpbuf bsize;
     d \<leftarrow> fn iv;
     src \<leftarrow> wr src off d;
     iv \<leftarrow> wr iv 0 tmpbuf;
     iv \<leftarrow> crypto_xor iv d bsize;
     (let nbytes = nbytes - of_nat bsize in
      if bsize \<le> unat nbytes then crypto_pcbc_encrypt_inplace_loop fn bsize (off + bsize) nbytes src iv
      else Some (src, iv, nbytes))
   }"

partial_function (option) crypto_pcbc_decrypt_segment_loop ::
    "(bytes \<Rightarrow> bytes option) \<Rightarrow> nat \<Rightarrow> nat \<Rightarrow> u32 \<Rightarrow> bytes \<Rightarrow> bytes \<Rightarrow> bytes \<Rightarrow>
     (bytes \<times> bytes \<times> u32) option" where
  "crypto_pcbc_decrypt_segment_loop fn bsize off nbytes src dst iv = do {
     s \<leftarrow> rd src off bsize;
     d \<leftarrow> fn s;
     d \<leftarrow> crypto_xor d iv bsize;
     dst \<leftarrow> wr dst off d;
     iv \<leftarrow> wr iv 0 s;
     iv \<leftarrow> crypto_xor iv d bsize;
     (let nbytes = nbytes - of_nat bsize in
      if bsize \<le> unat nbytes then crypto_pcbc_decrypt_segment_loop fn bsize (off + bsize) nbytes src dst iv
      else Some (dst, iv, nbytes))
   }"

partial_function (option) crypto_pcbc_decrypt_inplace_loop ::
    "(bytes \<Rightarrow> bytes option) \<Rightarrow> nat \<Rightarrow> nat \<Rightarrow> u32 \<Rightarrow> bytes \<Rightarrow> bytes \<Rightarrow> (bytes \<times> bytes \<times> u32) option" where
  "crypto_pcbc_decrypt_inplace_loop fn bsize off nbytes src iv = do {
     tmpbuf \<leftarrow> rd src off bsize;
     d \<leftarrow> fn tmpbuf;
     d \<leftarrow> crypto_xor d iv bsize;
     src \<leftarrow> wr src off d;
     iv \<leftarrow> wr iv 0 tmpbuf;
     iv \<leftarrow> crypto_xor iv d bsize;
     (let nbytes = nbytes - of_nat bsize in
      if bsize \<le> unat nbytes then crypto_pcbc_decrypt_inplace_loop fn bsize (off + bsize) nbytes src iv
      else Some (src, iv, nbytes))
   }"

section \<open>Counter mode\<close>

partial_function (option) crypto_ctr_crypt_segment_loop ::
    "(bytes \<Rightarrow> bytes option) \<Rightarrow> nat \<Rightarrow> nat \<Rightarrow> u32 \<Rightarrow> bytes \<Rightarrow> bytes \<Rightarrow> bytes \<Rightarrow>
     (bytes \<times> bytes \<times> u32) option" where
  "crypto_ctr_crypt_segment_loop fn bsize off nbytes src dst ctrblk = do {
     d \<leftarrow> fn ctrblk;
     s \<leftarrow> rd src off bsize;
     d \<leftarrow> crypto_xor d s bsize;
     dst \<leftarrow> wr dst off d;
     ctrblk \<leftarrow> crypto_inc ctrblk bsize;
     (let nbytes = nbytes - of_nat bsize in
      if bsize \<le> unat nbytes then crypto_ctr_crypt_segment_loop fn bsize (off + bsize) nbytes src dst ctrblk
      else Some (dst, ctrblk, nbytes))
   }"

partial_function (option) crypto_ctr_crypt_inplace_loop ::
    "(bytes \<Rightarrow> bytes option) \<Rightarrow> nat \<Rightarrow> nat \<Rightarrow> u32 \<Rightarrow> bytes \<Rightarrow> bytes \<Rightarrow> (bytes \<times> bytes \<times> u32) option" where
  "crypto_ctr_crypt_inplace_loop fn bsize off nbytes src ctrblk = do {
     keystream \<leftarrow> fn ctrblk;
     s \<leftarrow> rd src off bsize;
     x \<leftarrow> crypto_xor s keystream bsize;
     src \<leftarrow> wr src off x;
     ctrblk \<leftarrow> crypto_inc ctrblk bsize;
     (let nbytes = nbytes - of_nat bsize in
      if bsize \<le> unat nbytes then crypto_ctr_crypt_inplace_loop fn bsize (off + bsize) nbytes src ctrblk
      else Some (src, ctrblk, nbytes))
   }"

definition crypto_ctr_crypt_final ::
    "(bytes \<Rightarrow> bytes option) \<Rightarrow> nat \<Rightarrow> blkcipher_walk \<Rightarrow> blkcipher_walk option" where
  "crypto_ctr_crypt_final fn bsize walk = do {
     let nbytes = unat (walk_nbytes walk);
     keystream \<leftarrow> fn (walk_iv walk);
     keystream \<leftarrow> crypto_xor keystream (walk_src walk) nbytes;
     ks \<leftarrow> rd keystream 0 nbytes;
     dst \<leftarrow> wr (walk_dst walk) 0 ks;
     ctrblk \<leftarrow> crypto_inc (walk_iv walk) bsize;
     Some (walk\<lparr>walk_dst := dst, walk_iv := ctrblk\<rparr>)
   }"

section \<open>The helpers on byte strings\<close>

definition xorb :: "bytes \<Rightarrow> bytes \<Rightarrow> bytes" where
  "xorb a b = map2 (XOR) a b"

lemma length_xorb [simp]: "length (xorb a b) = min (length a) (length b)"
  by (simp add: xorb_def)

lemma xorb_self_cancel: "length a = length b \<Longrightarrow> xorb (xorb a b) b = a"
  by (induction a b rule: list_induct2) (simp_all add: xorb_def xor.assoc)

lemma xorb_self_cancel': "length a = length b \<Longrightarrow> xorb b (xorb a b) = a"
  by (induction a b rule: list_induct2) (simp_all add: xorb_def xor.left_commute)

lemma xorb_commute: "xorb a b = xorb b a"
proof (induction a arbitrary: b)
  case (Cons x a)
  then show ?case by (cases b) (simp_all add: xorb_def xor.commute)
qed (simp add: xorb_def)

lemma crypto_xor_byte_eq:
  "crypto_xor_byte a b n =
     (if n \<le> length a \<and> n \<le> length b then Some (xorb (take n a) (take n b) @ drop n a) else None)"
  by (induction a b n rule: crypto_xor_byte.induct) (auto simp: xorb_def)

lemma cpu_to_le32_xor: "cpu_to_le32 (u XOR v) = xorb (cpu_to_le32 u) (cpu_to_le32 v)"
  by (simp add: cpu_to_le32_def xorb_def unsigned_xor_eq drop_bit_xor)

lemma xorb_append: "length a = length c \<Longrightarrow> xorb (a @ b) (c @ d) = xorb a c @ xorb b d"
  by (simp add: xorb_def)

lemma crypto_xor_eq:
  "crypto_xor a b n =
     (if n \<le> length a \<and> n \<le> length b then Some (xorb (take n a) (take n b) @ drop n a) else None)"
proof (induction a b n rule: crypto_xor.induct)
  case (1 a b n)
  show ?case
  proof (cases "4 \<le> n")
    case False
    then show ?thesis by (subst crypto_xor.simps) (simp add: crypto_xor_byte_eq)
  next
    case ge: True
    show ?thesis
    proof (cases "4 \<le> length a \<and> 4 \<le> length b")
      case False
      with ge show ?thesis by (subst crypto_xor.simps) (auto simp: rd_def)
    next
      case True
      have IH: "crypto_xor (drop 4 a) (drop 4 b) (n - 4) =
          (if n - 4 \<le> length (drop 4 a) \<and> n - 4 \<le> length (drop 4 b)
           then Some (xorb (take (n - 4) (drop 4 a)) (take (n - 4) (drop 4 b)) @ drop (n - 4) (drop 4 a))
           else None)"
        using "1.IH"[of "take 4 a" "take 4 b"] ge True by (simp add: rd_def)
      have tk: "take n c = take 4 c @ take (n - 4) (drop 4 c)" for c :: bytes
        using ge by (metis le_add_diff_inverse take_add)
      have "xorb (take n a) (take n b) =
          xorb (take 4 a) (take 4 b) @ xorb (take (n - 4) (drop 4 a)) (take (n - 4) (drop 4 b))"
        using True by (subst (1 2) tk) (simp add: xorb_append)
      with ge True show ?thesis
        by (subst crypto_xor.simps) (auto simp: rd_def IH cpu_to_le32_xor)
    qed
  qed
qed

lemma crypto_xor_block:
  "length a = n \<Longrightarrow> length b = n \<Longrightarrow> crypto_xor a b n = Some (xorb a b)"
  by (simp add: crypto_xor_eq)

section \<open>The counter block as a big-endian number\<close>

definition be_val :: "bytes \<Rightarrow> nat" where
  "be_val bs = foldl (\<lambda>v b. 256 * v + unat b) 0 bs"

lemma be_val_snoc: "be_val (xs @ [x]) = 256 * be_val xs + unat x"
  by (simp add: be_val_def)

lemma be_val_less: "be_val xs < 256 ^ length xs"
proof (induction xs rule: rev_induct)
  case (snoc x xs)
  have "unat x < 256" using unsigned_less[of x] by simp
  then show ?case using snoc by (simp add: be_val_snoc)
qed (simp add: be_val_def)

lemma be_val_append4:
  assumes "length w = 4"
  shows "be_val (xs @ w) = 2 ^ 32 * be_val xs + unat (be32_to_cpu w)"
proof -
  obtain a b c d where w: "w = [a, b, c, d]"
    using assms by (auto simp: numeral_eq_Suc length_Suc_conv)
  show ?thesis by (simp add: w be_val_def be32_to_cpu_def unat_le32_to_cpu)
qed

lemma crypto_inc_byte_val:
  "n \<le> length a \<Longrightarrow> \<exists>a'. crypto_inc_byte a n = Some a' \<and> length a' = length a \<and>
     be_val (take n a') = (be_val (take n a) + 1) mod 256 ^ n \<and> drop n a' = drop n a"
proof (induction n arbitrary: a)
  case 0
  then show ?case by (simp add: be_val_def)
next
  case (Suc n)
  let ?c = "a ! n + 1" and ?a = "a[n := a ! n + 1]"
  have t: "be_val (take (Suc n) xs) = 256 * be_val (take n xs) + unat (xs ! n)" if "n < length xs" for xs
    using that by (simp add: take_Suc_conv_app_nth be_val_snoc)
  have lt: "be_val (take n a) < 256 ^ n" using be_val_less[of "take n a"] Suc.prems by simp
  show ?case
  proof (cases "?c = 0")
    case False
    have "unat ?c = unat (a ! n) + 1"
      using False unatSuc[of "a ! n"] by (simp add: add.commute)
    moreover have unat_less: "unat (a ! n) + 1 < 256"
    proof -
      have "unat ?c < 256" using unsigned_less[of ?c] by simp
      then show ?thesis using calculation by simp
    qed
    moreover have "256 * be_val (take n a) + unat (a ! n) + 1 < 256 ^ Suc n"
      using lt False unat_less by simp
    ultimately show ?thesis using Suc.prems False by (auto simp: t)
  next
    case True
    then have "a ! n = -1" by (simp add: eq_neg_iff_add_eq_0)
    then have u: "unat (a ! n) = 255" by (simp add: unsigned_minus_1_eq_mask mask_eq_exp_minus_1)
    obtain a' where ih: "crypto_inc_byte ?a n = Some a'" "length a' = length a"
      "be_val (take n a') = (be_val (take n ?a) + 1) mod 256 ^ n" "drop n a' = drop n ?a"
      using Suc.IH[of ?a] Suc.prems by auto
    have "a' ! n = ?a ! n"
      using ih(2,4) Suc.prems by (metis Cons_nth_drop_Suc Suc_le_eq length_list_update list.inject)
    then have z: "a' ! n = 0" using True Suc.prems by simp
    have dr: "drop (Suc n) a' = drop (Suc n) a"
      using ih(2,4) Suc.prems by (metis Cons_nth_drop_Suc Suc_le_eq drop_update_cancel length_list_update lessI list.inject)
    have m: "(256 * b + 256) mod 256 ^ Suc n = 256 * ((b + 1) mod 256 ^ n)" for b :: nat
      by (metis mult_Suc_right mult_mod_right power_Suc Suc_eq_plus1 add.commute)
    show ?thesis
      using Suc.prems True u ih z dr m[of "be_val (take n a)"] by (simp add: t add.commute)
  qed
qed

lemma crypto_inc_val:
  "n \<le> length a \<Longrightarrow> \<exists>a'. crypto_inc a n = Some a' \<and> length a' = length a \<and>
     be_val (take n a') = (be_val (take n a) + 1) mod 256 ^ n \<and> drop n a' = drop n a"
proof (induction n arbitrary: a rule: less_induct)
  case (less n)
  show ?case
  proof (cases "4 \<le> n")
    case False
    then show ?thesis using crypto_inc_byte_val[OF less.prems] by (subst crypto_inc.simps) simp
  next
    case True
    define m where "m = n - 4"
    have n: "n = m + 4" and le: "m + 4 \<le> length a" using True less.prems by (auto simp: m_def)
    define w where "w = take 4 (drop m a)"
    have w: "length w = 4" "rd a m 4 = Some w" using le by (auto simp: w_def rd_def)
    let ?c = "be32_to_cpu w + 1"
    let ?a = "take m a @ cpu_to_be32 ?c @ drop n a"
    have wr: "wr a m (cpu_to_be32 ?c) = Some ?a" using le by (simp add: wr_def n)
    have tk: "take n a = take m a @ w" by (simp add: n take_add w_def)
    have bv: "be_val (take n a) = 2 ^ 32 * be_val (take m a) + unat (be32_to_cpu w)"
      by (simp add: tk be_val_append4 w)
    have lt: "be_val (take m a) < 256 ^ m" using be_val_less[of "take m a"] le by simp
    have p: "(256::nat) ^ n = 2 ^ 32 * 256 ^ m" by (simp add: n power_add)
    have inc: "crypto_inc a n = (if ?c \<noteq> 0 then Some ?a else crypto_inc ?a m)"
      using True w wr by (subst crypto_inc.simps) (simp add: m_def Let_def)
    show ?thesis
    proof (cases "?c = 0")
      case False
      have u: "unat ?c = unat (be32_to_cpu w) + 1"
        using False unatSuc[of "be32_to_cpu w"] by (simp add: add.commute)
      have "unat ?c < 2 ^ 32" using unsigned_less[of ?c] by simp
      then have "2 ^ 32 * be_val (take m a) + unat ?c < 256 ^ n" using lt p by simp
      moreover have "take n ?a = take m a @ cpu_to_be32 ?c" using le by (simp add: n)
      ultimately show ?thesis
        using False inc le u bv by (simp add: n be_val_append4)
    next
      case zero: True
      then have "be32_to_cpu w = -1" by (simp add: eq_neg_iff_add_eq_0)
      then have u: "unat (be32_to_cpu w) = 2 ^ 32 - 1"
        by (simp add: unsigned_minus_1_eq_mask mask_eq_exp_minus_1)
      obtain a' where ih: "crypto_inc ?a m = Some a'" "length a' = length ?a"
        "be_val (take m a') = (be_val (take m ?a) + 1) mod 256 ^ m" "drop m a' = drop m ?a"
        using less.IH[of m ?a] n le by auto
      have "take n a' = take m a' @ take 4 (drop m ?a)"
        using ih(4) by (simp add: n take_add)
      then have "be_val (take n a') = 2 ^ 32 * be_val (take m a')"
        using zero le by (simp add: be_val_append4)
      also have "\<dots> = (be_val (take n a) + 1) mod 256 ^ n"
        using ih(3) le u bv p by (simp add: mult_mod_right)
      finally have v: "be_val (take n a') = (be_val (take n a) + 1) mod 256 ^ n" .
      have "drop n a' = drop 4 (drop m a')" by (simp add: n add.commute)
      also have "\<dots> = drop n a" using ih(4) le by (simp add: n)
      finally show ?thesis using inc zero ih v le by (simp add: n)
    qed
  qed
qed

section \<open>Loops over whole blocks\<close>

definition upd :: "bytes \<Rightarrow> nat \<Rightarrow> bytes \<Rightarrow> bytes" where
  "upd buf off bs = take off buf @ bs @ drop (off + length bs) buf"

fun run_blocks :: "(bytes \<Rightarrow> bytes \<Rightarrow> bytes \<times> bytes) \<Rightarrow> bytes \<Rightarrow> bytes list \<Rightarrow> bytes list \<times> bytes" where
  "run_blocks step iv [] = ([], iv)"
| "run_blocks step iv (b # bs) =
     (fst (step iv b) # fst (run_blocks step (snd (step iv b)) bs),
      snd (run_blocks step (snd (step iv b)) bs))"

lemma run_blocks_append:
  "run_blocks step iv (bs @ cs) =
     (fst (run_blocks step iv bs) @ fst (run_blocks step (snd (run_blocks step iv bs)) cs),
      snd (run_blocks step (snd (run_blocks step iv bs)) cs))"
  by (induction bs arbitrary: iv) simp_all

lemma length_upd [simp]: "off + length bs \<le> length buf \<Longrightarrow> length (upd buf off bs) = length buf"
  by (simp add: upd_def)

lemma upd_upd:
  "off + length a + length b \<le> length buf \<Longrightarrow> upd (upd buf off a) (off + length a) b = upd buf off (a @ b)"
  by (simp add: upd_def ac_simps)

lemma wr_upd: "off + length bs \<le> length buf \<Longrightarrow> wr buf off bs = Some (upd buf off bs)"
  by (simp add: wr_def upd_def)

locale block_loop =
  fixes loop :: "nat \<Rightarrow> u32 \<Rightarrow> 'st \<Rightarrow> ('st \<times> u32) option"
    and inp :: "'st \<Rightarrow> bytes" and outp :: "'st \<Rightarrow> bytes" and ivv :: "'st \<Rightarrow> bytes"
    and good :: "nat \<Rightarrow> 'st \<Rightarrow> bool"
    and step :: "bytes \<Rightarrow> bytes \<Rightarrow> bytes \<times> bytes"
    and bsize :: nat
  assumes bsize_pos: "0 < bsize"
    and step_out: "length iv = bsize \<Longrightarrow> length s = bsize \<Longrightarrow> length (fst (step iv s)) = bsize"
    and good_iv: "good off st \<Longrightarrow> length (ivv st) = bsize"
    and turn: "good off st \<Longrightarrow> off + bsize \<le> length (inp st) \<Longrightarrow> off + bsize \<le> length (outp st) \<Longrightarrow>
      \<exists>st'. good (off + bsize) st' \<and>
        outp st' = upd (outp st) off (fst (step (ivv st) (take bsize (drop off (inp st))))) \<and>
        ivv st' = snd (step (ivv st) (take bsize (drop off (inp st)))) \<and>
        drop (off + bsize) (inp st') = drop (off + bsize) (inp st) \<and>
        (\<forall>n. loop off n st =
           (if bsize \<le> unat (n - of_nat bsize) then loop (off + bsize) (n - of_nat bsize) st'
            else Some (st', n - of_nat bsize)))"
begin

lemma run:
  assumes "bs \<noteq> []" "\<forall>b \<in> set bs. length b = bsize" "good off st"
    "drop off (inp st) = concat bs @ rest" "off + length (concat bs) \<le> length (outp st)"
    "unat n = length (concat bs) + r" "r < bsize"
  shows "\<exists>st'. loop off n st = Some (st', of_nat r) \<and> good (off + length (concat bs)) st' \<and>
     length (concat (fst (run_blocks step (ivv st) bs))) = length (concat bs) \<and>
     outp st' = upd (outp st) off (concat (fst (run_blocks step (ivv st) bs))) \<and>
     ivv st' = snd (run_blocks step (ivv st) bs)"
  using assms
proof (induction bs arbitrary: off st n)
  case Nil
  then show ?case by simp
next
  case (Cons b bs)
  have b: "length b = bsize" "take bsize (drop off (inp st)) = b" using Cons.prems by auto
  have "length (drop off (inp st)) \<ge> bsize" using Cons.prems b by simp
  then have inl: "off + bsize \<le> length (inp st)" using bsize_pos by simp
  obtain st1 where st1: "good (off + bsize) st1"
    "outp st1 = upd (outp st) off (fst (step (ivv st) b))" "ivv st1 = snd (step (ivv st) b)"
    "drop (off + bsize) (inp st1) = drop (off + bsize) (inp st)"
    and eq: "\<And>n. loop off n st =
       (if bsize \<le> unat (n - of_nat bsize) then loop (off + bsize) (n - of_nat bsize) st1
        else Some (st1, n - of_nat bsize))"
    using turn[of off st] Cons.prems inl b by auto
  have fl: "length (fst (step (ivv st) b)) = bsize"
    using step_out good_iv Cons.prems(3) b by blast
  have "bsize \<le> unat n" using Cons.prems b by simp
  then have un: "unat (n - of_nat bsize) = unat n - bsize"
    by (metis le_unat_uoi unat_sub word_le_nat_alt)
  have n': "unat (n - of_nat bsize) = length (concat bs) + r" using Cons.prems b un by simp
  have o1: "length (outp st1) = length (outp st)"
    using st1(2) fl Cons.prems b by simp
  show ?case
  proof (cases bs)
    case Nil
    have "of_nat (unat (n - of_nat bsize)) = n - of_nat bsize" by simp
    then have "n - of_nat bsize = of_nat r" using n' Nil by simp
    then show ?thesis using Nil st1 eq n' Cons.prems fl b by simp
  next
    case (Cons c cs)
    have dr: "drop (off + bsize) (inp st1) = concat bs @ rest"
      using st1(4) Cons.prems b by (metis add.commute append_assoc append_eq_conv_conj concat.simps(2) drop_drop)
    have ol: "(off + bsize) + length (concat bs) \<le> length (outp st1)" using o1 Cons.prems b by simp
    obtain st2 where st2: "loop (off + bsize) (n - of_nat bsize) st1 = Some (st2, of_nat r)"
      "good (off + bsize + length (concat bs)) st2"
      "length (concat (fst (run_blocks step (ivv st1) bs))) = length (concat bs)"
      "outp st2 = upd (outp st1) (off + bsize) (concat (fst (run_blocks step (ivv st1) bs)))"
      "ivv st2 = snd (run_blocks step (ivv st1) bs)"
      using Cons.IH[OF _ _ st1(1) dr ol n'] Cons.prems local.Cons by auto
    have "bsize \<le> unat (n - of_nat bsize)" using n' local.Cons Cons.prems by simp
    then have "loop off n st = Some (st2, of_nat r)" using eq st2 by simp
    moreover have "outp st2 = upd (outp st) off (concat (fst (run_blocks step (ivv st) (b # bs))))"
      using st2 st1 fl Cons.prems b
        upd_upd[of off "fst (step (ivv st) b)" "concat (fst (run_blocks step (ivv st1) bs))" "outp st"]
      by simp
    ultimately show ?thesis using st2 st1 fl b by (simp add: add.assoc)
  qed
qed

lemma run_whole:
  assumes "bs \<noteq> []" "\<forall>b \<in> set bs. length b = bsize" "good 0 st" "inp st = concat bs"
    "length (outp st) = length (concat bs)" "length (concat bs) < 2 ^ 32"
  obtains st' where "loop 0 (of_nat (length (concat bs))) st = Some (st', 0)" "good (length (concat bs)) st'"
    "outp st' = concat (fst (run_blocks step (ivv st) bs))" "ivv st' = snd (run_blocks step (ivv st) bs)"
proof -
  have n: "unat (of_nat (length (concat bs)) :: u32) = length (concat bs) + 0"
    using assms(6) by (simp add: unat_of_nat_u32)
  have d: "drop 0 (inp st) = concat bs @ []" "0 + length (concat bs) \<le> length (outp st)"
    using assms(4,5) by simp_all
  obtain st' where "loop 0 (of_nat (length (concat bs))) st = Some (st', of_nat 0)"
      "good (0 + length (concat bs)) st'"
      "length (concat (fst (run_blocks step (ivv st) bs))) = length (concat bs)"
      "outp st' = upd (outp st) 0 (concat (fst (run_blocks step (ivv st) bs)))"
      "ivv st' = snd (run_blocks step (ivv st) bs)"
    using run[OF assms(1,2,3) d n bsize_pos] by blast
  then show ?thesis using that[of st'] assms(5) by (simp add: upd_def)
qed

end

section \<open>One turn of every mode, as a step on a block and a chaining value\<close>

definition ecb_step :: "(bytes \<Rightarrow> bytes) \<Rightarrow> bytes \<Rightarrow> bytes \<Rightarrow> bytes \<times> bytes" where
  "ecb_step f iv s = (f s, iv)"

definition cbc_enc_step :: "(bytes \<Rightarrow> bytes) \<Rightarrow> bytes \<Rightarrow> bytes \<Rightarrow> bytes \<times> bytes" where
  "cbc_enc_step f iv s = (f (xorb iv s), f (xorb iv s))"

definition cbc_dec_step :: "(bytes \<Rightarrow> bytes) \<Rightarrow> bytes \<Rightarrow> bytes \<Rightarrow> bytes \<times> bytes" where
  "cbc_dec_step f iv s = (xorb (f s) iv, s)"

definition pcbc_enc_step :: "(bytes \<Rightarrow> bytes) \<Rightarrow> bytes \<Rightarrow> bytes \<Rightarrow> bytes \<times> bytes" where
  "pcbc_enc_step f iv s = (f (xorb iv s), xorb (f (xorb iv s)) s)"

definition pcbc_dec_step :: "(bytes \<Rightarrow> bytes) \<Rightarrow> bytes \<Rightarrow> bytes \<Rightarrow> bytes \<times> bytes" where
  "pcbc_dec_step f iv s = (xorb (f s) iv, xorb s (xorb (f s) iv))"

definition ctr_step :: "(bytes \<Rightarrow> bytes) \<Rightarrow> bytes \<Rightarrow> bytes \<Rightarrow> bytes \<times> bytes" where
  "ctr_step f iv s = (xorb (f iv) s, the (crypto_inc iv (length iv)))"

lemmas step_defs = ecb_step_def cbc_enc_step_def cbc_dec_step_def pcbc_enc_step_def
  pcbc_dec_step_def ctr_step_def

lemma crypto_inc_block: "length iv = n \<Longrightarrow> \<exists>iv'. crypto_inc iv n = Some iv' \<and> length iv' = n"
  using crypto_inc_val[of n iv] by auto

lemma upd_whole: "length d = length buf \<Longrightarrow> upd buf 0 d = d"
  by (simp add: upd_def)

lemma drop_upd: "off + length bs \<le> length buf \<Longrightarrow> n = length bs \<Longrightarrow> drop (off + n) (upd buf off bs) = drop (off + n) buf"
  by (simp add: upd_def)

locale cipher_fn =
  fixes fn :: "bytes \<Rightarrow> bytes option" and f :: "bytes \<Rightarrow> bytes" and bsize :: nat
  assumes bsize_pos: "0 < bsize"
    and fn_eq: "length b = bsize \<Longrightarrow> fn b = Some (f b)"
    and f_len: "length b = bsize \<Longrightarrow> length (f b) = bsize"

sublocale cipher_fn \<subseteq> ecb_seg: block_loop
  "\<lambda>off n (src, dst, iv). map_option (\<lambda>(d, n). ((src, d, iv), n)) (crypto_ecb_crypt_loop fn bsize off n src dst)"
  "\<lambda>(src, dst, iv). src" "\<lambda>(src, dst, iv). dst" "\<lambda>(src, dst, iv). iv" "\<lambda>off (src, dst, iv). length iv = bsize"
  "ecb_step f" bsize
proof (unfold_locales, goal_cases)
  case (4 off st)
  obtain src dst iv where st: "st = (src, dst, iv)" by (cases st) auto
  let ?s = "take bsize (drop off src)"
  from 4 st show ?case
    by (intro exI[of _ "(src, upd dst off (f ?s), iv)"])
      (auto simp: ecb_step_def crypto_ecb_crypt_loop.simps[of fn bsize off] rd_def fn_eq f_len wr_upd Let_def)
qed (auto simp: step_defs bsize_pos f_len)

sublocale cipher_fn \<subseteq> cbc_enc_seg: block_loop
  "\<lambda>off n (src, dst, iv). map_option (\<lambda>(d, iv, n). ((src, d, iv), n))
     (crypto_cbc_encrypt_segment_loop fn bsize off n src dst iv)"
  "\<lambda>(src, dst, iv). src" "\<lambda>(src, dst, iv). dst" "\<lambda>(src, dst, iv). iv" "\<lambda>off (src, dst, iv). length iv = bsize"
  "cbc_enc_step f" bsize
proof (unfold_locales, goal_cases)
  case (4 off st)
  obtain src dst iv where st: "st = (src, dst, iv)" by (cases st) auto
  let ?c = "f (xorb iv (take bsize (drop off src)))"
  from 4 st show ?case
    by (intro exI[of _ "(src, upd dst off ?c, ?c)"])
      (auto simp: cbc_enc_step_def crypto_cbc_encrypt_segment_loop.simps[of fn bsize off] rd_def
        crypto_xor_block fn_eq f_len wr_upd upd_whole Let_def)
qed (auto simp: step_defs bsize_pos f_len)

sublocale cipher_fn \<subseteq> pcbc_enc_seg: block_loop
  "\<lambda>off n (src, dst, iv). map_option (\<lambda>(d, iv, n). ((src, d, iv), n))
     (crypto_pcbc_encrypt_segment_loop fn bsize off n src dst iv)"
  "\<lambda>(src, dst, iv). src" "\<lambda>(src, dst, iv). dst" "\<lambda>(src, dst, iv). iv" "\<lambda>off (src, dst, iv). length iv = bsize"
  "pcbc_enc_step f" bsize
proof (unfold_locales, goal_cases)
  case (4 off st)
  obtain src dst iv where st: "st = (src, dst, iv)" by (cases st) auto
  let ?s = "take bsize (drop off src)"
  from 4 st show ?case
    by (intro exI[of _ "(src, upd dst off (f (xorb iv ?s)), xorb (f (xorb iv ?s)) ?s)"])
      (auto simp: pcbc_enc_step_def crypto_pcbc_encrypt_segment_loop.simps[of fn bsize off] rd_def
        crypto_xor_block fn_eq f_len wr_upd upd_whole Let_def)
qed (auto simp: step_defs bsize_pos f_len)

sublocale cipher_fn \<subseteq> pcbc_enc_inp: block_loop
  "\<lambda>off n (src, iv). map_option (\<lambda>(src, iv, n). ((src, iv), n))
     (crypto_pcbc_encrypt_inplace_loop fn bsize off n src iv)"
  "\<lambda>(src, iv). src" "\<lambda>(src, iv). src" "\<lambda>(src, iv). iv" "\<lambda>off (src, iv). length iv = bsize"
  "pcbc_enc_step f" bsize
proof (unfold_locales, goal_cases)
  case (4 off st)
  obtain src iv where st: "st = (src, iv)" by (cases st) auto
  let ?s = "take bsize (drop off src)"
  from 4 st show ?case
    by (intro exI[of _ "(upd src off (f (xorb iv ?s)), xorb ?s (f (xorb iv ?s)))"])
      (auto simp: pcbc_enc_step_def crypto_pcbc_encrypt_inplace_loop.simps[of fn bsize off] rd_def
        crypto_xor_block fn_eq f_len wr_upd upd_whole drop_upd Let_def xorb_commute)
qed (auto simp: step_defs bsize_pos f_len)

sublocale cipher_fn \<subseteq> pcbc_dec_seg: block_loop
  "\<lambda>off n (src, dst, iv). map_option (\<lambda>(d, iv, n). ((src, d, iv), n))
     (crypto_pcbc_decrypt_segment_loop fn bsize off n src dst iv)"
  "\<lambda>(src, dst, iv). src" "\<lambda>(src, dst, iv). dst" "\<lambda>(src, dst, iv). iv" "\<lambda>off (src, dst, iv). length iv = bsize"
  "pcbc_dec_step f" bsize
proof (unfold_locales, goal_cases)
  case (4 off st)
  obtain src dst iv where st: "st = (src, dst, iv)" by (cases st) auto
  let ?s = "take bsize (drop off src)"
  from 4 st show ?case
    by (intro exI[of _ "(src, upd dst off (xorb (f ?s) iv), xorb ?s (xorb (f ?s) iv))"])
      (auto simp: pcbc_dec_step_def crypto_pcbc_decrypt_segment_loop.simps[of fn bsize off] rd_def
        crypto_xor_block fn_eq f_len wr_upd upd_whole Let_def)
qed (auto simp: step_defs bsize_pos f_len)

sublocale cipher_fn \<subseteq> pcbc_dec_inp: block_loop
  "\<lambda>off n (src, iv). map_option (\<lambda>(src, iv, n). ((src, iv), n))
     (crypto_pcbc_decrypt_inplace_loop fn bsize off n src iv)"
  "\<lambda>(src, iv). src" "\<lambda>(src, iv). src" "\<lambda>(src, iv). iv" "\<lambda>off (src, iv). length iv = bsize"
  "pcbc_dec_step f" bsize
proof (unfold_locales, goal_cases)
  case (4 off st)
  obtain src iv where st: "st = (src, iv)" by (cases st) auto
  let ?s = "take bsize (drop off src)"
  from 4 st show ?case
    by (intro exI[of _ "(upd src off (xorb (f ?s) iv), xorb ?s (xorb (f ?s) iv))"])
      (auto simp: pcbc_dec_step_def crypto_pcbc_decrypt_inplace_loop.simps[of fn bsize off] rd_def
        crypto_xor_block fn_eq f_len wr_upd upd_whole drop_upd Let_def)
qed (auto simp: step_defs bsize_pos f_len)

sublocale cipher_fn \<subseteq> ctr_seg: block_loop
  "\<lambda>off n (src, dst, iv). map_option (\<lambda>(d, iv, n). ((src, d, iv), n))
     (crypto_ctr_crypt_segment_loop fn bsize off n src dst iv)"
  "\<lambda>(src, dst, iv). src" "\<lambda>(src, dst, iv). dst" "\<lambda>(src, dst, iv). iv" "\<lambda>off (src, dst, iv). length iv = bsize"
  "ctr_step f" bsize
proof (unfold_locales, goal_cases)
  case (4 off st)
  obtain src dst iv where st: "st = (src, dst, iv)" by (cases st) auto
  let ?s = "take bsize (drop off src)"
  obtain iv' where inc: "crypto_inc iv bsize = Some iv'" "length iv' = bsize"
    using 4 st crypto_inc_block by auto
  then have "the (crypto_inc iv bsize) = iv'" by simp
  from 4 st inc show ?case
    by (intro exI[of _ "(src, upd dst off (xorb (f iv) ?s), iv')"])
      (auto simp: ctr_step_def crypto_ctr_crypt_segment_loop.simps[of fn bsize off] rd_def
        crypto_xor_block fn_eq f_len wr_upd upd_whole Let_def)
qed (auto simp: step_defs bsize_pos f_len)

sublocale cipher_fn \<subseteq> ctr_inp: block_loop
  "\<lambda>off n (src, iv). map_option (\<lambda>(src, iv, n). ((src, iv), n))
     (crypto_ctr_crypt_inplace_loop fn bsize off n src iv)"
  "\<lambda>(src, iv). src" "\<lambda>(src, iv). src" "\<lambda>(src, iv). iv" "\<lambda>off (src, iv). length iv = bsize"
  "ctr_step f" bsize
proof (unfold_locales, goal_cases)
  case (4 off st)
  obtain src iv where st: "st = (src, iv)" by (cases st) auto
  let ?s = "take bsize (drop off src)"
  obtain iv' where inc: "crypto_inc iv bsize = Some iv'" "length iv' = bsize"
    using 4 st crypto_inc_block by auto
  then have "the (crypto_inc iv bsize) = iv'" by simp
  from 4 st inc show ?case
    by (intro exI[of _ "(upd src off (xorb ?s (f iv)), iv')"])
      (auto simp: ctr_step_def crypto_ctr_crypt_inplace_loop.simps[of fn bsize off] rd_def
        crypto_xor_block fn_eq f_len wr_upd upd_whole drop_upd Let_def xorb_commute)
qed (auto simp: step_defs bsize_pos f_len)

definition iv_good :: "nat \<Rightarrow> nat \<Rightarrow> bytes \<Rightarrow> bytes \<Rightarrow> nat option \<Rightarrow> bool" where
  "iv_good bsize off wiv src p \<longleftrightarrow>
     length wiv = bsize \<and> (case p of None \<Rightarrow> True | Some q \<Rightarrow> q + bsize \<le> off \<and> off \<le> length src)"

lemma iv_good_deref:
  "iv_good bsize off wiv src p \<Longrightarrow>
   \<exists>iv. iv_deref wiv src bsize p = Some iv \<and> length iv = bsize"
  by (auto simp: iv_good_def iv_deref_def rd_def split: option.splits)

lemma iv_deref_None: "length wiv = bsize \<Longrightarrow> iv_deref wiv src bsize None = Some wiv"
  by (simp add: iv_deref_def rd_def)

lemma iv_good_Some:
  "length wiv = bsize \<Longrightarrow> off + bsize \<le> length src \<Longrightarrow> iv_good bsize (off + bsize) wiv src (Some off)"
  by (simp add: iv_good_def)

lemma take_drop_upd: "off + length bs \<le> length buf \<Longrightarrow> n = length bs \<Longrightarrow> take n (drop off (upd buf off bs)) = bs"
  by (simp add: upd_def)

lemma upd_twice: "length a = length b \<Longrightarrow> off + length a \<le> length buf \<Longrightarrow> upd (upd buf off a) off b = upd buf off b"
  by (simp add: upd_def)

sublocale cipher_fn \<subseteq> cbc_dec_seg: block_loop
  "\<lambda>off n (src, dst, wiv, p). map_option (\<lambda>(d, p, n). ((src, d, wiv, p), n))
     (crypto_cbc_decrypt_segment_loop fn bsize off n src dst wiv p)"
  "\<lambda>(src, dst, wiv, p). src" "\<lambda>(src, dst, wiv, p). dst"
  "\<lambda>(src, dst, wiv, p). the (iv_deref wiv src bsize p)"
  "\<lambda>off (src, dst, wiv, p). iv_good bsize off wiv src p"
  "cbc_dec_step f" bsize
proof (unfold_locales, goal_cases)
  case (3 off st)
  then show ?case by (auto dest: iv_good_deref)
next
  case (4 off st)
  obtain src dst wiv p where st: "st = (src, dst, wiv, p)" by (cases st) auto
  let ?s = "take bsize (drop off src)"
  obtain iv where iv: "iv_deref wiv src bsize p = Some iv" "length iv = bsize"
    using 4 st iv_good_deref[of bsize off wiv src p] by auto
  have "iv_good bsize (off + bsize) wiv src (Some off)"
    using 4 st by (auto simp: iv_good_def)
  moreover have "the (iv_deref wiv src bsize (Some off)) = ?s"
    using 4 st by (simp add: iv_deref_def rd_def)
  ultimately show ?case using 4 st iv
    by (intro exI[of _ "(src, upd dst off (xorb (f ?s) iv), wiv, Some off)"])
      (auto simp: cbc_dec_step_def crypto_cbc_decrypt_segment_loop.simps[of fn bsize off] rd_def
        crypto_xor_block fn_eq f_len wr_upd Let_def)
qed (auto simp: step_defs bsize_pos f_len)

sublocale cipher_fn \<subseteq> cbc_enc_inp: block_loop
  "\<lambda>off n (src, wiv, p). map_option (\<lambda>(src, p, n). ((src, wiv, p), n))
     (crypto_cbc_encrypt_inplace_loop fn bsize off n src wiv p)"
  "\<lambda>(src, wiv, p). src" "\<lambda>(src, wiv, p). src" "\<lambda>(src, wiv, p). the (iv_deref wiv src bsize p)"
  "\<lambda>off (src, wiv, p). iv_good bsize off wiv src p"
  "cbc_enc_step f" bsize
proof (unfold_locales, goal_cases)
  case (3 off st)
  then show ?case by (auto dest: iv_good_deref)
next
  case (4 off st)
  obtain src wiv p where st: "st = (src, wiv, p)" by (cases st) auto
  let ?s = "take bsize (drop off src)"
  obtain iv where iv: "iv_deref wiv src bsize p = Some iv" "length iv = bsize"
    using 4 st iv_good_deref[of bsize off wiv src p] by auto
  let ?c = "f (xorb ?s iv)"
  have c: "length ?c = bsize" "f (xorb iv ?s) = ?c" using 4 st iv by (auto simp: f_len xorb_commute)
  have g: "iv_good bsize (off + bsize) wiv (upd src off ?c) (Some off)"
    using 4 st c by (auto simp: iv_good_def)
  have d: "the (iv_deref wiv (upd src off ?c) bsize (Some off)) = ?c"
    using 4 st c by (simp add: iv_deref_def rd_def take_drop_upd)
  from 4 st iv c g d show ?case
    by (intro exI[of _ "(upd src off ?c, wiv, Some off)"])
      (auto simp: cbc_enc_step_def crypto_cbc_encrypt_inplace_loop.simps[of fn bsize off] rd_def
        crypto_xor_block fn_eq f_len wr_upd upd_twice drop_upd Let_def)
qed (auto simp: step_defs bsize_pos f_len)

section \<open>In-place decryption runs backwards\<close>

lemma cbc_dec_iv: "snd (run_blocks (cbc_dec_step f) iv bs) = last (iv # bs)"
  by (induction bs arbitrary: iv) (simp_all add: cbc_dec_step_def)

context cipher_fn
begin

lemma cbc_decrypt_inplace_loop_back:
  assumes "length c0 = bsize" "\<forall>c \<in> set cs. length c = bsize"
    "unat n = length (concat (c0 # cs)) + r" "r < bsize"
  shows "crypto_cbc_decrypt_inplace_loop fn bsize (length (concat cs)) n (concat (c0 # cs) @ rest) =
     Some (concat (f c0 # fst (run_blocks (cbc_dec_step f) c0 cs)) @ rest, 0, of_nat r)"
  using assms
proof (induction cs arbitrary: n rest rule: rev_induct)
  case Nil
  have "of_nat (unat n) = n" by simp
  then have "n - of_nat bsize = of_nat r" using Nil by (auto simp: algebra_simps)
  moreover have "unat (of_nat r :: u32) = r"
    using Nil unat_u32_less[of n] by (simp add: unat_of_nat_u32)
  ultimately show ?case
    using Nil by (subst crypto_cbc_decrypt_inplace_loop.simps)
      (simp add: rd_def fn_eq f_len wr_def Let_def)
next
  case (snoc c ds)
  let ?ds = "c0 # ds"
  let ?off = "length (concat (ds @ [c]))"
  have lc: "length c = bsize" and lds: "\<forall>b \<in> set ?ds. length b = bsize" using snoc.prems by auto
  have off: "?off = length (concat ?ds)" using snoc.prems by simp
  obtain ini p where p: "?ds = ini @ [p]" by (metis append_butlast_last_id list.distinct(1))
  then have lp: "length p = bsize" "p = last ?ds" using lds by auto
  have offp: "?off - bsize = length (concat ini)" "bsize \<le> ?off"
    using off p lp(1) by auto
  have s0: "concat (c0 # ds @ [c]) @ rest = concat ?ds @ c @ rest" by simp
  have "bsize \<le> unat n" using snoc.prems lc by simp
  then have un: "unat (n - of_nat bsize) = length (concat ?ds) + r"
  proof -
    have "unat (of_nat bsize :: u32) = bsize"
      using \<open>bsize \<le> unat n\<close> unat_u32_less[of n] by (simp add: unat_of_nat_u32)
    then show ?thesis
      using snoc.prems lc \<open>bsize \<le> unat n\<close> by (subst unat_sub) (auto simp: word_le_nat_alt)
  qed
  have big: "\<not> unat (n - of_nat bsize) < bsize" using un snoc.prems by simp
  let ?x = "xorb (f c) p"
  define D where "D = concat ?ds"
  define o1 where "o1 = ?off"
  define o0 where "o0 = length (concat ds)"
  have o: "o1 = length D" "bsize \<le> o1" "o1 - bsize = length (concat ini)" "o1 - bsize = o0"
    using off offp snoc.prems by (auto simp: D_def o1_def o0_def)
  have Dp: "D = concat ini @ p" by (simp only: D_def p) simp
  have r1: "rd (D @ c @ rest) o1 bsize = Some c" by (rule rd_at[OF o(1) lc[symmetric]])
  have w1: "wr (D @ c @ rest) o1 (f c) = Some (D @ f c @ rest)"
    using lc f_len by (intro wr_at[OF o(1)]) simp
  have r2: "rd (D @ f c @ rest) o0 bsize = Some p"
    using rd_at[OF o(3) lp(1)[symmetric], of "f c @ rest"] o(4) by (simp add: Dp)
  have w2: "wr (D @ f c @ rest) o1 ?x = Some (D @ ?x @ rest)"
    using lc lp(1) f_len by (intro wr_at[OF o(1)]) simp
  have "crypto_cbc_decrypt_inplace_loop fn bsize o1 n (D @ c @ rest) =
      crypto_cbc_decrypt_inplace_loop fn bsize o0 (n - of_nat bsize) (D @ ?x @ rest)"
    using r1 w1 r2 w2 big o(2,4) lc lp(1) f_len
    by (subst crypto_cbc_decrypt_inplace_loop.simps) (simp add: fn_eq crypto_xor_block Let_def)
  then have "crypto_cbc_decrypt_inplace_loop fn bsize ?off n (concat (c0 # ds @ [c]) @ rest) =
      crypto_cbc_decrypt_inplace_loop fn bsize (length (concat ds)) (n - of_nat bsize) (concat ?ds @ ?x @ rest)"
    by (simp only: D_def o1_def o0_def s0)
  also have "\<dots> = Some (concat (f c0 # fst (run_blocks (cbc_dec_step f) c0 ds)) @ ?x @ rest, 0, of_nat r)"
    using snoc.IH[of "n - of_nat bsize" "?x @ rest"] snoc.prems un by simp
  finally have eq: "crypto_cbc_decrypt_inplace_loop fn bsize ?off n (concat (c0 # ds @ [c]) @ rest) =
      Some (concat (f c0 # fst (run_blocks (cbc_dec_step f) c0 ds)) @ ?x @ rest, 0, of_nat r)" .
  have "snd (run_blocks (cbc_dec_step f) c0 ds) = p" using lp(2) by (simp only: cbc_dec_iv)
  then have "fst (run_blocks (cbc_dec_step f) c0 (ds @ [c])) = fst (run_blocks (cbc_dec_step f) c0 ds) @ [?x]"
    by (simp add: run_blocks_append) (simp add: cbc_dec_step_def)
  with eq show ?case by simp
qed

end

section \<open>Modes over an invertible cipher\<close>

lemma run_blocks_inverse:
  assumes inv: "\<And>iv s. length iv = n \<Longrightarrow> length s = n \<Longrightarrow> step2 iv (fst (step1 iv s)) = (s, snd (step1 iv s))"
    and len: "\<And>iv s. length iv = n \<Longrightarrow> length s = n \<Longrightarrow> length (snd (step1 iv s)) = n"
    and "length iv = n" "\<forall>b \<in> set bs. length b = n"
  shows "run_blocks step2 iv (fst (run_blocks step1 iv bs)) = (bs, snd (run_blocks step1 iv bs))"
  using assms(3,4) by (induction bs arbitrary: iv) (simp_all add: inv len)

lemma split_blocks:
  "length xs = k * n + r \<Longrightarrow>
     \<exists>bs rest. xs = concat bs @ rest \<and> length bs = k \<and> (\<forall>b \<in> set bs. length b = n) \<and> length rest = r"
proof (induction k arbitrary: xs)
  case 0
  then show ?case by (intro exI[of _ "[]"] exI[of _ xs]) simp
next
  case (Suc k)
  then have "length (drop n xs) = k * n + r" by simp
  then obtain bs rest where "drop n xs = concat bs @ rest" "length bs = k" "\<forall>b \<in> set bs. length b = n" "length rest = r"
    using Suc.IH by blast
  moreover have "take n xs @ drop n xs = xs" by simp
  ultimately show ?case using Suc.prems
    by (intro exI[of _ "take n xs # bs"] exI[of _ rest]) auto
qed

lemma length_concat_blocks: "\<forall>b \<in> set bs. length b = n \<Longrightarrow> length (concat bs) = length bs * n"
  by (induction bs) auto

lemma length_run_blocks: "length (fst (run_blocks step iv bs)) = length bs"
  by (induction bs arbitrary: iv) simp_all

lemma run_blocks_block_len:
  assumes "\<And>iv s. length iv = n \<Longrightarrow> length s = n \<Longrightarrow> length (fst (step iv s)) = n \<and> length (snd (step iv s)) = n"
    and "length iv = n" "\<forall>b \<in> set bs. length b = n"
  shows "(\<forall>b \<in> set (fst (run_blocks step iv bs)). length b = n) \<and> length (snd (run_blocks step iv bs)) = n"
  using assms(2,3)
proof (induction bs arbitrary: iv)
  case (Cons b bs)
  then have "length (fst (step iv b)) = n" "length (snd (step iv b)) = n" using assms(1) by simp_all
  with Cons show ?case by simp
qed simp

context cipher_fn
begin

lemma cbc_encrypt_segment:
  assumes "bs \<noteq> []" "\<forall>b \<in> set bs. length b = bsize" "length iv = bsize" "length (concat bs) < 2 ^ 32"
    "length dst = length (concat bs)"
  shows "crypto_cbc_encrypt_segment fn bsize
      \<lparr>walk_src = concat bs, walk_dst = dst, walk_iv = iv, walk_nbytes = of_nat (length (concat bs))\<rparr> =
    Some (\<lparr>walk_src = concat bs, walk_dst = concat (fst (run_blocks (cbc_enc_step f) iv bs)),
           walk_iv = snd (run_blocks (cbc_enc_step f) iv bs), walk_nbytes = of_nat (length (concat bs))\<rparr>, 0)"
  by (rule cbc_enc_seg.run_whole[of bs "(concat bs, dst, iv)"])
    (use assms in \<open>auto simp: crypto_cbc_encrypt_segment_def\<close>)

lemma cbc_encrypt_inplace:
  assumes "bs \<noteq> []" "\<forall>b \<in> set bs. length b = bsize" "length iv = bsize" "length (concat bs) < 2 ^ 32"
  shows "crypto_cbc_encrypt_inplace fn bsize
      \<lparr>walk_src = concat bs, walk_dst = dst, walk_iv = iv, walk_nbytes = of_nat (length (concat bs))\<rparr> =
    Some (\<lparr>walk_src = concat (fst (run_blocks (cbc_enc_step f) iv bs)), walk_dst = dst,
           walk_iv = snd (run_blocks (cbc_enc_step f) iv bs), walk_nbytes = of_nat (length (concat bs))\<rparr>, 0)"
proof (rule cbc_enc_inp.run_whole[of bs "(concat bs, iv, None)"], goal_cases)
  case (7 st')
  obtain src wiv p where st': "st' = (src, wiv, p)" by (cases st')
  have l: "crypto_cbc_encrypt_inplace_loop fn bsize 0 (of_nat (length (concat bs))) (concat bs) iv None = Some (src, p, 0)"
    "wiv = iv" using 7(1) unfolding st' by auto
  have g: "iv_good bsize (length (concat bs)) iv src p" using 7(2) st' l(2) by simp
  obtain iv' where iv': "iv_deref iv src bsize p = Some iv'" "length iv' = bsize"
    using iv_good_deref[OF g] by blast
  have "src = concat (fst (run_blocks (cbc_enc_step f) iv bs))" "iv' = snd (run_blocks (cbc_enc_step f) iv bs)"
    using 7(3,4) iv'(1) unfolding st' l(2) by (simp_all add: iv_deref_None assms(3))
  moreover have "wr iv 0 iv' = Some iv'" using iv'(2) assms(3) by (simp add: wr_def)
  ultimately show ?case using l(1) iv'(1)
    by (simp add: crypto_cbc_encrypt_inplace_def)
qed (use assms in \<open>auto simp: iv_good_def iv_deref_None\<close>)

lemma cbc_decrypt_segment:
  assumes "bs \<noteq> []" "\<forall>b \<in> set bs. length b = bsize" "length iv = bsize" "length (concat bs) < 2 ^ 32"
    "length dst = length (concat bs)"
  shows "crypto_cbc_decrypt_segment fn bsize
      \<lparr>walk_src = concat bs, walk_dst = dst, walk_iv = iv, walk_nbytes = of_nat (length (concat bs))\<rparr> =
    Some (\<lparr>walk_src = concat bs, walk_dst = concat (fst (run_blocks (cbc_dec_step f) iv bs)),
           walk_iv = snd (run_blocks (cbc_dec_step f) iv bs), walk_nbytes = of_nat (length (concat bs))\<rparr>, 0)"
proof (rule cbc_dec_seg.run_whole[of bs "(concat bs, dst, iv, None)"], goal_cases)
  case (7 st')
  obtain src d wiv p where st': "st' = (src, d, wiv, p)" by (cases st')
  have l: "crypto_cbc_decrypt_segment_loop fn bsize 0 (of_nat (length (concat bs))) (concat bs) dst iv None = Some (d, p, 0)"
    "wiv = iv" "src = concat bs" using 7(1) unfolding st' by auto
  have g: "iv_good bsize (length (concat bs)) iv (concat bs) p" using 7(2) st' l(2,3) by simp
  obtain iv' where iv': "iv_deref iv (concat bs) bsize p = Some iv'" "length iv' = bsize"
    using iv_good_deref[OF g] by blast
  have "d = concat (fst (run_blocks (cbc_dec_step f) iv bs))" "iv' = snd (run_blocks (cbc_dec_step f) iv bs)"
    using 7(3,4) iv'(1) unfolding st' l(2,3) by (simp_all add: iv_deref_None assms(3))
  moreover have "wr iv 0 iv' = Some iv'" using iv'(2) assms(3) by (simp add: wr_def)
  ultimately show ?case using l(1) iv'(1)
    by (simp add: crypto_cbc_decrypt_segment_def)
qed (use assms in \<open>auto simp: iv_good_def iv_deref_None\<close>)

lemma cbc_decrypt_inplace:
  assumes "bs \<noteq> []" "\<forall>b \<in> set bs. length b = bsize" "length iv = bsize" "length (concat bs) < 2 ^ 32"
    and pow: "bsize = 2 ^ k"
  shows "crypto_cbc_decrypt_inplace fn bsize
      \<lparr>walk_src = concat bs, walk_dst = dst, walk_iv = iv, walk_nbytes = of_nat (length (concat bs))\<rparr> =
    Some (\<lparr>walk_src = concat (fst (run_blocks (cbc_dec_step f) iv bs)), walk_dst = dst,
           walk_iv = snd (run_blocks (cbc_dec_step f) iv bs), walk_nbytes = of_nat (length (concat bs))\<rparr>, 0)"
proof -
  obtain c0 cs where bs: "bs = c0 # cs" using assms(1) by (cases bs) auto
  define L where "L = length (concat bs)"
  have L: "L = length bs * bsize" using assms(2) length_concat_blocks by (simp add: L_def)
  define n :: u32 where "n = of_nat L"
  have un: "unat n = L" using assms(4) by (simp add: n_def L_def unat_of_nat_u32)
  have "n AND (of_nat bsize - 1) = take_bit k n"
    by (simp add: pow take_bit_eq_mask mask_eq_exp_minus_1)
  also have "\<dots> = 0"
  proof -
    have "unat (take_bit k n) = 0"
      by (simp only: unsigned_take_bit_eq un L pow) (simp add: take_bit_eq_mod)
    then show ?thesis by (simp add: unat_0_iff)
  qed
  finally have z: "n AND (of_nat bsize - 1) = 0" .
  have "bsize \<le> L" using L bs by simp
  then have off: "unat (n - of_nat bsize) = length (concat cs)"
    using un assms(2) bs unat_u32_less[of n]
    by (subst unat_sub) (auto simp: word_le_nat_alt unat_of_nat_u32 L_def)
  obtain ini p where p: "bs = ini @ [p]" using assms(1) by (metis append_butlast_last_id)
  have lp: "length p = bsize" using p assms(2) by simp
  have "length (concat cs) = length (concat ini)"
  proof -
    have "length cs = length ini" using arg_cong[OF p, of length] bs by simp
    moreover have "\<forall>b \<in> set cs. length b = bsize" "\<forall>b \<in> set ini. length b = bsize"
      using assms(2) bs apply simp using assms(2) p by simp
    ultimately show ?thesis by (metis length_concat_blocks)
  qed
  then have rp: "rd (concat bs) (length (concat cs)) bsize = Some p"
    using rd_at[of "length (concat cs)" "concat ini" bsize p "[]"] lp by (simp only: p) simp
  have bk: "crypto_cbc_decrypt_inplace_loop fn bsize (length (concat cs)) n (concat bs) =
      Some (concat (f c0 # fst (run_blocks (cbc_dec_step f) c0 cs)), 0, 0)"
    using cbc_decrypt_inplace_loop_back[of c0 cs n 0 "[]"] assms(2) bs un bsize_pos by (simp add: L_def)
  have l0: "length c0 = bsize" "length (f c0) = bsize" using assms(2) bs f_len by auto
  let ?X = "concat (fst (run_blocks (cbc_dec_step f) c0 cs))"
  have r0: "rd (concat (f c0 # fst (run_blocks (cbc_dec_step f) c0 cs))) 0 bsize = Some (f c0)"
    using l0 by (simp add: rd_def)
  have w0: "wr (concat (f c0 # fst (run_blocks (cbc_dec_step f) c0 cs))) 0 (xorb (f c0) iv) =
      Some (concat (xorb (f c0) iv # fst (run_blocks (cbc_dec_step f) c0 cs)))"
    using l0 assms(3) by (simp add: wr_def)
  have w1: "wr iv 0 p = Some p" using assms(3) lp by (simp add: wr_def)
  have x0: "crypto_xor (f c0) iv bsize = Some (xorb (f c0) iv)"
    using l0 assms(3) by (simp add: crypto_xor_block)
  have "snd (run_blocks (cbc_dec_step f) iv bs) = p" by (simp add: cbc_dec_iv p)
  moreover have "fst (run_blocks (cbc_dec_step f) iv bs) = xorb (f c0) iv # fst (run_blocks (cbc_dec_step f) c0 cs)"
    by (simp add: bs cbc_dec_step_def)
  moreover have "of_nat (length (concat bs)) = n" by (simp only: n_def L_def)
  ultimately show ?thesis
    by (simp only: crypto_cbc_decrypt_inplace_def Let_def blkcipher_walk.simps z diff_zero off rp bk
        r0 w0 w1 x0 Option.bind.simps prod.case)
qed

end

end
