(* ===== verification/Cipher_Modes.thy ===== *)
theory Cipher_Modes imports Tea_Ciphers Block_Modes begin

text \<open>
  The block cipher modes over the ciphers: the contract a mode expects of a cipher
  (\<open>cia_encrypt\<close> and \<open>cia_decrypt\<close> of \<open>struct cipher_alg\<close>) as a locale, the round trips of the
  modes proved from it, and the three ciphers of \<open>crypto/tea.c\<close> as its instances.
\<close>

lemma xorb_self_cancel_left: "length a = length b \<Longrightarrow> xorb (xorb b a) b = a" "length a = length b \<Longrightarrow> xorb b (xorb b a) = a"
  using xorb_self_cancel[of a b] xorb_self_cancel'[of a b] by (simp_all add: xorb_commute[of b a])

lemmas xorb_cancel = xorb_self_cancel xorb_self_cancel' xorb_self_cancel_left

section \<open>Modes that run a cipher forwards\<close>

context cipher_fn
begin

lemma as_blocks:
  assumes "length src = k * bsize" "0 < k"
  obtains bs where "src = concat bs" "bs \<noteq> []" "\<forall>b \<in> set bs. length b = bsize"
proof -
  obtain bs rest where "src = concat bs @ rest" "length bs = k" "\<forall>b \<in> set bs. length b = bsize" "length rest = 0"
    using split_blocks[of src k bsize 0] assms(1) by auto
  then show ?thesis using that[of bs] assms(2) by auto
qed

lemma run_blocks_enc_len:
  assumes "length iv = bsize" "\<forall>b \<in> set bs. length b = bsize"
    and "step = cbc_enc_step f \<or> step = pcbc_enc_step f \<or>
      step = ctr_step f"
  shows "\<forall>b \<in> set (fst (run_blocks step iv bs)). length b = bsize"
    "length (concat (fst (run_blocks step iv bs))) = length (concat bs)"
    "length (snd (run_blocks step iv bs)) = bsize"
proof -
  have l: "length (fst (step iv s)) = bsize \<and> length (snd (step iv s)) = bsize"
    if "length iv = bsize" "length s = bsize" for iv s
    using assms(3) that crypto_inc_block[OF that(1)] by (auto simp: step_defs f_len)
  show *: "\<forall>b \<in> set (fst (run_blocks step iv bs)). length b = bsize"
    "length (snd (run_blocks step iv bs)) = bsize"
    using run_blocks_block_len[of bsize step iv bs] l assms(1,2) by blast+
  show "length (concat (fst (run_blocks step iv bs))) = length (concat bs)"
    using length_concat_blocks[OF *(1)] length_concat_blocks[OF assms(2)] by (simp add: length_run_blocks)
qed

lemma ctr_blocks_involution:
  assumes "length iv = bsize" "\<forall>b \<in> set bs. length b = bsize"
  shows "run_blocks (ctr_step f) iv (fst (run_blocks (ctr_step f) iv bs)) =
    (bs, snd (run_blocks (ctr_step f) iv bs))"
  using assms
proof (intro run_blocks_inverse[where n = bsize])
  fix iv s :: bytes
  assume l: "length iv = bsize" "length s = bsize"
  then show "ctr_step f iv (fst (ctr_step f iv s)) =
      (s, snd (ctr_step f iv s))"
    by (simp add: ctr_step_def f_len xorb_cancel)
  show "length (snd (ctr_step f iv s)) = bsize"
    using crypto_inc_block[OF l(1)] l by (auto simp: ctr_step_def)
qed

lemma ctr_segments:
  assumes "length src = k * bsize" "0 < k" "length src < 2 ^ 32" "length iv = bsize"
    "length dst = length src" "length out = length src"
  shows "\<exists>ct iv'. length ct = length src \<and>
    crypto_ctr_crypt_segment_loop fn bsize 0 (of_nat (length src)) src dst iv = Some (ct, iv', 0) \<and>
    crypto_ctr_crypt_segment_loop fn bsize 0 (of_nat (length src)) ct out iv = Some (src, iv', 0) \<and>
    crypto_ctr_crypt_inplace_loop fn bsize 0 (of_nat (length src)) src iv = Some (ct, iv', 0)"
proof -
  obtain bs where bs: "src = concat bs" "bs \<noteq> []" "\<forall>b \<in> set bs. length b = bsize"
    using as_blocks assms(1,2) by blast
  let ?step = "ctr_step f"
  define cs where "cs = fst (run_blocks ?step iv bs)"
  have cs: "\<forall>b \<in> set cs. length b = bsize" "length (concat cs) = length (concat bs)" "cs \<noteq> []"
    using run_blocks_enc_len[OF assms(4) bs(3), of ?step] length_run_blocks[of ?step iv bs] bs(2)
    by (auto simp: cs_def)
  have inv: "run_blocks ?step iv cs = (bs, snd (run_blocks ?step iv bs))"
    unfolding cs_def by (rule ctr_blocks_involution[OF assms(4) bs(3)])
  have "crypto_ctr_crypt_segment_loop fn bsize 0 (of_nat (length src)) src dst iv =
      Some (concat cs, snd (run_blocks ?step iv bs), 0)"
    by (rule ctr_seg.run_whole[of bs "(src, dst, iv)"]) (use assms bs in \<open>auto simp: cs_def\<close>)
  moreover have "crypto_ctr_crypt_inplace_loop fn bsize 0 (of_nat (length src)) src iv =
      Some (concat cs, snd (run_blocks ?step iv bs), 0)"
    by (rule ctr_inp.run_whole[of bs "(src, iv)"]) (use assms bs in \<open>auto simp: cs_def\<close>)
  moreover have "crypto_ctr_crypt_segment_loop fn bsize 0 (of_nat (length src)) (concat cs) out iv =
      Some (concat bs, snd (run_blocks ?step iv bs), 0)"
    by (rule ctr_seg.run_whole[of cs "(concat cs, out, iv)"]) (use assms bs cs inv in \<open>auto\<close>)
  ultimately show ?thesis using cs(2) bs(1) by blast
qed

end

section \<open>The contract of a block cipher\<close>

locale block_cipher =
  fixes enc dec :: "bytes \<Rightarrow> bytes option" and bsize :: nat
  assumes bsize_gt_0: "0 < bsize"
    and dec_enc: "length b = bsize \<Longrightarrow> \<exists>c. enc b = Some c \<and> length c = bsize \<and> dec c = Some b"
    and dec_total: "length c = bsize \<Longrightarrow> \<exists>b. dec c = Some b \<and> length b = bsize"
begin

lemma enc_total: "length b = bsize \<Longrightarrow> \<exists>c. enc b = Some c \<and> length c = bsize"
  using dec_enc[of b] by blast

lemma enc_Some: "length b = bsize \<Longrightarrow> enc b = Some (the (enc b))"
  using dec_enc[of b] by auto

lemma length_enc: "length b = bsize \<Longrightarrow> length (the (enc b)) = bsize"
  using dec_enc[of b] by auto

lemma dec_Some: "length b = bsize \<Longrightarrow> dec b = Some (the (dec b))"
  using dec_total[of b] by auto

lemma length_dec: "length b = bsize \<Longrightarrow> length (the (dec b)) = bsize"
  using dec_total[of b] by auto

lemma dec_of_enc: "length b = bsize \<Longrightarrow> the (dec (the (enc b))) = b"
  using dec_enc[of b] by auto

end

sublocale block_cipher \<subseteq> encr: cipher_fn enc "\<lambda>b. the (enc b)" bsize
  by unfold_locales (rule bsize_gt_0 enc_Some length_enc; assumption?)+

sublocale block_cipher \<subseteq> decr: cipher_fn dec "\<lambda>b. the (dec b)" bsize
  by unfold_locales (rule bsize_gt_0 dec_Some length_dec; assumption?)+

context block_cipher
begin

lemma cbc_blocks_inverse:
  assumes "length iv = bsize" "\<forall>b \<in> set bs. length b = bsize"
  shows "run_blocks (cbc_dec_step (\<lambda>b. the (dec b))) iv (fst (run_blocks (cbc_enc_step (\<lambda>b. the (enc b))) iv bs)) =
    (bs, snd (run_blocks (cbc_enc_step (\<lambda>b. the (enc b))) iv bs))"
  using assms
  by (intro run_blocks_inverse[where n = bsize])
    (simp_all add: cbc_enc_step_def cbc_dec_step_def length_enc dec_of_enc xorb_cancel)

lemma pcbc_blocks_inverse:
  assumes "length iv = bsize" "\<forall>b \<in> set bs. length b = bsize"
  shows "run_blocks (pcbc_dec_step (\<lambda>b. the (dec b))) iv (fst (run_blocks (pcbc_enc_step (\<lambda>b. the (enc b))) iv bs)) =
    (bs, snd (run_blocks (pcbc_enc_step (\<lambda>b. the (enc b))) iv bs))"
  using assms
  by (intro run_blocks_inverse[where n = bsize])
    (simp_all add: pcbc_enc_step_def pcbc_dec_step_def length_enc dec_of_enc xorb_cancel xorb_commute[of "the (enc _)"])

lemma cbc_segments:
  assumes "length src = k * bsize" "0 < k" "length src < 2 ^ 32" "length iv = bsize"
    "length dst = length src" "length out = length src"
  shows "\<exists>ct iv'. length ct = length src \<and>
    crypto_cbc_encrypt_segment enc bsize
      \<lparr>walk_src = src, walk_dst = dst, walk_iv = iv, walk_nbytes = of_nat (length src)\<rparr> =
    Some (\<lparr>walk_src = src, walk_dst = ct, walk_iv = iv', walk_nbytes = of_nat (length src)\<rparr>, 0) \<and>
    crypto_cbc_decrypt_segment dec bsize
      \<lparr>walk_src = ct, walk_dst = out, walk_iv = iv, walk_nbytes = of_nat (length src)\<rparr> =
    Some (\<lparr>walk_src = ct, walk_dst = src, walk_iv = iv', walk_nbytes = of_nat (length src)\<rparr>, 0)"
proof -
  obtain bs where bs: "src = concat bs" "bs \<noteq> []" "\<forall>b \<in> set bs. length b = bsize"
    using encr.as_blocks assms(1,2) by blast
  define cs where "cs = fst (run_blocks (cbc_enc_step (\<lambda>b. the (enc b))) iv bs)"
  define iv' where "iv' = snd (run_blocks (cbc_enc_step (\<lambda>b. the (enc b))) iv bs)"
  have cs: "\<forall>b \<in> set cs. length b = bsize" "length (concat cs) = length (concat bs)" "cs \<noteq> []"
    using encr.run_blocks_enc_len[OF assms(4) bs(3), of "cbc_enc_step (\<lambda>b. the (enc b))"]
      length_run_blocks[of "cbc_enc_step (\<lambda>b. the (enc b))" iv bs] bs(2) by (auto simp: cs_def)
  have inv: "run_blocks (cbc_dec_step (\<lambda>b. the (dec b))) iv cs = (bs, iv')"
    unfolding cs_def iv'_def using cbc_blocks_inverse[OF assms(4) bs(3)] .
  show ?thesis
    using encr.cbc_encrypt_segment[OF bs(2,3) assms(4), of dst] decr.cbc_decrypt_segment[OF cs(3,1) assms(4), of out]
      assms(3,5,6) cs(2) inv
    by (intro exI[of _ "concat cs"] exI[of _ iv']) (simp add: bs(1) flip: cs_def iv'_def)
qed

lemma cbc_inplace_segment:
  assumes "length src = k * bsize" "0 < k" "length src < 2 ^ 32" "length iv = bsize"
    "length dst = length src"
  shows "\<exists>out iv'.
    crypto_cbc_encrypt_inplace enc bsize
      \<lparr>walk_src = src, walk_dst = d, walk_iv = iv, walk_nbytes = of_nat (length src)\<rparr> =
    Some (\<lparr>walk_src = out, walk_dst = d, walk_iv = iv', walk_nbytes = of_nat (length src)\<rparr>, 0) \<and>
    crypto_cbc_encrypt_segment enc bsize
      \<lparr>walk_src = src, walk_dst = dst, walk_iv = iv, walk_nbytes = of_nat (length src)\<rparr> =
    Some (\<lparr>walk_src = src, walk_dst = out, walk_iv = iv', walk_nbytes = of_nat (length src)\<rparr>, 0)"
    and "bsize = 2 ^ m \<Longrightarrow> \<exists>out iv'.
    crypto_cbc_decrypt_inplace dec bsize
      \<lparr>walk_src = src, walk_dst = d, walk_iv = iv, walk_nbytes = of_nat (length src)\<rparr> =
    Some (\<lparr>walk_src = out, walk_dst = d, walk_iv = iv', walk_nbytes = of_nat (length src)\<rparr>, 0) \<and>
    crypto_cbc_decrypt_segment dec bsize
      \<lparr>walk_src = src, walk_dst = dst, walk_iv = iv, walk_nbytes = of_nat (length src)\<rparr> =
    Some (\<lparr>walk_src = src, walk_dst = out, walk_iv = iv', walk_nbytes = of_nat (length src)\<rparr>, 0)"
proof -
  obtain bs where bs: "src = concat bs" "bs \<noteq> []" "\<forall>b \<in> set bs. length b = bsize"
    using encr.as_blocks assms(1,2) by blast
  show "\<exists>out iv'.
    crypto_cbc_encrypt_inplace enc bsize
      \<lparr>walk_src = src, walk_dst = d, walk_iv = iv, walk_nbytes = of_nat (length src)\<rparr> =
    Some (\<lparr>walk_src = out, walk_dst = d, walk_iv = iv', walk_nbytes = of_nat (length src)\<rparr>, 0) \<and>
    crypto_cbc_encrypt_segment enc bsize
      \<lparr>walk_src = src, walk_dst = dst, walk_iv = iv, walk_nbytes = of_nat (length src)\<rparr> =
    Some (\<lparr>walk_src = src, walk_dst = out, walk_iv = iv', walk_nbytes = of_nat (length src)\<rparr>, 0)"
    using encr.cbc_encrypt_segment[OF bs(2,3) assms(4), of dst] encr.cbc_encrypt_inplace[OF bs(2,3) assms(4), of d]
      assms(3,5) bs(1) by blast
  show "bsize = 2 ^ m \<Longrightarrow> \<exists>out iv'.
    crypto_cbc_decrypt_inplace dec bsize
      \<lparr>walk_src = src, walk_dst = d, walk_iv = iv, walk_nbytes = of_nat (length src)\<rparr> =
    Some (\<lparr>walk_src = out, walk_dst = d, walk_iv = iv', walk_nbytes = of_nat (length src)\<rparr>, 0) \<and>
    crypto_cbc_decrypt_segment dec bsize
      \<lparr>walk_src = src, walk_dst = dst, walk_iv = iv, walk_nbytes = of_nat (length src)\<rparr> =
    Some (\<lparr>walk_src = src, walk_dst = out, walk_iv = iv', walk_nbytes = of_nat (length src)\<rparr>, 0)"
    using decr.cbc_decrypt_segment[OF bs(2,3) assms(4), of dst] decr.cbc_decrypt_inplace[OF bs(2,3) assms(4), of m d]
      assms(3,5) bs(1) by blast
qed

lemma pcbc_segments:
  assumes "length src = k * bsize" "0 < k" "length src < 2 ^ 32" "length iv = bsize"
    "length dst = length src" "length out = length src"
  shows "\<exists>ct iv'. length ct = length src \<and>
    crypto_pcbc_encrypt_segment_loop enc bsize 0 (of_nat (length src)) src dst iv = Some (ct, iv', 0) \<and>
    crypto_pcbc_decrypt_segment_loop dec bsize 0 (of_nat (length src)) ct out iv = Some (src, iv', 0)"
proof -
  obtain bs where bs: "src = concat bs" "bs \<noteq> []" "\<forall>b \<in> set bs. length b = bsize"
    using encr.as_blocks assms(1,2) by blast
  let ?step = "pcbc_enc_step (\<lambda>b. the (enc b))"
  define cs where "cs = fst (run_blocks ?step iv bs)"
  have cs: "\<forall>b \<in> set cs. length b = bsize" "length (concat cs) = length (concat bs)" "cs \<noteq> []"
    using encr.run_blocks_enc_len[OF assms(4) bs(3), of ?step] length_run_blocks[of ?step iv bs] bs(2)
    by (auto simp: cs_def)
  have inv: "run_blocks (pcbc_dec_step (\<lambda>b. the (dec b))) iv cs = (bs, snd (run_blocks ?step iv bs))"
    unfolding cs_def by (rule pcbc_blocks_inverse[OF assms(4) bs(3)])
  have "crypto_pcbc_encrypt_segment_loop enc bsize 0 (of_nat (length src)) src dst iv =
      Some (concat cs, snd (run_blocks ?step iv bs), 0)"
    by (rule encr.pcbc_enc_seg.run_whole[of bs "(src, dst, iv)"])
      (use assms bs in \<open>auto simp: cs_def\<close>)
  moreover have "crypto_pcbc_decrypt_segment_loop dec bsize 0 (of_nat (length src)) (concat cs) out iv =
      Some (concat bs, snd (run_blocks ?step iv bs), 0)"
    by (rule decr.pcbc_dec_seg.run_whole[of cs "(concat cs, out, iv)"])
      (use assms bs cs inv in \<open>auto\<close>)
  ultimately show ?thesis using cs(2) bs(1) by blast
qed

end

section \<open>The ciphers of tea.c keep the contract\<close>

lemma xtea_decrypt_total: "\<exists>dst. xtea_decrypt ctx src = Some dst \<and> length dst = 8"
  using xtea_loops.dloop_iter[of 32 "XTEA_DELTA * XTEA_ROUNDS"]
  by (simp add: xtea_decrypt_def Let_def XTEA_ROUNDS_def mult.commute split: prod.split)

lemma xeta_decrypt_total: "\<exists>dst. xeta_decrypt ctx src = Some dst \<and> length dst = 8"
  using xeta_loops.dloop_iter[of 32 "XTEA_DELTA * XTEA_ROUNDS"]
  by (simp add: xeta_decrypt_def Let_def XTEA_ROUNDS_def mult.commute split: prod.split)

interpretation tea_bc: block_cipher "\<lambda>b. Some (tea_encrypt ctx b)" "\<lambda>b. Some (tea_decrypt ctx b)" 8 for ctx
  by unfold_locales (simp_all add: length_tea_encrypt length_tea_decrypt tea_decrypt_tea_encrypt)

interpretation xtea_bc: block_cipher "xtea_encrypt ctx" "xtea_decrypt ctx" 8 for ctx
  by unfold_locales (auto intro: xtea_decrypt_total xtea_decrypt_xtea_encrypt)

interpretation xeta_bc: block_cipher "xeta_encrypt ctx" "xeta_decrypt ctx" 8 for ctx
  by unfold_locales (auto intro: xeta_decrypt_total xeta_decrypt_xeta_encrypt)

section \<open>Properties\<close>

text \<open>
  C29: Every block cipher of \<open>crypto/tea.c\<close> returns on every eight-byte block (the sum-driven loops of
  XTEA and XETA terminate), yields eight bytes, and its decryption undoes its encryption, for every key.
\<close>

theorem tea_family_roundtrip:
  assumes "length src = 8"
  shows "tea_decrypt (tea_setkey key) (tea_encrypt (tea_setkey key) src) = src \<and>
    (\<exists>dst. xtea_encrypt (xtea_setkey key) src = Some dst \<and> length dst = 8 \<and>
          xtea_decrypt (xtea_setkey key) dst = Some src) \<and>
    (\<exists>dst. xeta_encrypt (xtea_setkey key) src = Some dst \<and> length dst = 8 \<and>
          xeta_decrypt (xtea_setkey key) dst = Some src)"
  using assms by (auto intro: tea_decrypt_tea_encrypt xtea_decrypt_xtea_encrypt xeta_decrypt_xeta_encrypt)

theorem tea_family_roundtrip_witness:
  "tea_decrypt (tea_setkey (replicate 16 7)) (tea_encrypt (tea_setkey (replicate 16 7)) [1, 2, 3, 4, 5, 6, 7, 8]) =
     [1, 2, 3, 4, 5, 6, 7, 8]"
  using tea_family_roundtrip[of "[1, 2, 3, 4, 5, 6, 7, 8]" "replicate 16 7"] by simp

text \<open>
  C11: CBC over separate buffers: for any cipher whose decryption undoes its encryption on blocks,
  \<open>crypto_cbc_encrypt_segment\<close> returns on every whole number of blocks with no byte left over,
  \<open>crypto_cbc_decrypt_segment\<close> with the same initial vector restores the plaintext, never reads or writes
  outside the buffers, and both leave the same chaining value in \<open>walk->iv\<close>.
\<close>

theorem cbc_segment_roundtrip:
  assumes "0 < bsize"
    and "\<And>b. length b = bsize \<Longrightarrow> \<exists>c. enc b = Some c \<and> length c = bsize \<and> dec c = Some b"
    and "\<And>c. length c = bsize \<Longrightarrow> \<exists>b. dec c = Some b \<and> length b = bsize"
    and "length src = k * bsize" "0 < k" "length src < 2 ^ 32" "length iv = bsize"
    and "length dst = length src" "length out = length src"
  shows "\<exists>ct iv'. length ct = length src \<and>
    crypto_cbc_encrypt_segment enc bsize
      \<lparr>walk_src = src, walk_dst = dst, walk_iv = iv, walk_nbytes = of_nat (length src)\<rparr> =
    Some (\<lparr>walk_src = src, walk_dst = ct, walk_iv = iv', walk_nbytes = of_nat (length src)\<rparr>, 0) \<and>
    crypto_cbc_decrypt_segment dec bsize
      \<lparr>walk_src = ct, walk_dst = out, walk_iv = iv, walk_nbytes = of_nat (length src)\<rparr> =
    Some (\<lparr>walk_src = ct, walk_dst = src, walk_iv = iv', walk_nbytes = of_nat (length src)\<rparr>, 0)"
  by (rule block_cipher.cbc_segments[OF block_cipher.intro]) (use assms in blast)+

theorem cbc_segment_roundtrip_witness:
  "\<exists>ct iv'. length ct = 16 \<and>
    crypto_cbc_encrypt_segment (xtea_encrypt (xtea_setkey (replicate 16 5))) 8
      \<lparr>walk_src = replicate 16 1, walk_dst = replicate 16 0, walk_iv = replicate 8 9, walk_nbytes = 16\<rparr> =
    Some (\<lparr>walk_src = replicate 16 1, walk_dst = ct, walk_iv = iv', walk_nbytes = 16\<rparr>, 0) \<and>
    crypto_cbc_decrypt_segment (xtea_decrypt (xtea_setkey (replicate 16 5))) 8
      \<lparr>walk_src = ct, walk_dst = replicate 16 0, walk_iv = replicate 8 9, walk_nbytes = 16\<rparr> =
    Some (\<lparr>walk_src = ct, walk_dst = replicate 16 1, walk_iv = iv', walk_nbytes = 16\<rparr>, 0)"
  using cbc_segment_roundtrip[of 8 "xtea_encrypt (xtea_setkey (replicate 16 5))"
      "xtea_decrypt (xtea_setkey (replicate 16 5))" "replicate 16 1" 2 "replicate 8 9" "replicate 16 0" "replicate 16 0"]
    xtea_bc.dec_enc xtea_bc.dec_total by simp

text \<open>
  C23: Working in place computes what working over two buffers computes: for a power-of-two block size,
  \<open>crypto_cbc_encrypt_inplace\<close> and the backwards running \<open>crypto_cbc_decrypt_inplace\<close> leave in the
  one buffer, and in \<open>walk->iv\<close>, what the segment versions leave in the destination.
\<close>

theorem cbc_inplace_eq_segment:
  assumes "bsize = 2 ^ m"
    and "\<And>b. length b = bsize \<Longrightarrow> \<exists>c. enc b = Some c \<and> length c = bsize \<and> dec c = Some b"
    and "\<And>c. length c = bsize \<Longrightarrow> \<exists>b. dec c = Some b \<and> length b = bsize"
    and "length src = k * bsize" "0 < k" "length src < 2 ^ 32" "length iv = bsize"
    and "length dst = length src"
  shows "(\<exists>out iv'.
      crypto_cbc_encrypt_inplace enc bsize
        \<lparr>walk_src = src, walk_dst = d, walk_iv = iv, walk_nbytes = of_nat (length src)\<rparr> =
      Some (\<lparr>walk_src = out, walk_dst = d, walk_iv = iv', walk_nbytes = of_nat (length src)\<rparr>, 0) \<and>
      crypto_cbc_encrypt_segment enc bsize
        \<lparr>walk_src = src, walk_dst = dst, walk_iv = iv, walk_nbytes = of_nat (length src)\<rparr> =
      Some (\<lparr>walk_src = src, walk_dst = out, walk_iv = iv', walk_nbytes = of_nat (length src)\<rparr>, 0)) \<and>
    (\<exists>out iv'.
      crypto_cbc_decrypt_inplace dec bsize
        \<lparr>walk_src = src, walk_dst = d, walk_iv = iv, walk_nbytes = of_nat (length src)\<rparr> =
      Some (\<lparr>walk_src = out, walk_dst = d, walk_iv = iv', walk_nbytes = of_nat (length src)\<rparr>, 0) \<and>
      crypto_cbc_decrypt_segment dec bsize
        \<lparr>walk_src = src, walk_dst = dst, walk_iv = iv, walk_nbytes = of_nat (length src)\<rparr> =
      Some (\<lparr>walk_src = src, walk_dst = out, walk_iv = iv', walk_nbytes = of_nat (length src)\<rparr>, 0))"
proof -
  have bc: "block_cipher enc dec bsize"
    by (rule block_cipher.intro) (use assms in \<open>auto\<close>)
  show ?thesis
    using block_cipher.cbc_inplace_segment[OF bc assms(4-8)] assms(1) by blast
qed

theorem cbc_inplace_eq_segment_witness:
  "\<exists>out iv'.
    crypto_cbc_decrypt_inplace (xtea_decrypt (xtea_setkey (replicate 16 5))) 8
      \<lparr>walk_src = replicate 24 1, walk_dst = [], walk_iv = replicate 8 9, walk_nbytes = 24\<rparr> =
    Some (\<lparr>walk_src = out, walk_dst = [], walk_iv = iv', walk_nbytes = 24\<rparr>, 0) \<and>
    crypto_cbc_decrypt_segment (xtea_decrypt (xtea_setkey (replicate 16 5))) 8
      \<lparr>walk_src = replicate 24 1, walk_dst = replicate 24 0, walk_iv = replicate 8 9, walk_nbytes = 24\<rparr> =
    Some (\<lparr>walk_src = replicate 24 1, walk_dst = out, walk_iv = iv', walk_nbytes = 24\<rparr>, 0)"
  using cbc_inplace_eq_segment[of 8 3 "xtea_encrypt (xtea_setkey (replicate 16 5))"
      "xtea_decrypt (xtea_setkey (replicate 16 5))" "replicate 24 1" 3 "replicate 8 9" "replicate 24 0" "[]"]
    xtea_bc.dec_enc xtea_bc.dec_total by simp

text \<open>
  C35: PCBC over separate buffers: decryption with the same initial vector restores the plaintext for any
  invertible cipher, both directions consume every block and end with the same chaining value.
\<close>

theorem pcbc_segment_roundtrip:
  assumes "0 < bsize"
    and "\<And>b. length b = bsize \<Longrightarrow> \<exists>c. enc b = Some c \<and> length c = bsize \<and> dec c = Some b"
    and "\<And>c. length c = bsize \<Longrightarrow> \<exists>b. dec c = Some b \<and> length b = bsize"
    and "length src = k * bsize" "0 < k" "length src < 2 ^ 32" "length iv = bsize"
    and "length dst = length src" "length out = length src"
  shows "\<exists>ct iv'. length ct = length src \<and>
    crypto_pcbc_encrypt_segment_loop enc bsize 0 (of_nat (length src)) src dst iv = Some (ct, iv', 0) \<and>
    crypto_pcbc_decrypt_segment_loop dec bsize 0 (of_nat (length src)) ct out iv = Some (src, iv', 0)"
  by (rule block_cipher.pcbc_segments[OF block_cipher.intro]) (use assms in blast)+

theorem pcbc_segment_roundtrip_witness:
  "\<exists>ct iv'. length ct = 16 \<and>
    crypto_pcbc_encrypt_segment_loop (xeta_encrypt (xtea_setkey (replicate 16 5))) 8 0 16
      (replicate 16 1) (replicate 16 0) (replicate 8 9) = Some (ct, iv', 0) \<and>
    crypto_pcbc_decrypt_segment_loop (xeta_decrypt (xtea_setkey (replicate 16 5))) 8 0 16
      ct (replicate 16 0) (replicate 8 9) = Some (replicate 16 1, iv', 0)"
  using pcbc_segment_roundtrip[of 8 "xeta_encrypt (xtea_setkey (replicate 16 5))"
      "xeta_decrypt (xtea_setkey (replicate 16 5))" "replicate 16 1" 2 "replicate 8 9" "replicate 16 0" "replicate 16 0"]
    xeta_bc.dec_enc xeta_bc.dec_total by simp

text \<open>
  C32: Counter mode is its own inverse on whole blocks, and in place it computes what it computes over two
  buffers; the cipher is only ever run forwards.
\<close>

theorem ctr_involution:
  assumes "0 < bsize"
    and "\<And>b. length b = bsize \<Longrightarrow> \<exists>c. enc b = Some c \<and> length c = bsize"
    and "length src = k * bsize" "0 < k" "length src < 2 ^ 32" "length iv = bsize"
    and "length dst = length src" "length out = length src"
  shows "\<exists>ct iv'. length ct = length src \<and>
    crypto_ctr_crypt_segment_loop enc bsize 0 (of_nat (length src)) src dst iv = Some (ct, iv', 0) \<and>
    crypto_ctr_crypt_segment_loop enc bsize 0 (of_nat (length src)) ct out iv = Some (src, iv', 0) \<and>
    crypto_ctr_crypt_inplace_loop enc bsize 0 (of_nat (length src)) src iv = Some (ct, iv', 0)"
proof -
  have "cipher_fn enc (\<lambda>b. the (enc b)) bsize" by unfold_locales (use assms(1,2) in fastforce)+
  then show ?thesis by (rule cipher_fn.ctr_segments) (use assms in blast)+
qed

theorem ctr_involution_witness:
  "\<exists>ct iv'. length ct = 16 \<and>
    crypto_ctr_crypt_segment_loop (xtea_encrypt (xtea_setkey (replicate 16 5))) 8 0 16
      (replicate 16 1) (replicate 16 0) (replicate 8 9) = Some (ct, iv', 0) \<and>
    crypto_ctr_crypt_segment_loop (xtea_encrypt (xtea_setkey (replicate 16 5))) 8 0 16
      ct (replicate 16 0) (replicate 8 9) = Some (replicate 16 1, iv', 0) \<and>
    crypto_ctr_crypt_inplace_loop (xtea_encrypt (xtea_setkey (replicate 16 5))) 8 0 16
      (replicate 16 1) (replicate 8 9) = Some (ct, iv', 0)"
  using ctr_involution[of 8 "xtea_encrypt (xtea_setkey (replicate 16 5))" "replicate 16 1" 2 "replicate 8 9" "replicate 16 0" "replicate 16 0"]
    xtea_bc.enc_total by simp

text \<open>
  C34: \<open>crypto_inc\<close> is addition of one to the big-endian number held in the first \<open>size\<close> bytes,
  modulo \<open>256 ^ size\<close>; bytes beyond them are not touched.
\<close>

theorem crypto_inc_correct:
  assumes "sz \<le> length a"
  shows "\<exists>a'. crypto_inc a sz = Some a' \<and> length a' = length a \<and>
    be_val (take sz a') = (be_val (take sz a) + 1) mod 256 ^ sz \<and> drop sz a' = drop sz a"
  using assms by (rule crypto_inc_val)

theorem crypto_inc_correct_witness:
  "\<exists>a'. crypto_inc [0, 1, 255, 255, 255, 255] 6 = Some a' \<and> length a' = Suc (Suc (Suc (Suc (Suc (Suc 0))))) \<and>
    be_val (take 6 a') = (be_val [0, 1, 255, 255, 255, 255] + 1) mod 256 ^ 6 \<and> drop 6 a' = []"
  using crypto_inc_correct[of 6 "[0, 1, 255, 255, 255, 255]"] by simp

text \<open>
  C33: \<open>crypto_xor\<close>, which works on words first and on bytes for the tail, is the bytewise exclusive or of
  the first \<open>size\<close> bytes for every \<open>size\<close>; it faults exactly when \<open>size\<close> exceeds one of the buffers.
\<close>

theorem crypto_xor_bytewise:
  "crypto_xor a b n =
     (if n \<le> length a \<and> n \<le> length b then Some (map2 (XOR) (take n a) (take n b) @ drop n a) else None)"
  by (simp add: crypto_xor_eq xorb_def)

end
