(* ===== verification/Socket_Buffers.thy ===== *)
theory Socket_Buffers
  imports Kernel_Prelude "HOL-Library.Monad_Syntax"
begin

text \<open>
  Socket buffers (\<open>include/linux/skbuff.h\<close>, \<open>net/core/skbuff.c\<close>): the linear area with its
  four pointers, the page fragments and the fragment list, the operations that move the pointers, the
  copying read \<open>skb_copy_bits\<close> and the trimming of paged buffers.

  A buffer denotes one byte string, \<open>skb_bytes\<close>, and the operations are specified on it.  Pointers into
  the linear area are offsets from \<open>skb->head\<close> (the i.MX build is 32 bit, where \<open>skb->tail\<close> and the header
  fields are plain pointers); reading outside an allocation is the value \<open>None\<close>.  Lengths the C code
  keeps in an \<open>int\<close> are integers: \<open>wf_skb\<close> bounds them below \<open>2 ^ 31\<close>, so no conversion wraps.
  Diagnostics (\<open>WARN_ON\<close>) have no effect on the state and are left out; \<open>BUG_ON\<close> and the panics are the
  value \<open>None\<close>.
\<close>

section \<open>Data\<close>

record skb_frag_t =
  frag_page :: bytes
  frag_page_offset :: nat
  frag_size :: nat

record net_device =
  dev_ifindex :: u32
  dev_type :: u16

record skb_hdr =
  skb_head :: bytes
  skb_data :: nat
  skb_tail :: nat
  skb_network_header :: int
  skb_mac_header :: int
  skb_len :: u32
  skb_data_len :: u32
  skb_protocol :: u16
  skb_pkt_type :: u8
  skb_dev :: "net_device option"
  skb_mark :: u32
  skb_queue_mapping :: u16
  skb_cloned :: bool
  skb_shared :: bool

datatype sk_buff = Sk_buff (skb_hd: skb_hdr) (skb_frags: "skb_frag_t list") (skb_frag_list: "sk_buff list")

definition skb_is_nonlinear :: "skb_hdr \<Rightarrow> bool" where
  "skb_is_nonlinear h = (skb_data_len h \<noteq> 0)"

definition skb_headlen :: "skb_hdr \<Rightarrow> u32" where
  "skb_headlen h = skb_len h - skb_data_len h"

section \<open>Moving the pointers of the linear area\<close>

definition skb_headroom :: "skb_hdr \<Rightarrow> nat" where
  "skb_headroom h = skb_data h"

definition skb_tailroom :: "skb_hdr \<Rightarrow> nat" where
  "skb_tailroom h = (if skb_is_nonlinear h then 0 else length (skb_head h) - skb_tail h)"

definition skb_reserve :: "skb_hdr \<Rightarrow> nat \<Rightarrow> skb_hdr" where
  "skb_reserve h n = h\<lparr>skb_data := skb_data h + n, skb_tail := skb_tail h + n\<rparr>"

definition skb_set_tail_pointer :: "skb_hdr \<Rightarrow> nat \<Rightarrow> skb_hdr" where
  "skb_set_tail_pointer h offset = h\<lparr>skb_tail := skb_data h + offset\<rparr>"

definition skb_put :: "skb_hdr \<Rightarrow> u32 \<Rightarrow> (nat \<times> skb_hdr) option" where
  "skb_put h n =
     (let tmp = skb_tail h in
      if skb_is_nonlinear h then None
      else let h = h\<lparr>skb_tail := skb_tail h + unat n, skb_len := skb_len h + n\<rparr> in
           if skb_tail h > length (skb_head h) then None else Some (tmp, h))"

definition skb_push :: "skb_hdr \<Rightarrow> u32 \<Rightarrow> (nat \<times> skb_hdr) option" where
  "skb_push h n =
     (if skb_data h < unat n then None
      else let h = h\<lparr>skb_data := skb_data h - unat n, skb_len := skb_len h + n\<rparr> in
           Some (skb_data h, h))"

text \<open>\<open>__skb_pull\<close>: \<open>BUG_ON\<close> is \<open>None\<close>.  \<open>skb_pull\<close> returns the null pointer as the inner \<open>None\<close>.\<close>

definition skb_pull_u :: "skb_hdr \<Rightarrow> u32 \<Rightarrow> (nat \<times> skb_hdr) option" where
  "skb_pull_u h n =
     (let h = h\<lparr>skb_len := skb_len h - n\<rparr> in
      if skb_len h < skb_data_len h then None
      else let h = h\<lparr>skb_data := skb_data h + unat n\<rparr> in Some (skb_data h, h))"

definition skb_pull :: "skb_hdr \<Rightarrow> u32 \<Rightarrow> (nat option \<times> skb_hdr) option" where
  "skb_pull h n =
     (if n > skb_len h then Some (None, h) else map_option (\<lambda>(p, h). (Some p, h)) (skb_pull_u h n))"

definition skb_trim_u :: "skb_hdr \<Rightarrow> u32 \<Rightarrow> skb_hdr" where
  "skb_trim_u h n =
     (if skb_data_len h \<noteq> 0 then h else skb_set_tail_pointer (h\<lparr>skb_len := n\<rparr>) (unat n))"

definition skb_trim :: "skb_hdr \<Rightarrow> u32 \<Rightarrow> skb_hdr" where
  "skb_trim h n = (if skb_len h > n then skb_trim_u h n else h)"

section \<open>Reading across the fragments\<close>

definition rdi :: "bytes \<Rightarrow> int \<Rightarrow> int \<Rightarrow> bytes option" where
  "rdi buf off n = (if off < 0 \<or> n < 0 then None else rd buf (nat off) (nat n))"

text \<open>How far \<open>skb_copy_bits\<close> is: all copied, or the bytes so far with \<open>offset\<close>, \<open>len\<close> and \<open>start\<close>.\<close>

datatype copy_progress = Copied bytes | Copying bytes int int int

fun copy_frags :: "skb_frag_t list \<Rightarrow> bytes \<Rightarrow> int \<Rightarrow> int \<Rightarrow> int \<Rightarrow> copy_progress option" where
  "copy_frags [] to offset n start = Some (Copying to offset n start)"
| "copy_frags (f # fs) to offset n start =
     (let fin = start + int (frag_size f); copy = fin - offset in
      if copy > 0 then
        let copy = (if copy > n then n else copy) in do {
          b \<leftarrow> rdi (frag_page f) (int (frag_page_offset f) + offset - start) copy;
          (if n - copy = 0 then Some (Copied (to @ b))
           else copy_frags fs (to @ b) (offset + copy) (n - copy) fin) }
      else copy_frags fs to offset n fin)"

definition copy_header :: "skb_hdr \<Rightarrow> int \<Rightarrow> int \<Rightarrow> copy_progress option" where
  "copy_header h offset n =
     (let start = sint (skb_headlen h); copy = start - offset in
      if copy > 0 then
        let copy = (if copy > n then n else copy) in do {
          b \<leftarrow> rdi (skb_head h) (int (skb_data h) + offset) copy;
          Some (if n - copy = 0 then Copied b else Copying b (offset + copy) (n - copy) start) }
      else Some (Copying [] offset n start))"

fun skb_copy_bits :: "sk_buff \<Rightarrow> int \<Rightarrow> int \<Rightarrow> (errno + bytes) option"
  and copy_frag_list :: "sk_buff list \<Rightarrow> bytes \<Rightarrow> int \<Rightarrow> int \<Rightarrow> int \<Rightarrow> (errno + bytes) option" where
  "skb_copy_bits (Sk_buff h frags flist) offset n =
     (if offset > sint (skb_len h) - n then Some (Inl EFAULT)
      else do {
        p \<leftarrow> copy_header h offset n;
        (case p of
           Copied b \<Rightarrow> Some (Inr b)
         | Copying to offset n start \<Rightarrow> do {
             p \<leftarrow> copy_frags frags to offset n start;
             (case p of
                Copied b \<Rightarrow> Some (Inr b)
              | Copying to offset n start \<Rightarrow> copy_frag_list flist to offset n start) }) })"
| "copy_frag_list [] to offset n start = Some (if n = 0 then Inr to else Inl EFAULT)"
| "copy_frag_list (s # ss) to offset n start =
     (let fin = start + sint (skb_len (skb_hd s)); copy = fin - offset in
      if copy > 0 then
        let copy = (if copy > n then n else copy) in do {
          r \<leftarrow> skb_copy_bits s (offset - start) copy;
          (case r of
             Inl e \<Rightarrow> Some (Inl EFAULT)
           | Inr b \<Rightarrow>
               if n - copy = 0 then Some (Inr (to @ b))
               else copy_frag_list ss (to @ b) (offset + copy) (n - copy) fin) }
      else copy_frag_list ss to offset n fin)"

text \<open>
  \<open>skb_header_pointer\<close>: the bytes behind the pointer it returns (into the linear area, or to the
  caller's buffer filled by \<open>skb_copy_bits\<close>); the inner \<open>None\<close> is the null pointer.
\<close>

definition skb_header_pointer :: "sk_buff \<Rightarrow> int \<Rightarrow> int \<Rightarrow> bytes option option" where
  "skb_header_pointer skb offset n =
     (let h = skb_hd skb; hlen = sint (skb_headlen h) in
      if hlen - offset \<ge> n then map_option Some (rdi (skb_head h) (int (skb_data h) + offset) n)
      else map_option (\<lambda>r. case r of Inl e \<Rightarrow> None | Inr b \<Rightarrow> Some b) (skb_copy_bits skb offset n))"

section \<open>Trimming paged buffers\<close>

fun trim_frags :: "skb_frag_t list \<Rightarrow> nat \<Rightarrow> nat \<Rightarrow> skb_frag_t list \<times> nat option" where
  "trim_frags [] offset n = ([], Some offset)"
| "trim_frags (f # fs) offset n =
     (let fin = offset + frag_size f in
      if fin < n then (let (fs', r) = trim_frags fs fin n in (f # fs', r))
      else ([f\<lparr>frag_size := n - offset\<rparr>], None))"

text \<open>
  \<open>___pskb_trim\<close>, \<open>__pskb_trim\<close> and \<open>pskb_trim\<close>.  Allocation may fail: \<open>expand_fails\<close> says for which
  buffers \<open>pskb_expand_head\<close> finds no memory and \<open>clone_fails\<close> for which \<open>skb_clone\<close> does not.
\<close>

definition trim_done :: "skb_hdr \<Rightarrow> nat \<Rightarrow> skb_hdr" where
  "trim_done h n =
     (if n > unat (skb_headlen h)
      then h\<lparr>skb_data_len := skb_data_len h - (skb_len h - of_nat n), skb_len := of_nat n\<rparr>
      else skb_set_tail_pointer (h\<lparr>skb_len := of_nat n, skb_data_len := 0\<rparr>) n)"

definition unshare :: "(sk_buff \<Rightarrow> bool) \<Rightarrow> sk_buff \<Rightarrow> errno + sk_buff" where
  "unshare clone_fails frag =
     (case frag of Sk_buff h frags flist \<Rightarrow>
        if skb_shared h then
          if clone_fails frag then Inl ENOMEM
          else Inr (Sk_buff (h\<lparr>skb_cloned := True, skb_shared := False\<rparr>) frags flist)
        else Inr frag)"

lemma size_unshare: "unshare cf s = Inr s' \<Longrightarrow> size s' = size s"
  by (cases s) (auto simp: unshare_def split: if_splits)

function pskb_trim :: "(sk_buff \<Rightarrow> bool) \<Rightarrow> (sk_buff \<Rightarrow> bool) \<Rightarrow> sk_buff \<Rightarrow> nat \<Rightarrow> errno + sk_buff"
  and pskb_trim_u :: "(sk_buff \<Rightarrow> bool) \<Rightarrow> (sk_buff \<Rightarrow> bool) \<Rightarrow> sk_buff \<Rightarrow> nat \<Rightarrow> errno + sk_buff"
  and pskb_trim_uu :: "(sk_buff \<Rightarrow> bool) \<Rightarrow> (sk_buff \<Rightarrow> bool) \<Rightarrow> sk_buff \<Rightarrow> nat \<Rightarrow> errno + sk_buff"
  and trim_frag_list :: "(sk_buff \<Rightarrow> bool) \<Rightarrow> (sk_buff \<Rightarrow> bool) \<Rightarrow> sk_buff list \<Rightarrow> nat \<Rightarrow> nat \<Rightarrow> errno + sk_buff list"
  where
  "pskb_trim ef cf skb n = (if n < unat (skb_len (skb_hd skb)) then pskb_trim_u ef cf skb n else Inr skb)"
| "pskb_trim_u ef cf skb n =
     (if skb_data_len (skb_hd skb) \<noteq> 0 then pskb_trim_uu ef cf skb n
      else case skb of Sk_buff h frags flist \<Rightarrow> Inr (Sk_buff (skb_trim_u h (of_nat n)) frags flist))"
| "pskb_trim_uu ef cf (Sk_buff h frags flist) n =
     (let offset = unat (skb_headlen h) in
      if skb_cloned h \<and> ef (Sk_buff h frags flist) then Inl ENOMEM
      else let h = h\<lparr>skb_cloned := False\<rparr> in
        if offset \<ge> n then Inr (Sk_buff (trim_done h n) [] [])
        else case trim_frags frags offset n of
            (frags', None) \<Rightarrow> Inr (Sk_buff (trim_done h n) frags' [])
          | (frags', Some offset) \<Rightarrow>
              (case trim_frag_list ef cf flist offset n of
                 Inl e \<Rightarrow> Inl e
               | Inr flist' \<Rightarrow> Inr (Sk_buff (trim_done h n) frags' flist')))"
| "trim_frag_list ef cf [] offset n = Inr []"
| "trim_frag_list ef cf (s # ss) offset n =
     (let fin = offset + unat (skb_len (skb_hd s)) in
      case unshare cf s of
        Inl e \<Rightarrow> Inl e
      | Inr s \<Rightarrow>
          if fin < n then
            (case trim_frag_list ef cf ss fin n of Inl e \<Rightarrow> Inl e | Inr ss' \<Rightarrow> Inr (s # ss'))
          else if fin > n then
            (case pskb_trim ef cf s (n - offset) of Inl e \<Rightarrow> Inl e | Inr s' \<Rightarrow> Inr [s'])
          else Inr [s])"
  by pat_completeness auto

termination
  by (relation "measure (\<lambda>x. case x of
        Inl (Inl (_, _, s, _)) \<Rightarrow> 3 * size s + 2 | Inl (Inr (_, _, s, _)) \<Rightarrow> 3 * size s + 1
      | Inr (Inl (_, _, s, _)) \<Rightarrow> 3 * size s | Inr (Inr (_, _, ss, _, _)) \<Rightarrow> 3 * size_list size ss)")
    (auto dest: size_unshare)

section \<open>What a buffer denotes\<close>

definition frag_bytes :: "skb_frag_t \<Rightarrow> bytes" where
  "frag_bytes f = take (frag_size f) (drop (frag_page_offset f) (frag_page f))"

definition linear_bytes :: "skb_hdr \<Rightarrow> bytes" where
  "linear_bytes h = take (skb_tail h - skb_data h) (drop (skb_data h) (skb_head h))"

fun skb_bytes :: "sk_buff \<Rightarrow> bytes" where
  "skb_bytes (Sk_buff h frags flist) =
     linear_bytes h @ concat (map frag_bytes frags) @ concat (map skb_bytes flist)"

definition wf_frag :: "skb_frag_t \<Rightarrow> bool" where
  "wf_frag f \<longleftrightarrow> frag_page_offset f + frag_size f \<le> length (frag_page f)"

definition wf_hdr :: "skb_hdr \<Rightarrow> nat \<Rightarrow> bool" where
  "wf_hdr h paged \<longleftrightarrow> skb_data h \<le> skb_tail h \<and> skb_tail h \<le> length (skb_head h) \<and>
     unat (skb_data_len h) = paged \<and> unat (skb_len h) = skb_tail h - skb_data h + paged \<and>
     unat (skb_len h) < 2 ^ 31"

fun wf_skb :: "sk_buff \<Rightarrow> bool" where
  "wf_skb (Sk_buff h frags flist) \<longleftrightarrow>
     wf_hdr h (length (concat (map frag_bytes frags) @ concat (map skb_bytes flist))) \<and>
     (\<forall>f \<in> set frags. wf_frag f) \<and> (\<forall>s \<in> set flist. wf_skb s)"

lemma length_linear_bytes: "wf_hdr h p \<Longrightarrow> length (linear_bytes h) = skb_tail h - skb_data h"
  by (auto simp: linear_bytes_def wf_hdr_def)

lemma length_frag_bytes: "wf_frag f \<Longrightarrow> length (frag_bytes f) = frag_size f"
  by (auto simp: frag_bytes_def wf_frag_def)

lemma length_skb_bytes: "wf_skb s \<Longrightarrow> length (skb_bytes s) = unat (skb_len (skb_hd s))"
  by (cases s) (auto simp: length_linear_bytes wf_hdr_def)

lemma headlen_wf:
  assumes "wf_hdr h p"
  shows "unat (skb_headlen h) = skb_tail h - skb_data h" "sint (skb_headlen h) = int (skb_tail h - skb_data h)"
    "sint (skb_len h) = int (unat (skb_len h))"
proof -
  have le: "skb_data_len h \<le> skb_len h" using assms by (auto simp: wf_hdr_def word_le_nat_alt)
  then show u: "unat (skb_headlen h) = skb_tail h - skb_data h"
    using assms by (auto simp: skb_headlen_def unat_sub wf_hdr_def)
  show "sint (skb_headlen h) = int (skb_tail h - skb_data h)" "sint (skb_len h) = int (unat (skb_len h))"
    using assms u by (auto simp: wf_hdr_def sint_u32)
qed

section \<open>Copying bits\<close>

text \<open>
  The invariant of the three loops of \<open>skb_copy_bits\<close>: what is copied so far, with the window still to
  copy from the bytes \<open>rest\<close> that follow \<open>start\<close>, is the result.
\<close>

fun progress :: "copy_progress \<Rightarrow> bytes \<Rightarrow> bytes \<Rightarrow> bool" where
  "progress (Copied b) rest res \<longleftrightarrow> b = res"
| "progress (Copying to offset n start) rest res \<longleftrightarrow> start \<le> offset \<and> 0 \<le> n \<and>
     offset - start + n \<le> int (length rest) \<and> res = to @ take (nat n) (drop (nat (offset - start)) rest)"

lemma progress_skip:
  assumes "progress (Copying to offset n start) (c @ rest) res" "start + int (length c) \<le> offset"
  shows "progress (Copying to offset n (start + int (length c))) rest res"
proof -
  have "nat (offset - start) - length c = nat (offset - (start + int (length c)))" by simp
  then show ?thesis using assms by auto
qed

lemma progress_copy:
  assumes "progress (Copying to offset n start) (c @ rest) res" "offset < start + int (length c)"
    "copy = (if start + int (length c) - offset > n then n else start + int (length c) - offset)"
    "b = take (nat copy) (drop (nat (offset - start)) c)"
  shows "n - copy = 0 \<Longrightarrow> res = to @ b"
    and "n - copy \<noteq> 0 \<Longrightarrow> progress (Copying (to @ b) (offset + copy) (n - copy) (start + int (length c))) rest res"
    and "0 \<le> copy" "copy \<le> start + int (length c) - offset"
proof -
  show "0 \<le> copy" "copy \<le> start + int (length c) - offset" using assms by (auto split: if_splits)
  show "n - copy = 0 \<Longrightarrow> res = to @ b" using assms by (auto split: if_splits)
  assume "n - copy \<noteq> 0"
  then have c: "copy = start + int (length c) - offset" "copy < n" using assms(3) by (auto split: if_splits)
  then have "b = drop (nat (offset - start)) c" using assms(1,2,4) by simp
  moreover have "nat n - (length c - nat (offset - start)) = nat (n - copy)"
    using c assms(1,2) by auto
  ultimately show "progress (Copying (to @ b) (offset + copy) (n - copy) (start + int (length c))) rest res"
    using assms(1,2) c by auto
qed

lemma rdi_chunk:
  assumes "c = take m (drop p buf)" "p + m \<le> length buf" "0 \<le> copy" "0 \<le> o'" "copy + o' \<le> int m"
  shows "rdi buf (int p + o') copy = Some (take (nat copy) (drop (nat o') c))"
  using assms by (auto simp: rdi_def rd_def nat_add_distrib drop_take add.commute min_def)

lemma copy_frags_progress:
  assumes "\<forall>f \<in> set frags. wf_frag f"
    "progress (Copying to offset n start) (concat (map frag_bytes frags) @ rest) res"
  shows "\<exists>p. copy_frags frags to offset n start = Some p \<and> progress p rest res"
  using assms
proof (induction frags arbitrary: to offset n start)
  case (Cons f fs)
  let ?fin = "start + int (frag_size f)"
  have len: "length (frag_bytes f) = frag_size f" using Cons.prems by (auto simp: length_frag_bytes)
  have pr: "progress (Copying to offset n start) (frag_bytes f @ concat (map frag_bytes fs) @ rest) res"
    using Cons.prems(2) by simp
  show ?case
  proof (cases "offset < ?fin")
    case False
    then show ?thesis
      using Cons.IH[of to offset n ?fin] Cons.prems(1) progress_skip[OF pr] len by (simp add: Let_def)
  next
    case True
    define copy where "copy = (if ?fin - offset > n then n else ?fin - offset)"
    define b where "b = take (nat copy) (drop (nat (offset - start)) (frag_bytes f))"
    note step = progress_copy[OF pr, unfolded len, OF True copy_def b_def]
    have "rdi (frag_page f) (int (frag_page_offset f) + (offset - start)) copy = Some b"
      unfolding b_def using Cons.prems step(3,4)
      by (intro rdi_chunk[where m = "frag_size f"]) (auto simp: frag_bytes_def wf_frag_def)
    then have rd: "rdi (frag_page f) (int (frag_page_offset f) + offset - start) copy = Some b"
      by (simp add: algebra_simps)
    show ?thesis
      using True rd step(1,2) Cons.IH[of "to @ b" "offset + copy" "n - copy" ?fin] Cons.prems(1)
      by (auto simp: Let_def simp flip: copy_def)
  qed
qed simp

lemma copy_frag_list_progress:
  assumes "\<And>s offset n. s \<in> set ss \<Longrightarrow> 0 \<le> offset \<Longrightarrow> 0 \<le> n \<Longrightarrow> offset + n \<le> int (length (skb_bytes s)) \<Longrightarrow>
      skb_copy_bits s offset n = Some (Inr (take (nat n) (drop (nat offset) (skb_bytes s))))"
    and "\<forall>s \<in> set ss. wf_skb s"
    and "progress (Copying to offset n start) (concat (map skb_bytes ss)) res"
  shows "copy_frag_list ss to offset n start = Some (Inr res)"
  using assms
proof (induction ss arbitrary: to offset n start)
  case (Cons s ss)
  have len: "length (skb_bytes s) = unat (skb_len (skb_hd s))" using Cons.prems by (simp add: length_skb_bytes)
  moreover have "sint (skb_len (skb_hd s)) = int (unat (skb_len (skb_hd s)))"
    using Cons.prems(2) headlen_wf(3) by (cases s) auto
  ultimately have fin: "start + sint (skb_len (skb_hd s)) = start + int (length (skb_bytes s))" by simp
  have pr: "progress (Copying to offset n start) (skb_bytes s @ concat (map skb_bytes ss)) res"
    using Cons.prems(3) by simp
  note IH = Cons.IH[OF Cons.prems(1)]
  show ?case
  proof (cases "offset < start + int (length (skb_bytes s))")
    case False
    then show ?thesis
      using IH[of to offset n "start + int (length (skb_bytes s))"] Cons.prems(2) progress_skip[OF pr]
      by (simp add: Let_def fin del: progress.simps)
  next
    case True
    define copy where
      "copy = (if start + int (length (skb_bytes s)) - offset > n then n else start + int (length (skb_bytes s)) - offset)"
    define b where "b = take (nat copy) (drop (nat (offset - start)) (skb_bytes s))"
    note step = progress_copy[OF pr True copy_def b_def]
    have "start \<le> offset" using pr by simp
    then have r: "skb_copy_bits s (offset - start) copy = Some (Inr b)"
      unfolding b_def using step(3,4) by (intro Cons.prems(1)) auto
    show ?thesis
      using True r step(1,2) IH[of "to @ b" "offset + copy" "n - copy" "start + int (length (skb_bytes s))"]
        Cons.prems(2)
      by (auto simp: Let_def fin simp flip: copy_def simp del: progress.simps)
  qed
qed simp

lemma copy_header_progress:
  assumes "wf_hdr h p" "progress (Copying [] offset n 0) (linear_bytes h @ rest) res"
  shows "\<exists>p. copy_header h offset n = Some p \<and> progress p rest res"
proof -
  have len: "length (linear_bytes h) = skb_tail h - skb_data h" using assms(1) by (rule length_linear_bytes)
  have start: "sint (skb_headlen h) = int (length (linear_bytes h))"
    using headlen_wf(2)[OF assms(1)] len by simp
  show ?thesis
  proof (cases "offset < int (length (linear_bytes h))")
    case False
    then show ?thesis using progress_skip[OF assms(2), unfolded add_0] by (simp add: copy_header_def start Let_def del: progress.simps)
  next
    case True
    define copy where "copy = (if int (length (linear_bytes h)) - offset > n then n else int (length (linear_bytes h)) - offset)"
    define b where "b = take (nat copy) (drop (nat offset) (linear_bytes h))"
    note step = progress_copy[OF assms(2), unfolded add_0 diff_zero, OF True copy_def b_def]
    have "rdi (skb_head h) (int (skb_data h) + (offset)) copy = Some b"
      unfolding b_def using assms step(3,4) len
      by (intro rdi_chunk[where m = "skb_tail h - skb_data h"]) (auto simp: linear_bytes_def wf_hdr_def)
    then show ?thesis
      using True step(1,2) by (auto simp: copy_header_def start Let_def simp flip: copy_def simp del: progress.simps(2))
  qed
qed

lemma skb_copy_bits_spec:
  assumes "wf_skb skb" "0 \<le> offset" "0 \<le> n" "offset + n \<le> int (length (skb_bytes skb))"
  shows "skb_copy_bits skb offset n = Some (Inr (take (nat n) (drop (nat offset) (skb_bytes skb))))"
  using assms
proof (induction skb arbitrary: offset n)
  case (Sk_buff h frags flist)
  let ?res = "take (nat n) (drop (nat offset) (skb_bytes (Sk_buff h frags flist)))"
  have wf: "wf_hdr h (length (concat (map frag_bytes frags) @ concat (map skb_bytes flist)))"
    "\<forall>f \<in> set frags. wf_frag f" "\<forall>s \<in> set flist. wf_skb s" using Sk_buff.prems(1) by simp_all
  have "sint (skb_len h) = int (length (skb_bytes (Sk_buff h frags flist)))"
    using headlen_wf(3)[OF wf(1)] length_skb_bytes[OF Sk_buff.prems(1)] by simp
  then have guard: "\<not> offset > sint (skb_len h) - n" using Sk_buff.prems(4) by simp
  have "progress (Copying [] offset n 0)
      (linear_bytes h @ (concat (map frag_bytes frags) @ concat (map skb_bytes flist))) ?res"
    using Sk_buff.prems by simp
  then obtain p where p: "copy_header h offset n = Some p"
      "progress p (concat (map frag_bytes frags) @ concat (map skb_bytes flist)) ?res"
    using copy_header_progress[OF wf(1)] by blast
  show ?case
  proof (cases p)
    case (Copied b)
    then show ?thesis using guard p by simp
  next
    case (Copying to off' n' start')
    obtain q where q: "copy_frags frags to off' n' start' = Some q" "progress q (concat (map skb_bytes flist)) ?res"
      using copy_frags_progress[OF wf(2)] p(2) Copying by blast
    show ?thesis
    proof (cases q)
      case (Copied b)
      then show ?thesis using guard p q Copying by simp
    next
      case (Copying to2 off2 n2 start2)
      have "copy_frag_list flist to2 off2 n2 start2 = Some (Inr ?res)"
        using q(2) Copying Sk_buff.IH wf(3) by (intro copy_frag_list_progress) auto
      then show ?thesis using guard p q Copying \<open>p = Copying to off' n' start'\<close> by simp
    qed
  qed
qed

lemma skb_copy_bits_fault:
  assumes "wf_skb skb" "offset + n > int (length (skb_bytes skb))"
  shows "skb_copy_bits skb offset n = Some (Inl EFAULT)"
proof (cases skb)
  case (Sk_buff h frags flist)
  then have "sint (skb_len h) = int (length (skb_bytes skb))"
    using assms(1) headlen_wf(3) length_skb_bytes[OF assms(1)] by auto
  then show ?thesis using assms(2) Sk_buff by simp
qed

lemma skb_header_pointer_spec:
  assumes "wf_skb skb" "0 \<le> offset" "0 \<le> n"
  shows "skb_header_pointer skb offset n =
    Some (if offset + n \<le> int (length (skb_bytes skb))
          then Some (take (nat n) (drop (nat offset) (skb_bytes skb))) else None)"
proof (cases skb)
  case (Sk_buff h frags flist)
  let ?p = "length (concat (map frag_bytes frags) @ concat (map skb_bytes flist))"
  have wf: "wf_hdr h ?p" using assms(1) Sk_buff by simp
  have len: "length (linear_bytes h) = skb_tail h - skb_data h" using wf by (rule length_linear_bytes)
  have tot: "length (linear_bytes h) \<le> length (skb_bytes skb)" by (simp add: Sk_buff)
  show ?thesis
  proof (cases "sint (skb_headlen h) - offset \<ge> n")
    case True
    then have in_lin: "offset + n \<le> int (length (linear_bytes h))" using headlen_wf(2)[OF wf] len by simp
    have "rdi (skb_head h) (int (skb_data h) + offset) n = Some (take (nat n) (drop (nat offset) (linear_bytes h)))"
      using wf assms in_lin len
      by (intro rdi_chunk[where m = "skb_tail h - skb_data h"]) (auto simp: linear_bytes_def wf_hdr_def)
    moreover have "take (nat n) (drop (nat offset) (linear_bytes h)) = take (nat n) (drop (nat offset) (skb_bytes skb))"
      using in_lin assms(2,3) by (auto simp: Sk_buff nat_le_iff)
    ultimately have "rdi (skb_head h) (int (skb_data h) + offset) n = Some (take (nat n) (drop (nat offset) (skb_bytes skb)))"
      by (simp only:)
    moreover have "skb_hd skb = h" by (simp add: Sk_buff)
    ultimately show ?thesis
      using True in_lin tot by (simp add: skb_header_pointer_def Let_def)
  next
    case False
    then show ?thesis
      using skb_copy_bits_spec[OF assms] skb_copy_bits_fault[OF assms(1), of offset n]
      by (cases "offset + n \<le> int (length (skb_bytes skb))") (auto simp: skb_header_pointer_def Let_def Sk_buff)
  qed
qed

section \<open>Trimming keeps a prefix\<close>

lemma trim_frags_spec:
  assumes "\<forall>f \<in> set frags. wf_frag f" "offset < n" "trim_frags frags offset n = (fr, r)"
  shows "(\<forall>f \<in> set fr. wf_frag f) \<and>
    (case r of
       None \<Rightarrow> concat (map frag_bytes fr) = take (n - offset) (concat (map frag_bytes frags)) \<and>
               n \<le> offset + length (concat (map frag_bytes frags))
     | Some off \<Rightarrow> fr = frags \<and> off = offset + length (concat (map frag_bytes frags)) \<and> off < n)"
  using assms
proof (induction frags arbitrary: offset fr r)
  case (Cons f fs)
  have len: "length (frag_bytes f) = frag_size f" "wf_frag f" using Cons.prems by (auto simp: length_frag_bytes)
  show ?case
  proof (cases "offset + frag_size f < n")
    case True
    obtain fr' r' where t: "trim_frags fs (offset + frag_size f) n = (fr', r')" by fastforce
    then have "fr = f # fr'" "r = r'" using Cons.prems(3) True by (auto simp: Let_def)
    with Cons.IH[OF _ True t] Cons.prems(1) len True show ?thesis
      by (auto split: option.splits simp: add.assoc)
  next
    case False
    then have "fr = [f\<lparr>frag_size := n - offset\<rparr>]" "r = None" using Cons.prems(3) by (auto simp: Let_def)
    with False len Cons.prems(2) show ?thesis by (auto simp: wf_frag_def frag_bytes_def)
  qed
qed auto

lemma trim_done_spec:
  assumes "wf_hdr h p" "n < unat (skb_len h)"
  shows "if n > unat (skb_headlen h)
    then wf_hdr (trim_done h n) (n - unat (skb_headlen h)) \<and> linear_bytes (trim_done h n) = linear_bytes h
    else wf_hdr (trim_done h n) 0 \<and> linear_bytes (trim_done h n) = take n (linear_bytes h)"
proof (cases "n > unat (skb_headlen h)")
  case True
  have "n < 4294967296" using assms unat_u32_less[of "skb_len h"] by simp
  then have n: "unat (of_nat n :: u32) = n" by (rule unat_of_nat_u32)
  have "unat (skb_len h - of_nat n) = unat (skb_len h) - n"
    using assms(2) n by (subst unat_sub) (simp_all add: word_le_nat_alt)
  moreover have "unat (skb_data_len h) = p" "unat (skb_len h) = skb_tail h - skb_data h + p"
    using assms(1) by (simp_all add: wf_hdr_def)
  ultimately have "unat (skb_data_len h - (skb_len h - of_nat n)) = n - unat (skb_headlen h)"
    using True headlen_wf(1)[OF assms(1)] assms(2) by (subst unat_sub) (auto simp: word_le_nat_alt)
  then show ?thesis
    using True assms n headlen_wf(1)[OF assms(1)]
    by (auto simp: trim_done_def wf_hdr_def linear_bytes_def)
next
  case False
  have "n < 4294967296" using assms unat_u32_less[of "skb_len h"] by simp
  then have n: "unat (of_nat n :: u32) = n" by (rule unat_of_nat_u32)
  show ?thesis
    using False assms n headlen_wf(1)[OF assms(1)]
    by (auto simp: trim_done_def wf_hdr_def linear_bytes_def skb_set_tail_pointer_def)
qed

lemma skb_trim_u_spec:
  assumes "wf_hdr h 0" "n < unat (skb_len h)"
  shows "wf_hdr (skb_trim_u h (of_nat n)) 0" "linear_bytes (skb_trim_u h (of_nat n)) = take n (linear_bytes h)"
proof -
  have "n < 4294967296" using assms unat_u32_less[of "skb_len h"] by simp
  then have n: "unat (of_nat n :: u32) = n" by (rule unat_of_nat_u32)
  have z: "skb_data_len h = 0" using assms(1) by (simp add: wf_hdr_def unat_eq_0)
  show "wf_hdr (skb_trim_u h (of_nat n)) 0" "linear_bytes (skb_trim_u h (of_nat n)) = take n (linear_bytes h)"
    using assms n z by (auto simp: skb_trim_u_def skb_set_tail_pointer_def wf_hdr_def linear_bytes_def)
qed

lemma unshare_spec: "unshare cf s = Inr s' \<Longrightarrow> skb_bytes s' = skb_bytes s \<and> wf_skb s' = wf_skb s \<and> skb_len (skb_hd s') = skb_len (skb_hd s)"
  by (cases s) (auto simp: unshare_def wf_hdr_def linear_bytes_def split: if_splits)

lemma unshare_error: "unshare cf s = Inl e \<Longrightarrow> e = ENOMEM"
  by (cases s) (auto simp: unshare_def split: if_splits)

lemma pskb_trim_uu_step:
  assumes wf_skb: "wf_skb (Sk_buff h frags flist)" and n: "n < unat (skb_len h)"
    and IH: "\<And>fr off. \<not> (skb_cloned h \<and> ef (Sk_buff h frags flist)) \<Longrightarrow> \<not> unat (skb_headlen h) \<ge> n \<Longrightarrow>
      trim_frags frags (unat (skb_headlen h)) n = (fr, Some off) \<Longrightarrow> off < n \<Longrightarrow>
      case trim_frag_list ef cf flist off n of Inl e \<Rightarrow> e = ENOMEM
        | Inr ss' \<Rightarrow> (\<forall>s \<in> set ss'. wf_skb s) \<and>
            concat (map skb_bytes ss') = take (n - off) (concat (map skb_bytes flist))"
  shows "case pskb_trim_uu ef cf (Sk_buff h frags flist) n of
    Inl e \<Rightarrow> e = ENOMEM | Inr s' \<Rightarrow> wf_skb s' \<and> skb_bytes s' = take n (skb_bytes (Sk_buff h frags flist))"
proof -
  define h' where "h' = h\<lparr>skb_cloned := False\<rparr>"
  define fb where "fb = concat (map frag_bytes frags)"
  define lb where "lb = concat (map skb_bytes flist)"
  have wf: "wf_hdr h (length (fb @ lb))" "\<forall>f \<in> set frags. wf_frag f" "\<forall>s \<in> set flist. wf_skb s"
    using wf_skb by (simp_all add: fb_def lb_def)
  have wf': "wf_hdr h' (length (fb @ lb))" "unat (skb_len h') = unat (skb_len h)" "skb_headlen h' = skb_headlen h"
    "linear_bytes h' = linear_bytes h"
    using wf(1) by (auto simp: h'_def wf_hdr_def skb_headlen_def linear_bytes_def)
  note td = trim_done_spec[OF wf'(1), of n, unfolded wf'(2,3,4), OF n]
  have hl: "length (linear_bytes h) = unat (skb_headlen h)"
    using length_linear_bytes[OF wf(1)] headlen_wf(1)[OF wf(1)] by simp
  have bytes: "skb_bytes (Sk_buff h frags flist) = linear_bytes h @ fb @ lb" by (simp add: fb_def lb_def)
  have tot: "unat (skb_len h) = unat (skb_headlen h) + length fb + length lb"
    using wf(1) headlen_wf(1)[OF wf(1)] by (simp add: wf_hdr_def)
  show ?thesis
  proof (cases "skb_cloned h \<and> ef (Sk_buff h frags flist)")
    case True
    then show ?thesis by simp
  next
    case False
    note F = False
    have uu: "pskb_trim_uu ef cf (Sk_buff h frags flist) n =
       (if unat (skb_headlen h) \<ge> n then Inr (Sk_buff (trim_done h' n) [] [])
        else case trim_frags frags (unat (skb_headlen h)) n of
            (frags', None) \<Rightarrow> Inr (Sk_buff (trim_done h' n) frags' [])
          | (frags', Some offset) \<Rightarrow>
              (case trim_frag_list ef cf flist offset n of
                 Inl e \<Rightarrow> Inl e
               | Inr flist' \<Rightarrow> Inr (Sk_buff (trim_done h' n) frags' flist')))"
      by (simp only: pskb_trim_uu.simps Let_def h'_def[symmetric] F if_False)
    show ?thesis
    proof (cases "unat (skb_headlen h) \<ge> n")
      case True
      then show ?thesis using td hl by (simp add: uu del: pskb_trim_uu.simps flip: fb_def lb_def)
    next
      case False
      obtain fr r where t: "trim_frags frags (unat (skb_headlen h)) n = (fr, r)" by fastforce
      have ts: "(\<forall>f \<in> set fr. wf_frag f) \<and>
        (case r of
           None \<Rightarrow> concat (map frag_bytes fr) = take (n - unat (skb_headlen h)) fb \<and> n \<le> unat (skb_headlen h) + length fb
         | Some off \<Rightarrow> fr = frags \<and> off = unat (skb_headlen h) + length fb \<and> off < n)"
        using trim_frags_spec[OF wf(2) _ t] False unfolding fb_def by simp
      show ?thesis
      proof (cases r)
        case None
        then show ?thesis using False td hl ts t by (auto simp: uu simp del: pskb_trim_uu.simps simp flip: fb_def lb_def)
      next
        case (Some off)
        have "case trim_frag_list ef cf flist off n of Inl e \<Rightarrow> e = ENOMEM
            | Inr ss' \<Rightarrow> (\<forall>s \<in> set ss'. wf_skb s) \<and> concat (map skb_bytes ss') = take (n - off) lb"
          using IH[OF F False] t ts Some unfolding lb_def by simp
        then show ?thesis
          using False td hl ts t Some tot n
          by (auto simp: uu simp del: pskb_trim_uu.simps simp flip: fb_def lb_def split: sum.splits)
      qed
    qed
  qed
qed

lemma trim_specs:
  "wf_skb s \<Longrightarrow> case pskb_trim ef cf s n of
      Inl e \<Rightarrow> e = ENOMEM | Inr s' \<Rightarrow> wf_skb s' \<and> skb_bytes s' = take n (skb_bytes s)"
  "wf_skb s \<Longrightarrow> n < unat (skb_len (skb_hd s)) \<Longrightarrow> case pskb_trim_u ef cf s n of
      Inl e \<Rightarrow> e = ENOMEM | Inr s' \<Rightarrow> wf_skb s' \<and> skb_bytes s' = take n (skb_bytes s)"
  "wf_skb s \<Longrightarrow> n < unat (skb_len (skb_hd s)) \<Longrightarrow> case pskb_trim_uu ef cf s n of
      Inl e \<Rightarrow> e = ENOMEM | Inr s' \<Rightarrow> wf_skb s' \<and> skb_bytes s' = take n (skb_bytes s)"
  "\<forall>s \<in> set ss. wf_skb s \<Longrightarrow> offset < n \<Longrightarrow> case trim_frag_list ef cf ss offset n of
      Inl e \<Rightarrow> e = ENOMEM
    | Inr ss' \<Rightarrow> (\<forall>s \<in> set ss'. wf_skb s) \<and>
        concat (map skb_bytes ss') = take (n - offset) (concat (map skb_bytes ss))"
proof (induction ef cf s n and ef cf s n and ef cf s n and ef cf ss offset n
    rule: pskb_trim_pskb_trim_u_pskb_trim_uu_trim_frag_list.induct)
  case (1 ef cf skb n)
  then show ?case using length_skb_bytes[OF 1(2)] by (auto simp: pskb_trim.simps[of ef cf skb])
next
  case (2 ef cf skb n)
  show ?case
  proof (cases "skb_data_len (skb_hd skb) \<noteq> 0")
    case True
    then show ?thesis using 2 by (simp add: pskb_trim_u.simps)
  next
    case False
    obtain h frags flist where s: "skb = Sk_buff h frags flist" by (cases skb)
    define pg where "pg = concat (map frag_bytes frags) @ concat (map skb_bytes flist)"
    have wf: "wf_hdr h (length pg)" using 2(2) s by (simp add: pg_def)
    then have pg: "pg = []" using False s by (simp add: wf_hdr_def)
    have b: "skb_bytes (Sk_buff x frags flist) = linear_bytes x" for x
      by (simp only: skb_bytes.simps pg_def[symmetric] pg append_Nil2)
    have w: "wf_skb (Sk_buff x frags flist) \<longleftrightarrow> wf_hdr x 0 \<and> (\<forall>f \<in> set frags. wf_frag f) \<and> (\<forall>s \<in> set flist. wf_skb s)" for x
      by (simp only: wf_skb.simps pg_def[symmetric] pg list.size)
    show ?thesis using False 2(2,3) skb_trim_u_spec[of h n]
      by (simp add: s pskb_trim_u.simps b w del: skb_bytes.simps wf_skb.simps)
  qed
next
  case (3 ef cf h frags flist n)
  then show ?case by (intro pskb_trim_uu_step) auto
next
  case (4 ef cf offset n)
  then show ?case by simp
next
  case (5 ef cf s ss offset n)
  show ?case
  proof (cases "unshare cf s")
    case (Inl e)
    then show ?thesis using unshare_error[OF Inl] by (simp add: Let_def)
  next
    case (Inr s')
    have us: "skb_bytes s' = skb_bytes s" "wf_skb s'" "skb_len (skb_hd s') = skb_len (skb_hd s)"
      using unshare_spec[OF Inr] 5(3) by auto
    have len: "length (skb_bytes s) = unat (skb_len (skb_hd s))" using 5(3) by (simp add: length_skb_bytes)
    consider "offset + unat (skb_len (skb_hd s)) < n" | "offset + unat (skb_len (skb_hd s)) > n"
      | "offset + unat (skb_len (skb_hd s)) = n" by linarith
    then show ?thesis
    proof cases
      case 1
      then show ?thesis using 5(1)[OF refl Inr 1] 5(3) us len Inr
        by (auto simp: Let_def add.assoc split: sum.splits)
    next
      case 2
      then show ?thesis using 5(2)[OF refl Inr _ 2] us len Inr
        by (auto simp: Let_def simp del: pskb_trim.simps split: sum.splits)
    next
      case 3
      then show ?thesis using us len Inr by (auto simp: Let_def)
    qed
  qed
qed

lemma trim_no_failure:
  "pskb_trim (\<lambda>_. False) (\<lambda>_. False) s n \<noteq> Inl e"
  "pskb_trim_u (\<lambda>_. False) (\<lambda>_. False) s n \<noteq> Inl e"
  "pskb_trim_uu (\<lambda>_. False) (\<lambda>_. False) s n \<noteq> Inl e"
  "trim_frag_list (\<lambda>_. False) (\<lambda>_. False) ss offset n \<noteq> Inl e"
proof (induction "\<lambda>_ :: sk_buff. False" "\<lambda>_ :: sk_buff. False" s n
    and "\<lambda>_ :: sk_buff. False" "\<lambda>_ :: sk_buff. False" s n
    and "\<lambda>_ :: sk_buff. False" "\<lambda>_ :: sk_buff. False" s n
    and "\<lambda>_ :: sk_buff. False" "\<lambda>_ :: sk_buff. False" ss offset n
    rule: pskb_trim_pskb_trim_u_pskb_trim_uu_trim_frag_list.induct)
  case (3 h frags flist n)
  note IH = 3[OF refl _ refl]
  show ?case
    by (auto simp: Let_def split: sum.splits prod.splits option.splits dest: IH[rotated 2, OF sym])
next
  case (5 s ss offset n)
  have "unshare (\<lambda>_. False) s \<noteq> Inl e" for e
    by (cases s) (simp add: unshare_def)
  with 5 show ?case
    by (auto simp: Let_def simp del: pskb_trim.simps pskb_trim_u.simps split: sum.splits)
qed (auto simp: Let_def split: sum.splits sk_buff.splits prod.splits option.splits)

section \<open>The pointer operations\<close>

lemma skb_put_wf:
  assumes "wf_hdr h 0" "unat n \<le> skb_tailroom h" "skb_tail h + unat n - skb_data h < 2 ^ 31"
  shows "\<exists>h'. skb_put h n = Some (skb_tail h, h') \<and> wf_hdr h' 0 \<and> skb_head h' = skb_head h \<and>
    skb_data h' = skb_data h \<and> skb_tail h' = skb_tail h + unat n"
proof -
  have "unat (skb_len h) + unat n < 2 ^ 31" using assms(1,3) by (auto simp: wf_hdr_def)
  then have "unat (skb_len h + n) = unat (skb_len h) + unat n" by (simp add: unat_word_ariths)
  then show ?thesis
    using assms by (auto simp: skb_put_def skb_tailroom_def skb_is_nonlinear_def wf_hdr_def unat_eq_0)
qed

lemma skb_pull_spec:
  assumes "wf_hdr h 0"
  shows "skb_pull h n =
    Some (if unat n \<le> length (linear_bytes h)
          then (Some (skb_data h + unat n), h\<lparr>skb_len := skb_len h - n, skb_data := skb_data h + unat n\<rparr>)
          else (None, h))"
proof -
  have "unat (skb_len h) = length (linear_bytes h)" "skb_data_len h = 0"
    using assms length_linear_bytes[OF assms] by (simp_all add: wf_hdr_def unat_eq_0)
  then show ?thesis by (auto simp: skb_pull_def skb_pull_u_def word_le_nat_alt not_less)
qed

section \<open>Properties\<close>

text \<open>
  C9: \<open>skb_header_pointer\<close> on any well-formed buffer, linear, paged or with nested fragment lists, reads
  exactly the requested window of the packet and returns null exactly when the window leaves it; it
  never reads outside an allocation.
\<close>

theorem skb_header_pointer_reads_window:
  assumes "wf_skb skb" "0 \<le> offset" "0 \<le> n"
  shows "skb_header_pointer skb offset n =
    Some (if offset + n \<le> int (length (skb_bytes skb))
          then Some (take (nat n) (drop (nat offset) (skb_bytes skb))) else None)"
  using assms by (rule skb_header_pointer_spec)

definition demo_hdr :: skb_hdr where
  "demo_hdr = \<lparr>skb_head = [0, 0, 1, 2, 3, 0], skb_data = 2, skb_tail = 5, skb_network_header = 2,
     skb_mac_header = 2, skb_len = 6, skb_data_len = 3, skb_protocol = 0x0800, skb_pkt_type = 0,
     skb_dev = None, skb_mark = 0, skb_queue_mapping = 0, skb_cloned = False, skb_shared = False\<rparr>"

definition demo_skb :: sk_buff where
  "demo_skb = Sk_buff demo_hdr [\<lparr>frag_page = [9, 4, 5, 6], frag_page_offset = 1, frag_size = 3\<rparr>] []"

lemma demo_skb_wf: "wf_skb demo_skb" "skb_bytes demo_skb = [1, 2, 3, 4, 5, 6]"
  by (simp_all add: demo_skb_def demo_hdr_def wf_hdr_def wf_frag_def frag_bytes_def linear_bytes_def)

theorem skb_header_pointer_reads_window_witness:
  "skb_header_pointer demo_skb 2 3 = Some (Some [3, 4, 5])"
  using skb_header_pointer_reads_window[OF demo_skb_wf(1), of 2 3] by (simp add: demo_skb_wf(2))

text \<open>
  C12: Trimming a buffer to \<open>len\<close> bytes, through page fragments and nested fragment lists, shared or
  cloned, yields a well-formed buffer that denotes the first \<open>len\<close> bytes of the packet; the only failure
  is \<open>-ENOMEM\<close>, and without allocation failures there is none.
\<close>

theorem pskb_trim_keeps_prefix:
  assumes "wf_skb skb"
  shows "(case pskb_trim ef cf skb n of
       Inl e \<Rightarrow> e = ENOMEM
     | Inr skb' \<Rightarrow> wf_skb skb' \<and> skb_bytes skb' = take n (skb_bytes skb)) \<and>
    (\<exists>skb'. pskb_trim (\<lambda>_. False) (\<lambda>_. False) skb n = Inr skb')"
  using trim_specs(1)[OF assms] trim_no_failure(1)[of skb n]
  by (cases "pskb_trim (\<lambda>_. False) (\<lambda>_. False) skb n") auto

theorem pskb_trim_keeps_prefix_witness:
  "(case pskb_trim (\<lambda>_. False) (\<lambda>_. False) demo_skb 4 of
       Inl e \<Rightarrow> e = ENOMEM
     | Inr skb' \<Rightarrow> wf_skb skb' \<and> skb_bytes skb' = [1, 2, 3, 4]) \<and>
    (\<exists>skb'. pskb_trim (\<lambda>_. False) (\<lambda>_. False) demo_skb 4 = Inr skb')"
  using pskb_trim_keeps_prefix[OF demo_skb_wf(1), where ef = "\<lambda>_. False" and cf = "\<lambda>_. False" and n = 4]
  by (auto simp: demo_skb_wf(2) simp del: pskb_trim.simps split: sum.splits)

end
