(* ===== verification/Netlink_Attributes.thy ===== *)
theory Netlink_Attributes
  imports Socket_Buffers
begin

text \<open>
  Netlink attributes (\<open>lib/nlattr.c\<close> and the inline functions of \<open>include/net/netlink.h\<close>): walking,
  validating, parsing and searching an attribute stream, and appending attributes to a socket buffer.

  An attribute pointer is an offset into a byte memory; every field access is bounds checked, so
  \<open>None\<close> is an access outside the memory.  The macro \<open>nla_for_each_attr\<close> is one combinator, which the
  three loops instantiate with their bodies.  The target is little endian.
\<close>

lemma uint_of_nat_u16: "n < 65536 \<Longrightarrow> uint (of_nat n :: u16) = int n"
  by (simp add: unsigned_of_nat take_bit_nat_eq_self)

lemma unat_of_nat_u16: "n < 65536 \<Longrightarrow> unat (of_nat n :: u16) = n"
  by (simp add: unat_of_nat)

section \<open>Attributes in memory\<close>

definition NLA_HDRLEN :: int where "NLA_HDRLEN = 4"

definition NLA_ALIGN :: "int \<Rightarrow> int" where
  "NLA_ALIGN n = (n + 4 - 1) AND NOT (4 - 1)"

definition nla_len_field :: "bytes \<Rightarrow> nat \<Rightarrow> u16 option" where
  "nla_len_field mem p = map_option le16_to_cpu (rd mem p 2)"

definition nla_type_field :: "bytes \<Rightarrow> nat \<Rightarrow> u16 option" where
  "nla_type_field mem p = map_option le16_to_cpu (rd mem (p + 2) 2)"

definition nla_attr_size :: "int \<Rightarrow> int" where
  "nla_attr_size payload = NLA_HDRLEN + payload"

definition nla_total_size :: "int \<Rightarrow> int" where
  "nla_total_size payload = NLA_ALIGN (nla_attr_size payload)"

definition nla_padlen :: "int \<Rightarrow> int" where
  "nla_padlen payload = nla_total_size payload - nla_attr_size payload"

definition nla_type :: "bytes \<Rightarrow> nat \<Rightarrow> int option" where
  "nla_type mem p = map_option (\<lambda>t. uint (t AND NOT (0xc000 :: u16))) (nla_type_field mem p)"

definition nla_data :: "nat \<Rightarrow> nat" where
  "nla_data p = p + nat NLA_HDRLEN"

definition nla_len :: "bytes \<Rightarrow> nat \<Rightarrow> int option" where
  "nla_len mem p = map_option (\<lambda>l. uint l - NLA_HDRLEN) (nla_len_field mem p)"

definition nla_ok :: "bytes \<Rightarrow> nat \<Rightarrow> int \<Rightarrow> bool option" where
  "nla_ok mem p remaining =
     (if remaining \<ge> 4 then map_option (\<lambda>l. uint l \<ge> 4 \<and> uint l \<le> remaining) (nla_len_field mem p)
      else Some False)"

definition nla_next :: "bytes \<Rightarrow> nat \<Rightarrow> int \<Rightarrow> (nat \<times> int) option" where
  "nla_next mem p remaining =
     map_option (\<lambda>l. let totlen = NLA_ALIGN (uint l) in (p + nat totlen, remaining - totlen))
       (nla_len_field mem p)"

lemma NLA_ALIGN_eq: "NLA_ALIGN n = (n + 3) div 4 * 4"
proof -
  have m: "(3 :: int) = mask 2" by (simp add: mask_eq_exp_minus_1)
  have s: "Suc (Suc (k - 2)) = k" if "2 \<le> k" for k using that by simp
  have "(n + 3) AND NOT 3 = push_bit 2 (drop_bit 2 (n + 3))"
    by (subst (2) m) (rule bit_eqI, auto simp: bit_simps not_less s)
  then show ?thesis by (simp add: NLA_ALIGN_def push_bit_eq_mult drop_bit_eq_div add.commute)
qed

lemma NLA_ALIGN_bounds: "n \<le> NLA_ALIGN n" "NLA_ALIGN n \<le> n + 3"
  by (simp_all add: NLA_ALIGN_eq)

lemma nla_ok_next:
  assumes "nla_ok mem p r = Some True" "nla_next mem p r = Some (q, r')"
  shows "r' < r" "p < q"
proof -
  obtain l where l: "nla_len_field mem p = Some l" "4 \<le> uint l" using assms(1) by (auto simp: nla_ok_def split: if_splits)
  then have "r' = r - NLA_ALIGN (uint l)" "q = p + nat (NLA_ALIGN (uint l))"
    using assms(2) by (auto simp: nla_next_def Let_def)
  with l NLA_ALIGN_bounds(1)[of "uint l"] show "r' < r" "p < q" by auto
qed

section \<open>Walking a stream\<close>

text \<open>
  \<open>for (pos = head, rem = len; nla_ok(pos, rem); pos = nla_next(pos, &rem)) body\<close>: the body leaves the
  enclosing function with a value (\<open>Inl\<close>) or goes on with a new state (\<open>Inr\<close>).
\<close>

function nla_for_each_attr ::
    "bytes \<Rightarrow> (nat \<Rightarrow> 's \<Rightarrow> ('r + 's) option) \<Rightarrow> nat \<Rightarrow> int \<Rightarrow> 's \<Rightarrow> ('r + 's \<times> int) option" where
  "nla_for_each_attr mem body p r s =
     (case nla_ok mem p r of
        None \<Rightarrow> None
      | Some False \<Rightarrow> Some (Inr (s, r))
      | Some True \<Rightarrow>
          (case body p s of
             None \<Rightarrow> None
           | Some (Inl x) \<Rightarrow> Some (Inl x)
           | Some (Inr s) \<Rightarrow>
               (case nla_next mem p r of
                  None \<Rightarrow> None
                | Some (q, r) \<Rightarrow> nla_for_each_attr mem body q r s)))"
  by pat_completeness auto

termination
proof (relation "measure (\<lambda>(_, _, _, r, _). nat r)", simp, goal_cases)
  case (1 mem body p r s ok b s' x q r')
  then have "r' < r" "4 \<le> r" using nla_ok_next(1)[of mem p r q r'] by (auto simp: nla_ok_def split: if_splits)
  then show ?case by simp
qed

declare nla_for_each_attr.simps [simp del]

definition nla_find :: "bytes \<Rightarrow> nat \<Rightarrow> int \<Rightarrow> int \<Rightarrow> nat option option" where
  "nla_find mem head n attrtype =
     map_option (\<lambda>x. case x of Inl p \<Rightarrow> Some p | Inr _ \<Rightarrow> None)
       (nla_for_each_attr mem
          (\<lambda>p _. map_option (\<lambda>t. if t = attrtype then Inl p else Inr ()) (nla_type mem p)) head n ())"

definition nla_find_nested :: "bytes \<Rightarrow> nat \<Rightarrow> int \<Rightarrow> nat option option" where
  "nla_find_nested mem p attrtype =
     do { n \<leftarrow> nla_len mem p; nla_find mem (nla_data p) n attrtype }"

section \<open>Validation and parsing\<close>

datatype nla_ptype = NLA_UNSPEC | NLA_U8 | NLA_U16 | NLA_U32 | NLA_U64 | NLA_STRING | NLA_FLAG | NLA_MSECS
  | NLA_NESTED | NLA_NESTED_COMPAT | NLA_NUL_STRING | NLA_BINARY

record nla_policy =
  pt_type :: nla_ptype
  pt_len :: u16

fun nla_attr_minlen :: "nla_ptype \<Rightarrow> int" where
  "nla_attr_minlen NLA_U8 = 1"
| "nla_attr_minlen NLA_U16 = 2"
| "nla_attr_minlen NLA_U32 = 4"
| "nla_attr_minlen NLA_U64 = 8"
| "nla_attr_minlen NLA_NESTED = NLA_HDRLEN"
| "nla_attr_minlen _ = 0"

definition validate_string :: "bytes \<Rightarrow> nat \<Rightarrow> int \<Rightarrow> nla_policy \<Rightarrow> (errno + unit) option" where
  "validate_string mem p attrlen pt =
     (if attrlen < 1 then Some (Inl ERANGE)
      else if pt_len pt \<noteq> 0 then do {
        c \<leftarrow> rd mem (nla_data p + nat (attrlen - 1)) 1;
        (let attrlen = (if c = [0] then attrlen - 1 else attrlen) in
         Some (if attrlen > uint (pt_len pt) then Inl ERANGE else Inr ())) }
      else Some (Inr ()))"

definition validate_default :: "int \<Rightarrow> nla_policy \<Rightarrow> errno + unit" where
  "validate_default attrlen pt =
     (let minlen = (if pt_len pt \<noteq> 0 then uint (pt_len pt)
                    else if pt_type pt \<noteq> NLA_UNSPEC then nla_attr_minlen (pt_type pt) else 0) in
      if attrlen < minlen then Inl ERANGE else Inr ())"

definition validate_nested_compat :: "bytes \<Rightarrow> nat \<Rightarrow> int \<Rightarrow> nla_policy \<Rightarrow> (errno + unit) option" where
  "validate_nested_compat mem p attrlen pt =
     (let n = uint (pt_len pt) in
      if attrlen < n then Some (Inl ERANGE)
      else if attrlen < NLA_ALIGN n then Some (Inr ())
      else if attrlen < NLA_ALIGN n + NLA_HDRLEN then Some (Inl ERANGE)
      else do {
        m \<leftarrow> nla_len mem (nla_data p + nat (NLA_ALIGN n));
        Some (if attrlen < NLA_ALIGN n + NLA_HDRLEN + m then Inl ERANGE else Inr ()) })"

definition validate_nul_string :: "bytes \<Rightarrow> nat \<Rightarrow> int \<Rightarrow> nla_policy \<Rightarrow> (errno + unit) option" where
  "validate_nul_string mem p attrlen pt =
     (let minlen = (if pt_len pt \<noteq> 0 then min attrlen (uint (pt_len pt) + 1) else attrlen) in
      if minlen = 0 then Some (Inl EINVAL)
      else do {
        bs \<leftarrow> rd mem (nla_data p) (nat minlen);
        (if 0 \<in> set bs then validate_string mem p attrlen pt else Some (Inl EINVAL)) })"

definition validate_nla :: "bytes \<Rightarrow> nat \<Rightarrow> int \<Rightarrow> nla_policy list \<Rightarrow> (errno + unit) option" where
  "validate_nla mem p maxtype policy = do {
     attrlen \<leftarrow> nla_len mem p;
     type \<leftarrow> nla_type mem p;
     (if type \<le> 0 \<or> type > maxtype then Some (Inr ())
      else if nat type \<ge> length policy then None
      else let pt = policy ! nat type in
        (case pt_type pt of
           NLA_FLAG \<Rightarrow> Some (if attrlen > 0 then Inl ERANGE else Inr ())
         | NLA_NUL_STRING \<Rightarrow> validate_nul_string mem p attrlen pt
         | NLA_STRING \<Rightarrow> validate_string mem p attrlen pt
         | NLA_BINARY \<Rightarrow> Some (if pt_len pt \<noteq> 0 \<and> attrlen > uint (pt_len pt) then Inl ERANGE else Inr ())
         | NLA_NESTED_COMPAT \<Rightarrow> validate_nested_compat mem p attrlen pt
         | NLA_NESTED \<Rightarrow> Some (if attrlen = 0 then Inr () else validate_default attrlen pt)
         | _ \<Rightarrow> Some (validate_default attrlen pt))) }"

definition nla_validate :: "bytes \<Rightarrow> nat \<Rightarrow> int \<Rightarrow> int \<Rightarrow> nla_policy list \<Rightarrow> (errno + unit) option" where
  "nla_validate mem head n maxtype policy =
     map_option (\<lambda>x. case x of Inl e \<Rightarrow> Inl e | Inr _ \<Rightarrow> Inr ())
       (nla_for_each_attr mem (\<lambda>p _. validate_nla mem p maxtype policy) head n ())"


text \<open>\<open>tb\<close> has \<open>maxtype + 1\<close> entries; \<open>policy\<close> may be the null pointer.\<close>

definition nla_parse_body ::
    "bytes \<Rightarrow> int \<Rightarrow> nla_policy list option \<Rightarrow> nat \<Rightarrow> nat option list \<Rightarrow> (errno + nat option list) option" where
  "nla_parse_body mem maxtype policy p tb = do {
     type \<leftarrow> nla_type mem p;
     (if type > 0 \<and> type \<le> maxtype then do {
        e \<leftarrow> (case policy of None \<Rightarrow> Some (Inr ()) | Some pol \<Rightarrow> validate_nla mem p maxtype pol);
        (case e of
           Inl e \<Rightarrow> Some (Inl e)
         | Inr _ \<Rightarrow> Some (Inr (tb[nat type := Some p]))) }
      else Some (Inr tb)) }"

definition nla_parse ::
    "int \<Rightarrow> bytes \<Rightarrow> nat \<Rightarrow> int \<Rightarrow> nla_policy list option \<Rightarrow> (errno + nat option list) option" where
  "nla_parse maxtype mem head n policy =
     map_option (\<lambda>x. case x of Inl e \<Rightarrow> Inl e | Inr (tb, _) \<Rightarrow> Inr tb)
       (nla_for_each_attr mem (nla_parse_body mem maxtype policy) head n (replicate (nat (maxtype + 1)) None))"

definition nla_parse_nested ::
    "int \<Rightarrow> bytes \<Rightarrow> nat \<Rightarrow> nla_policy list option \<Rightarrow> (errno + nat option list) option" where
  "nla_parse_nested maxtype mem p policy =
     do { n \<leftarrow> nla_len mem p; nla_parse maxtype mem (nla_data p) n policy }"

section \<open>Access to payloads\<close>

definition nla_strlcpy :: "bytes \<Rightarrow> bytes \<Rightarrow> nat \<Rightarrow> nat \<Rightarrow> (bytes \<times> nat) option" where
  "nla_strlcpy dst mem p dstsize = do {
     n \<leftarrow> nla_len mem p;
     (let srclen = nat n in do {
       srclen \<leftarrow> (if srclen > 0
                  then map_option (\<lambda>c. if c = [0] then srclen - 1 else srclen) (rd mem (nla_data p + (srclen - 1)) 1)
                  else Some srclen);
       dst \<leftarrow> (if dstsize > 0 then
                 let len = (if srclen \<ge> dstsize then dstsize - 1 else srclen) in do {
                   dst \<leftarrow> wr dst 0 (replicate dstsize 0);
                   src \<leftarrow> rd mem (nla_data p) len;
                   wr dst 0 src }
               else Some dst);
       Some (dst, srclen) }) }"

definition nla_memcpy :: "bytes \<Rightarrow> bytes \<Rightarrow> nat \<Rightarrow> int \<Rightarrow> (bytes \<times> int) option" where
  "nla_memcpy dest mem p count = do {
     n \<leftarrow> nla_len mem p;
     (let minlen = min count n in do {
       src \<leftarrow> rdi mem (int (nla_data p)) minlen;
       dest \<leftarrow> wr dest 0 src;
       Some (dest, minlen) }) }"

fun memcmp :: "bytes \<Rightarrow> bytes \<Rightarrow> nat \<Rightarrow> int option" where
  "memcmp su1 su2 0 = Some 0"
| "memcmp (c1 # su1) (c2 # su2) (Suc count) =
     (let res = uint c1 - uint c2 in if res \<noteq> 0 then Some res else memcmp su1 su2 count)"
| "memcmp _ _ (Suc count) = None"

definition nla_memcmp :: "bytes \<Rightarrow> nat \<Rightarrow> bytes \<Rightarrow> nat \<Rightarrow> int option" where
  "nla_memcmp mem p data sz = do {
     n \<leftarrow> nla_len mem p;
     (let d = n - int sz in
      if d = 0 then memcmp (drop (nla_data p) mem) data sz else Some d) }"

text \<open>The string is given without its terminating zero, which \<open>strlen(str) + 1\<close> takes in.\<close>

definition nla_strcmp :: "bytes \<Rightarrow> nat \<Rightarrow> bytes \<Rightarrow> int option" where
  "nla_strcmp mem p str = do {
     n \<leftarrow> nla_len mem p;
     (let len = length str + 1; d = n - int len in
      if d = 0 then memcmp (drop (nla_data p) mem) (str @ [0]) len else Some d) }"

section \<open>Appending attributes to a socket buffer\<close>

definition poke :: "skb_hdr \<Rightarrow> nat \<Rightarrow> bytes \<Rightarrow> skb_hdr option" where
  "poke h p bs = map_option (\<lambda>m. h\<lparr>skb_head := m\<rparr>) (wr (skb_head h) p bs)"

definition nla_reserve_u :: "skb_hdr \<Rightarrow> u16 \<Rightarrow> int \<Rightarrow> (nat \<times> skb_hdr) option" where
  "nla_reserve_u h attrtype attrlen = do {
     (nla, h) \<leftarrow> skb_put h (word_of_int (nla_total_size attrlen));
     h \<leftarrow> poke h (nla + 2) (cpu_to_le16 attrtype);
     h \<leftarrow> poke h nla (cpu_to_le16 (word_of_int (nla_attr_size attrlen)));
     l \<leftarrow> nla_len_field (skb_head h) nla;
     h \<leftarrow> poke h (nla + unat l) (replicate (nat (nla_padlen attrlen)) 0);
     Some (nla, h) }"

definition nla_reserve_nohdr_u :: "skb_hdr \<Rightarrow> int \<Rightarrow> (nat \<times> skb_hdr) option" where
  "nla_reserve_nohdr_u h attrlen = do {
     (start, h) \<leftarrow> skb_put h (word_of_int (NLA_ALIGN attrlen));
     h \<leftarrow> poke h start (replicate (nat (NLA_ALIGN attrlen)) 0);
     Some (start, h) }"

text \<open>The inner \<open>None\<close> of the two reservations is the null pointer.\<close>

definition nla_reserve :: "skb_hdr \<Rightarrow> u16 \<Rightarrow> int \<Rightarrow> (nat option \<times> skb_hdr) option" where
  "nla_reserve h attrtype attrlen =
     (if int (skb_tailroom h) < nla_total_size attrlen then Some (None, h)
      else map_option (\<lambda>(p, h). (Some p, h)) (nla_reserve_u h attrtype attrlen))"

definition nla_reserve_nohdr :: "skb_hdr \<Rightarrow> int \<Rightarrow> (nat option \<times> skb_hdr) option" where
  "nla_reserve_nohdr h attrlen =
     (if int (skb_tailroom h) < NLA_ALIGN attrlen then Some (None, h)
      else map_option (\<lambda>(p, h). (Some p, h)) (nla_reserve_nohdr_u h attrlen))"

definition nla_put_u :: "skb_hdr \<Rightarrow> u16 \<Rightarrow> int \<Rightarrow> bytes \<Rightarrow> skb_hdr option" where
  "nla_put_u h attrtype attrlen data = do {
     (nla, h) \<leftarrow> nla_reserve_u h attrtype attrlen;
     src \<leftarrow> rdi data 0 attrlen;
     poke h (nla_data nla) src }"

definition nla_put_nohdr_u :: "skb_hdr \<Rightarrow> int \<Rightarrow> bytes \<Rightarrow> skb_hdr option" where
  "nla_put_nohdr_u h attrlen data = do {
     (start, h) \<leftarrow> nla_reserve_nohdr_u h attrlen;
     src \<leftarrow> rdi data 0 attrlen;
     poke h start src }"

definition nla_put :: "skb_hdr \<Rightarrow> u16 \<Rightarrow> int \<Rightarrow> bytes \<Rightarrow> (errno + skb_hdr) option" where
  "nla_put h attrtype attrlen data =
     (if int (skb_tailroom h) < nla_total_size attrlen then Some (Inl EMSGSIZE)
      else map_option Inr (nla_put_u h attrtype attrlen data))"

definition nla_put_nohdr :: "skb_hdr \<Rightarrow> int \<Rightarrow> bytes \<Rightarrow> (errno + skb_hdr) option" where
  "nla_put_nohdr h attrlen data =
     (if int (skb_tailroom h) < NLA_ALIGN attrlen then Some (Inl EMSGSIZE)
      else map_option Inr (nla_put_nohdr_u h attrlen data))"

definition nla_append :: "skb_hdr \<Rightarrow> int \<Rightarrow> bytes \<Rightarrow> (errno + skb_hdr) option" where
  "nla_append h attrlen data =
     (if int (skb_tailroom h) < NLA_ALIGN attrlen then Some (Inl EMSGSIZE)
      else do {
        (start, h) \<leftarrow> skb_put h (word_of_int attrlen);
        src \<leftarrow> rdi data 0 attrlen;
        map_option Inr (poke h start src) })"

section \<open>Every walk stays inside the stream\<close>

text \<open>An attribute \<open>nla_ok\<close> accepted, in a stream that ends at \<open>fin\<close>.\<close>

definition attr_at :: "bytes \<Rightarrow> nat \<Rightarrow> nat \<Rightarrow> bool" where
  "attr_at mem fin p \<longleftrightarrow> (\<exists>l. nla_len_field mem p = Some l \<and> 4 \<le> uint l \<and> int p + uint l \<le> int fin) \<and> fin \<le> length mem"

lemma attr_at_header:
  assumes "attr_at mem fin p"
  obtains l where "nla_len mem p = Some (uint l - 4)" "nla_len_field mem p = Some l" "4 \<le> uint l"
    "int p + uint l \<le> int fin" "int p + uint l \<le> int (length mem)" "\<exists>t \<ge> 0. nla_type mem p = Some t"
proof -
  obtain l where l: "nla_len_field mem p = Some l" "4 \<le> uint l" "int p + uint l \<le> int fin" "fin \<le> length mem"
    using assms by (auto simp: attr_at_def)
  then have "p + 4 \<le> length mem" by linarith
  with l that[of l] show ?thesis
    by (simp add: nla_len_def NLA_HDRLEN_def nla_type_def nla_type_field_def rd_def)
qed

lemma nla_ok_attr_at:
  assumes "int p + r = int fin" "fin \<le> length mem"
  shows "nla_ok mem p r = Some False \<or> nla_ok mem p r = Some True \<and> attr_at mem fin p \<and>
    (\<exists>q r'. nla_next mem p r = Some (q, r') \<and> int q + r' = int fin)"
proof (cases "4 \<le> r")
  case True
  then have "p + 4 \<le> length mem" using assms by linarith
  then obtain l where l: "nla_len_field mem p = Some l" by (auto simp: nla_len_field_def rd_def)
  show ?thesis
  proof (cases "4 \<le> uint l \<and> uint l \<le> r")
    case ok: True
    then have "attr_at mem fin p" using l assms by (auto simp: attr_at_def)
    moreover have "0 \<le> NLA_ALIGN (uint l)" using NLA_ALIGN_bounds(1)[of "uint l"] ok by linarith
    ultimately show ?thesis using ok l assms True by (simp add: nla_ok_def nla_next_def Let_def)
  next
    case False
    then show ?thesis using l True by (auto simp: nla_ok_def)
  qed
qed (simp add: nla_ok_def)

lemma nla_for_each_attr_safe:
  assumes "int p + r = int fin" "fin \<le> length mem" "I s"
    and "\<And>q s. attr_at mem fin q \<Longrightarrow> I s \<Longrightarrow> \<exists>x. body q s = Some x \<and> (\<forall>s'. x = Inr s' \<longrightarrow> I s')"
  shows "\<exists>x. nla_for_each_attr mem body p r s = Some x \<and> (\<forall>s' r'. x = Inr (s', r') \<longrightarrow> I s')"
  using assms
proof (induction mem body p r s rule: nla_for_each_attr.induct)
  case (1 mem body p r s)
  consider "nla_ok mem p r = Some False"
    | q r' where "nla_ok mem p r = Some True" "attr_at mem fin p" "nla_next mem p r = Some (q, r')" "int q + r' = int fin"
    using nla_ok_attr_at[OF 1(2,3)] by blast
  then show ?case
  proof cases
    case 1
    then show ?thesis using \<open>I s\<close> by (simp add: nla_for_each_attr.simps[of mem body p])
  next
    case (2 q r')
    obtain x where x: "body p s = Some x" "\<forall>s'. x = Inr s' \<longrightarrow> I s'" using 1(5)[OF 2(2) 1(4)] by blast
    show ?thesis
    proof (cases x)
      case (Inl a)
      then show ?thesis using 2 x by (simp add: nla_for_each_attr.simps[of mem body p])
    next
      case (Inr s')
      then have "\<exists>x. nla_for_each_attr mem body q r' s' = Some x \<and> (\<forall>s'' r''. x = Inr (s'', r'') \<longrightarrow> I s'')"
        using 1(1)[OF 2(1) _ x(1) _ 2(3) refl 2(4) 1(3) _ 1(5)] x(2) by simp
      then show ?thesis using 2 x Inr by (simp add: nla_for_each_attr.simps[of mem body p])
    qed
  qed
qed

lemma validate_string_safe:
  "attr_at mem fin p \<Longrightarrow> nla_len mem p = Some n \<Longrightarrow> \<exists>x. validate_string mem p n pt = Some x"
  by (erule attr_at_header) (auto simp: validate_string_def Let_def nla_data_def NLA_HDRLEN_def rd_def)

lemma validate_nla_safe:
  assumes "attr_at mem fin p" "maxtype < int (length policy)"
  shows "\<exists>x. validate_nla mem p maxtype policy = Some x"
proof -
  obtain l where l: "nla_len mem p = Some (uint l - 4)" "nla_len_field mem p = Some l" "4 \<le> uint l"
      "int p + uint l \<le> int fin" "int p + uint l \<le> int (length mem)" "\<exists>t \<ge> 0. nla_type mem p = Some t"
    using assms(1) by (rule attr_at_header)
  obtain t where t: "nla_type mem p = Some t" using l by blast
  let ?n = "uint l - 4"
  have nul: "\<exists>x. validate_nul_string mem p ?n pt = Some x" for pt
  proof -
    define m where "m = (if pt_len pt \<noteq> 0 then min ?n (uint (pt_len pt) + 1) else ?n)"
    then have "m \<le> ?n" by simp
    then have "nla_data p + nat m \<le> length mem" using l by (simp add: nla_data_def NLA_HDRLEN_def)
    then obtain bs where "rd mem (nla_data p) (nat m) = Some bs" by (auto simp: rd_def)
    then show ?thesis using validate_string_safe[OF assms(1) l(1), of pt]
      by (simp add: validate_nul_string_def flip: m_def)
  qed
  have nest: "\<exists>x. validate_nested_compat mem p ?n pt = Some x" for pt
  proof (cases "?n < NLA_ALIGN (uint (pt_len pt)) + NLA_HDRLEN")
    case False
    moreover have "0 \<le> NLA_ALIGN (uint (pt_len pt))"
      using NLA_ALIGN_bounds(1)[of "uint (pt_len pt)"] uint_ge_0[of "pt_len pt"] by linarith
    ultimately have "nla_data p + nat (NLA_ALIGN (uint (pt_len pt))) + 2 \<le> length mem"
      using l(3,5) by (simp add: nla_data_def NLA_HDRLEN_def)
    then obtain m where "nla_len mem (nla_data p + nat (NLA_ALIGN (uint (pt_len pt)))) = Some m"
      by (simp add: nla_len_def nla_len_field_def rd_def)
    then show ?thesis by (simp add: validate_nested_compat_def Let_def)
  qed (simp add: validate_nested_compat_def Let_def)
  show ?thesis
    using t l assms(2) validate_string_safe[OF assms(1) l(1)] nul nest
    by (auto simp: validate_nla_def Let_def split: nla_ptype.split)
qed

section \<open>Reading back what was written\<close>

text \<open>The bytes of one attribute and of a stream, as \<open>nla_put\<close> lays them out.\<close>

definition attr_bytes :: "u16 \<times> bytes \<Rightarrow> bytes" where
  "attr_bytes = (\<lambda>(ty, data). cpu_to_le16 (of_nat (4 + length data)) @ cpu_to_le16 ty @ data @
     replicate (nat (nla_padlen (int (length data)))) 0)"

lemma length_attr_bytes: "int (length (attr_bytes (ty, data))) = nla_total_size (int (length data))"
proof -
  have "0 \<le> nla_padlen (int (length data))"
    using NLA_ALIGN_bounds(1)[of "4 + int (length data)"]
    by (simp add: nla_padlen_def nla_total_size_def nla_attr_size_def NLA_HDRLEN_def)
  then show ?thesis
    by (simp add: attr_bytes_def nla_padlen_def nla_attr_size_def NLA_HDRLEN_def)
qed

lemma attr_bytes_fields:
  assumes "mem = pre @ attr_bytes (ty, data) @ post" "4 + length data < 65536"
  shows "nla_len_field mem (length pre) = Some (of_nat (4 + length data))"
    "nla_type_field mem (length pre) = Some ty"
    "rd mem (nla_data (length pre)) (length data) = Some data"
proof -
  let ?l = "cpu_to_le16 (of_nat (4 + length data))" and ?t = "cpu_to_le16 ty"
  let ?pad = "replicate (nat (nla_padlen (int (length data)))) (0 :: u8)"
  have m: "mem = pre @ ?l @ (?t @ data @ ?pad @ post)" "mem = (pre @ ?l) @ ?t @ (data @ ?pad @ post)"
    "mem = (pre @ ?l @ ?t) @ data @ (?pad @ post)"
    using assms(1) by (simp_all add: attr_bytes_def)
  have "rd mem (length pre) 2 = Some ?l" "rd mem (length pre + 2) 2 = Some ?t"
    "rd mem (length pre + 4) (length data) = Some data"
    by (subst m(1), rule rd_at, simp_all) (subst m(2), rule rd_at, simp_all, subst m(3), rule rd_at, simp_all)
  then show "nla_len_field mem (length pre) = Some (of_nat (4 + length data))"
    "nla_type_field mem (length pre) = Some ty" "rd mem (nla_data (length pre)) (length data) = Some data"
    by (simp_all add: nla_len_field_def nla_type_field_def nla_data_def NLA_HDRLEN_def)
qed

lemma nla_for_each_attr_step:
  assumes "mem = pre @ attr_bytes (ty, data) @ post" "4 + length data < 65536"
    "r = int (length (attr_bytes (ty, data))) + r'" "0 \<le> r'"
  shows "nla_for_each_attr mem body (length pre) r s =
    (case body (length pre) s of
       None \<Rightarrow> None
     | Some (Inl x) \<Rightarrow> Some (Inl x)
     | Some (Inr s) \<Rightarrow> nla_for_each_attr mem body (length pre + length (attr_bytes (ty, data))) r' s)"
proof -
  have l: "nla_len_field mem (length pre) = Some (of_nat (4 + length data))"
    by (rule attr_bytes_fields[OF assms(1,2)])
  have u: "uint (of_nat (4 + length data) :: u16) = 4 + int (length data)"
    using assms(2) uint_of_nat_u16[of "4 + length data"] by simp
  have tot: "NLA_ALIGN (4 + int (length data)) = int (length (attr_bytes (ty, data)))"
    by (simp add: length_attr_bytes nla_total_size_def nla_attr_size_def NLA_HDRLEN_def)
  have "nla_ok mem (length pre) r = Some True"
    using l u assms(3,4) tot NLA_ALIGN_bounds(1)[of "4 + int (length data)"] by (simp add: nla_ok_def)
  moreover have "nla_next mem (length pre) r = Some (length pre + length (attr_bytes (ty, data)), r')"
    using l u tot assms(3) by (simp add: nla_next_def Let_def)
  ultimately show ?thesis by (simp add: nla_for_each_attr.simps[of mem body "length pre"] split: option.splits sum.splits)
qed

definition stream :: "(u16 \<times> bytes) list \<Rightarrow> bytes" where
  "stream xs = concat (map attr_bytes xs)"

definition good_attrs :: "(u16 \<times> bytes) list \<Rightarrow> bool" where
  "good_attrs xs \<longleftrightarrow> (\<forall>(ty, data) \<in> set xs. 4 + length data < 65536)"

text \<open>The walk as a fold over the attributes of a well-formed stream.\<close>

fun walk :: "(nat \<Rightarrow> 's \<Rightarrow> ('r + 's) option) \<Rightarrow> nat \<Rightarrow> (u16 \<times> bytes) list \<Rightarrow> 's \<Rightarrow> ('r + 's \<times> int) option" where
  "walk body p [] s = Some (Inr (s, 0))"
| "walk body p (a # as) s =
     (case body p s of
        None \<Rightarrow> None
      | Some (Inl x) \<Rightarrow> Some (Inl x)
      | Some (Inr s) \<Rightarrow> walk body (p + length (attr_bytes a)) as s)"

lemma nla_for_each_attr_stream:
  assumes "mem = pre @ stream xs @ post" "good_attrs xs"
  shows "nla_for_each_attr mem body (length pre) (int (length (stream xs))) s = walk body (length pre) xs s"
  using assms
proof (induction xs arbitrary: pre s)
  case Nil
  then show ?case by (subst nla_for_each_attr.simps) (simp add: stream_def nla_ok_def)
next
  case (Cons a xs)
  obtain ty data where a: "a = (ty, data)" by fastforce
  have m: "mem = pre @ attr_bytes (ty, data) @ (stream xs @ post)" "mem = (pre @ attr_bytes (ty, data)) @ stream xs @ post"
    using Cons.prems(1) a by (simp_all add: stream_def)
  have l: "4 + length data < 65536" "good_attrs xs" using Cons.prems(2) a by (auto simp: good_attrs_def)
  have "nla_for_each_attr mem body (length pre) (int (length (stream (a # xs)))) s =
    (case body (length pre) s of
       None \<Rightarrow> None
     | Some (Inl x) \<Rightarrow> Some (Inl x)
     | Some (Inr s) \<Rightarrow> nla_for_each_attr mem body (length pre + length (attr_bytes (ty, data))) (int (length (stream xs))) s)"
    by (rule nla_for_each_attr_step[OF m(1) l(1)]) (simp_all add: stream_def a)
  moreover have "nla_for_each_attr mem body (length pre + length (attr_bytes (ty, data))) (int (length (stream xs))) s' =
      walk body (length pre + length (attr_bytes (ty, data))) xs s'" for s'
    using Cons.IH[OF m(2) l(2), of s'] by simp
  ultimately show ?case by (simp add: a split: option.splits sum.splits)
qed

lemma nla_type_in_stream:
  assumes "mem = pre @ stream xs @ post" "good_attrs xs" "xs = as @ (ty, data) # bs"
  shows "nla_type mem (length pre + length (stream as)) = Some (uint (ty AND NOT 0xc000))"
    "nla_len mem (length pre + length (stream as)) = Some (int (length data))"
    "rd mem (nla_data (length pre + length (stream as))) (length data) = Some data"
proof -
  have m: "mem = (pre @ stream as) @ attr_bytes (ty, data) @ (stream bs @ post)"
    using assms(1,3) by (simp add: stream_def)
  have l: "4 + length data < 65536" using assms(2,3) by (auto simp: good_attrs_def)
  show "nla_type mem (length pre + length (stream as)) = Some (uint (ty AND NOT 0xc000))"
    "nla_len mem (length pre + length (stream as)) = Some (int (length data))"
    "rd mem (nla_data (length pre + length (stream as))) (length data) = Some data"
    using attr_bytes_fields[OF m l] uint_of_nat_u16[OF l]
    by (simp_all add: nla_type_def nla_len_def NLA_HDRLEN_def)
qed

text \<open>The type a stored attribute answers to: its type field without the two flag bits.\<close>

definition masked :: "u16 \<Rightarrow> int" where
  "masked ty = uint (ty AND NOT 0xc000)"

fun typed :: "bytes \<Rightarrow> nat \<Rightarrow> (u16 \<times> bytes) list \<Rightarrow> bool" where
  "typed mem p [] \<longleftrightarrow> True"
| "typed mem p (a # xs) \<longleftrightarrow> nla_type mem p = Some (masked (fst a)) \<and> typed mem (p + length (attr_bytes a)) xs"

lemma typed_stream:
  assumes "mem = pre @ stream xs @ post" "good_attrs xs"
  shows "typed mem (length pre) xs"
  using assms
proof (induction xs arbitrary: pre)
  case (Cons a xs)
  have "nla_type mem (length pre) = Some (masked (fst a))"
    using nla_type_in_stream(1)[OF Cons.prems, of "[]" "fst a" "snd a" xs] by (simp add: masked_def stream_def)
  moreover have "typed mem (length (pre @ attr_bytes a)) xs"
    using Cons.prems by (intro Cons.IH) (simp_all add: stream_def good_attrs_def)
  ultimately show ?case by simp
qed simp

lemma walk_find:
  assumes "typed mem p xs"
  shows "walk (\<lambda>p _. map_option (\<lambda>t. if t = k then Inl p else Inr ()) (nla_type mem p)) p xs () =
    Some (if k \<in> masked ` fst ` set xs
          then Inl (p + length (stream (takeWhile (\<lambda>a. masked (fst a) \<noteq> k) xs))) else Inr ((), 0))"
  using assms
proof (induction xs arbitrary: p)
  case (Cons a xs)
  show ?case
  proof (cases "masked (fst a) = k")
    case True
    then show ?thesis using Cons.prems by (simp add: stream_def)
  next
    case False
    then have "(k \<in> masked ` fst ` set (a # xs)) = (k \<in> masked ` fst ` set xs)" by auto
    with False Cons.IH[of "p + length (attr_bytes a)"] Cons.prems show ?thesis
      by (simp add: stream_def add.assoc)
  qed
qed simp

lemma nla_find_stream:
  assumes "mem = pre @ stream xs @ post" "good_attrs xs"
  shows "nla_find mem (length pre) (int (length (stream xs))) k =
    Some (if k \<in> masked ` fst ` set xs
          then Some (length pre + length (stream (takeWhile (\<lambda>a. masked (fst a) \<noteq> k) xs))) else None)"
  using walk_find[OF typed_stream[OF assms], of k]
  by (simp add: nla_find_def nla_for_each_attr_stream[OF assms])

text \<open>The table \<open>nla_parse\<close> fills, position by position.\<close>

fun table :: "int \<Rightarrow> nat \<Rightarrow> (u16 \<times> bytes) list \<Rightarrow> nat option list \<Rightarrow> nat option list" where
  "table maxtype p [] tb = tb"
| "table maxtype p (a # xs) tb =
     table maxtype (p + length (attr_bytes a)) xs
       (if 0 < masked (fst a) \<and> masked (fst a) \<le> maxtype then tb[nat (masked (fst a)) := Some p] else tb)"

lemma walk_parse:
  "typed mem p xs \<Longrightarrow> walk (nla_parse_body mem maxtype None) p xs tb = Some (Inr (table maxtype p xs tb, 0))"
  by (induction xs arbitrary: p tb) (auto simp: nla_parse_body_def)

lemma table_other:
  "0 < k \<Longrightarrow> k \<notin> masked ` fst ` set xs \<Longrightarrow> table maxtype p xs tb ! nat k = tb ! nat k"
  by (induction xs arbitrary: p tb) (auto simp: nth_list_update)

lemma length_table [simp]: "length (table maxtype p xs tb) = length tb"
  by (induction xs arbitrary: p tb) auto

lemma table_last:
  assumes "0 < masked ty" "masked ty \<le> maxtype" "nat maxtype < length tb" "masked ty \<notin> masked ` fst ` set bs"
  shows "table maxtype p (as @ (ty, data) # bs) tb ! nat (masked ty) = Some (p + length (stream as))"
  using assms(3)
proof (induction as arbitrary: p tb)
  case Nil
  then show ?case using assms table_other[of "masked ty" bs] by (simp add: stream_def)
next
  case (Cons a as)
  then show ?case by (simp add: stream_def add.assoc)
qed

lemma nla_parse_stream:
  assumes "mem = pre @ stream xs @ post" "good_attrs xs"
  shows "nla_parse maxtype mem (length pre) (int (length (stream xs))) None =
    Some (Inr (table maxtype (length pre) xs (replicate (nat (maxtype + 1)) None)))"
  by (simp add: nla_parse_def nla_for_each_attr_stream[OF assms] walk_parse[OF typed_stream[OF assms]])

section \<open>What the writers write\<close>

lemma split_list2: "length xs = a + b \<Longrightarrow> \<exists>ys zs. xs = ys @ zs \<and> length ys = a \<and> length zs = b"
  by (rule exI[of _ "take a xs"], rule exI[of _ "drop a xs"]) simp

lemma poke_at:
  "skb_head h = pre @ mid @ post \<Longrightarrow> p = length pre \<Longrightarrow> length bs = length mid \<Longrightarrow>
   poke h p bs = Some (h\<lparr>skb_head := pre @ bs @ post\<rparr>)"
  by (simp add: poke_def wr_at)

lemma linear_bytes_split:
  "skb_head h = A @ B \<Longrightarrow> length A = skb_tail h \<Longrightarrow> skb_data h \<le> skb_tail h \<Longrightarrow> linear_bytes h = drop (skb_data h) A"
  by (simp add: linear_bytes_def)

lemma nla_put_u_writes:
  assumes put: "skb_put h (word_of_int (nla_total_size (int (length data)))) = Some (length A, h1)"
    and head: "skb_head h1 = A @ G @ R" "length G = length (attr_bytes (ty, data))"
    and len: "4 + length data < 65536"
  shows "nla_put_u h ty (int (length data)) data = Some (h1\<lparr>skb_head := A @ attr_bytes (ty, data) @ R\<rparr>)"
proof -
  let ?pad = "nat (nla_padlen (int (length data)))"
  have "length G = 2 + (2 + (length data + ?pad))" using head(2) by (simp add: attr_bytes_def)
  then obtain g1 G1 where G1: "G = g1 @ G1" "length g1 = 2" "length G1 = 2 + (length data + ?pad)"
    using split_list2 by metis
  then obtain g2 G2 where G2: "G1 = g2 @ G2" "length g2 = 2" "length G2 = length data + ?pad"
    using split_list2 by metis
  then obtain g3 g4 where g: "G2 = g3 @ g4" "length g3 = length data" "length g4 = ?pad"
    using split_list2 by metis
  let ?l = "cpu_to_le16 (of_nat (4 + length data))" and ?t = "cpu_to_le16 ty" and ?z = "replicate ?pad (0 :: u8)"
  have l16: "word_of_int (nla_attr_size (int (length data))) = (of_nat (4 + length data) :: u16)"
    by (simp add: nla_attr_size_def NLA_HDRLEN_def)
  have p1: "poke h1 (length A + 2) ?t = Some (h1\<lparr>skb_head := (A @ g1) @ ?t @ (g3 @ g4 @ R)\<rparr>)"
    using head G1 G2 g by (subst poke_at[where pre = "A @ g1" and mid = g2 and post = "g3 @ g4 @ R"]) simp_all
  have p2: "poke (h1\<lparr>skb_head := (A @ g1) @ ?t @ (g3 @ g4 @ R)\<rparr>) (length A) ?l =
      Some (h1\<lparr>skb_head := A @ ?l @ (?t @ g3 @ g4 @ R)\<rparr>)"
    using G1 by (subst poke_at[where pre = A and mid = g1 and post = "?t @ g3 @ g4 @ R"]) simp_all
  have r: "nla_len_field (A @ ?l @ (?t @ g3 @ g4 @ R)) (length A) = Some (of_nat (4 + length data))"
    using rd_at[of "length A" A 2 ?l "?t @ g3 @ g4 @ R"] by (simp add: nla_len_field_def)
  have ul: "unat (of_nat (4 + length data) :: u16) = 4 + length data" by (rule unat_of_nat_u16[OF len])
  have p3: "poke (h1\<lparr>skb_head := A @ ?l @ (?t @ g3 @ g4 @ R)\<rparr>) (length A + (4 + length data)) ?z =
      Some (h1\<lparr>skb_head := (A @ ?l @ ?t @ g3) @ ?z @ R\<rparr>)"
    using g by (subst poke_at[where pre = "A @ ?l @ ?t @ g3" and mid = g4 and post = R]) simp_all
  have p4: "poke (h1\<lparr>skb_head := (A @ ?l @ ?t @ g3) @ ?z @ R\<rparr>) (nla_data (length A)) data =
      Some (h1\<lparr>skb_head := (A @ ?l @ ?t) @ data @ (?z @ R)\<rparr>)"
    using g by (subst poke_at[where pre = "A @ ?l @ ?t" and mid = g3 and post = "?z @ R"])
      (simp_all add: nla_data_def NLA_HDRLEN_def)
  show ?thesis
    using put p1 p2 r ul p3 p4 l16
    by (simp add: nla_put_u_def nla_reserve_u_def rdi_def rd_def attr_bytes_def)
qed

lemma nla_put_spec:
  assumes wf: "wf_hdr h 0" and len: "4 + length data < 65536"
    and small: "skb_tail h - skb_data h + 65540 < 2 ^ 31"
    and room: "nla_total_size (int (length data)) \<le> int (skb_tailroom h)"
  shows "\<exists>h'. nla_put h ty (int (length data)) data = Some (Inr h') \<and> wf_hdr h' 0 \<and>
    length (skb_head h') = length (skb_head h) \<and>
    linear_bytes h' = linear_bytes h @ attr_bytes (ty, data)"
proof -
  let ?n = "length (attr_bytes (ty, data))"
  have n: "nla_total_size (int (length data)) = int ?n" by (simp add: length_attr_bytes)
  have "int ?n \<le> int (4 + length data) + 3"
    using NLA_ALIGN_bounds(2)[of "4 + int (length data)"]
    by (simp add: length_attr_bytes nla_total_size_def nla_attr_size_def NLA_HDRLEN_def)
  then have n_small: "?n < 65540" using len by linarith
  then have un: "unat (word_of_int (int ?n) :: u32) = ?n" by (simp add: unat_of_nat_u32)
  have le: "skb_data h \<le> skb_tail h" using wf by (simp add: wf_hdr_def)
  then have "skb_tail h + ?n - skb_data h < 2 ^ 31" using small n_small by linarith
  then obtain h1 where h1: "skb_put h (word_of_int (int ?n)) = Some (skb_tail h, h1)" "wf_hdr h1 0"
      "skb_head h1 = skb_head h" "skb_data h1 = skb_data h" "skb_tail h1 = skb_tail h + ?n"
    using skb_put_wf[OF wf, of "word_of_int (int ?n)"] room n un by auto
  let ?m = "length (skb_head h) - skb_tail h - ?n"
  have "length (skb_head h) = skb_tail h + (?n + ?m)" using h1 by (simp add: wf_hdr_def)
  then obtain A S where A: "skb_head h = A @ S" "length A = skb_tail h" "length S = ?n + ?m"
    using split_list2 by metis
  then obtain G R where S: "S = G @ R" "length G = ?n" using split_list2 by metis
  let ?h' = "h1\<lparr>skb_head := A @ attr_bytes (ty, data) @ R\<rparr>"
  have "nla_put_u h ty (int (length data)) data = Some ?h'"
    using h1(1,3) A S n len by (intro nla_put_u_writes[where G = G]) simp_all
  then have "nla_put h ty (int (length data)) data = Some (Inr ?h')"
    using room by (simp add: nla_put_def)
  moreover have "linear_bytes h = drop (skb_data h) A"
    using A le by (intro linear_bytes_split[of _ _ S]) simp_all
  moreover have "linear_bytes ?h' = drop (skb_data h) (A @ attr_bytes (ty, data))"
    using A(2) h1(4,5) le linear_bytes_split[of ?h' "A @ attr_bytes (ty, data)" R] by simp
  moreover have "wf_hdr ?h' 0" using h1(2,3) A S by (simp add: wf_hdr_def)
  ultimately show ?thesis using le A S by auto
qed

text \<open>A sender that puts a list of attributes and gives up at the first error.\<close>

fun put_all :: "skb_hdr \<Rightarrow> (u16 \<times> bytes) list \<Rightarrow> (errno + skb_hdr) option" where
  "put_all h [] = Some (Inr h)"
| "put_all h ((ty, data) # xs) =
     (case nla_put h ty (int (length data)) data of
        None \<Rightarrow> None
      | Some (Inl e) \<Rightarrow> Some (Inl e)
      | Some (Inr h) \<Rightarrow> put_all h xs)"

lemma put_all_linear:
  assumes "wf_hdr h 0" "good_attrs xs" "length (skb_head h) + 65540 < 2 ^ 31"
  shows "put_all h xs = Some (Inl EMSGSIZE) \<or>
    (\<exists>h'. put_all h xs = Some (Inr h') \<and> wf_hdr h' 0 \<and> linear_bytes h' = linear_bytes h @ stream xs)"
  using assms
proof (induction xs arbitrary: h)
  case (Cons a xs)
  obtain ty data where a: "a = (ty, data)" by fastforce
  have len: "4 + length data < 65536" "good_attrs xs" using Cons.prems(2) a by (auto simp: good_attrs_def)
  have small: "skb_tail h - skb_data h + 65540 < 2 ^ 31" using Cons.prems(1,3) by (auto simp: wf_hdr_def)
  show ?case
  proof (cases "nla_total_size (int (length data)) \<le> int (skb_tailroom h)")
    case False
    then show ?thesis by (simp add: a nla_put_def)
  next
    case True
    obtain h' where h': "nla_put h ty (int (length data)) data = Some (Inr h')" "wf_hdr h' 0"
        "linear_bytes h' = linear_bytes h @ attr_bytes (ty, data)" "length (skb_head h') = length (skb_head h)"
      using nla_put_spec[OF Cons.prems(1) len(1) small True] by blast
    then show ?thesis using Cons.IH[OF h'(2) len(2)] Cons.prems(3) by (auto simp: a stream_def)
  qed
qed (simp add: stream_def)

text \<open>What a receiver of the stream of \<open>xs\<close> is told, by \<open>nla_find\<close> and by \<open>nla_parse\<close> without a policy.\<close>

definition reads_back :: "int \<Rightarrow> bytes \<Rightarrow> (u16 \<times> bytes) list \<Rightarrow> bool" where
  "reads_back maxtype mem xs \<longleftrightarrow>
     (\<exists>tb. nla_parse maxtype mem 0 (int (length mem)) None = Some (Inr tb) \<and>
       (\<forall>as ty data bs. xs = as @ (ty, data) # bs \<longrightarrow>
          nla_len mem (length (stream as)) = Some (int (length data)) \<and>
          rd mem (nla_data (length (stream as))) (length data) = Some data \<and>
          (masked ty \<notin> masked ` fst ` set as \<longrightarrow>
             nla_find mem 0 (int (length mem)) (masked ty) = Some (Some (length (stream as)))) \<and>
          (0 < masked ty \<and> masked ty \<le> maxtype \<and> masked ty \<notin> masked ` fst ` set bs \<longrightarrow>
             tb ! nat (masked ty) = Some (length (stream as))))) \<and>
     (\<forall>k. k \<notin> masked ` fst ` set xs \<longrightarrow> nla_find mem 0 (int (length mem)) k = Some None)"

lemma reads_back_stream:
  assumes "good_attrs xs"
  shows "reads_back maxtype (stream xs) xs"
proof -
  have m: "stream xs = [] @ stream xs @ []" by simp
  note find = nla_find_stream[OF m assms, unfolded list.size]
  note parse = nla_parse_stream[OF m assms, unfolded list.size]
  have first: "takeWhile (\<lambda>a. masked (fst a) \<noteq> masked ty) xs = as"
    if "xs = as @ (ty, data) # bs" "masked ty \<notin> masked ` fst ` set as" for as ty data bs
  proof -
    have "masked (fst x) \<noteq> masked ty" if "x \<in> set as" for x
      using \<open>masked ty \<notin> masked ` fst ` set as\<close> that by (metis image_eqI)
    then show ?thesis by (simp add: \<open>xs = as @ (ty, data) # bs\<close>)
  qed
  have last: "table maxtype 0 xs (replicate (nat (maxtype + 1)) None) ! nat (masked ty) = Some (length (stream as))"
    if "xs = as @ (ty, data) # bs" "0 < masked ty" "masked ty \<le> maxtype" "masked ty \<notin> masked ` fst ` set bs"
    for as ty data bs
    using that table_last[of ty maxtype "replicate (nat (maxtype + 1)) None" bs 0 as data] by simp
  have "\<exists>tb. nla_parse maxtype (stream xs) 0 (int (length (stream xs))) None = Some (Inr tb) \<and>
       (\<forall>as ty data bs. xs = as @ (ty, data) # bs \<longrightarrow>
          nla_len (stream xs) (length (stream as)) = Some (int (length data)) \<and>
          rd (stream xs) (nla_data (length (stream as))) (length data) = Some data \<and>
          (masked ty \<notin> masked ` fst ` set as \<longrightarrow>
             nla_find (stream xs) 0 (int (length (stream xs))) (masked ty) = Some (Some (length (stream as)))) \<and>
          (0 < masked ty \<and> masked ty \<le> maxtype \<and> masked ty \<notin> masked ` fst ` set bs \<longrightarrow>
             tb ! nat (masked ty) = Some (length (stream as))))"
  proof (intro exI conjI allI impI, rule parse)
    fix as ty data bs
    assume xs: "xs = as @ (ty, data) # bs"
    show "nla_len (stream xs) (length (stream as)) = Some (int (length data))"
      "rd (stream xs) (nla_data (length (stream as))) (length data) = Some data"
      using nla_type_in_stream(2,3)[OF m assms xs] by simp_all
    show "nla_find (stream xs) 0 (int (length (stream xs))) (masked ty) = Some (Some (length (stream as)))"
      if "masked ty \<notin> masked ` fst ` set as"
      using find[of "masked ty"] first[OF xs that] by (simp add: xs)
    show "table maxtype 0 xs (replicate (nat (maxtype + 1)) None) ! nat (masked ty) = Some (length (stream as))"
      if "0 < masked ty \<and> masked ty \<le> maxtype \<and> masked ty \<notin> masked ` fst ` set bs"
      using last[OF xs] that by blast
  qed
  then show ?thesis using find by (simp add: reads_back_def)
qed

section \<open>Properties\<close>

text \<open>
  C10: Walking a received attribute stream is safe whatever bytes it holds: \<open>nla_find\<close>, \<open>nla_validate\<close>
  and \<open>nla_parse\<close> terminate and read only inside the \<open>len\<close> bytes they were given, provided the policy
  array covers \<open>maxtype\<close>.
\<close>

theorem netlink_walks_safe:
  assumes "int head + n \<le> int (length mem)" "0 \<le> n" "maxtype < int (length policy)"
  shows "(\<exists>r. nla_find (take (head + nat n) mem) head n k = Some r) \<and>
    (\<exists>r. nla_validate (take (head + nat n) mem) head n maxtype policy = Some r) \<and>
    (\<exists>r. nla_parse maxtype (take (head + nat n) mem) head n (Some policy) = Some r)"
proof -
  let ?m = "take (head + nat n) mem" and ?fin = "head + nat n"
  have fin: "int head + n = int ?fin" "?fin \<le> length ?m" using assms by auto
  note safe = nla_for_each_attr_safe[OF fin, where I = "\<lambda>_. True", OF TrueI]
  have "\<exists>r. nla_find ?m head n k = Some r"
    using safe[of "\<lambda>p _. map_option (\<lambda>t. if t = k then Inl p else Inr ()) (nla_type ?m p)" "()"]
    by (fastforce simp: nla_find_def elim: attr_at_header)
  moreover have "\<exists>r. nla_validate ?m head n maxtype policy = Some r"
    using safe[of "\<lambda>p _. validate_nla ?m p maxtype policy" "()"] validate_nla_safe[OF _ assms(3)]
    by (fastforce simp: nla_validate_def)
  moreover have "\<exists>x. nla_parse_body ?m maxtype (Some policy) q tb = Some x" if "attr_at ?m ?fin q" for q tb
    using validate_nla_safe[OF that assms(3)] that
    by (fastforce simp: nla_parse_body_def elim: attr_at_header split: sum.splits)
  then have "\<exists>r. nla_parse maxtype ?m head n (Some policy) = Some r"
    using safe[of "nla_parse_body ?m maxtype (Some policy)" "replicate (nat (maxtype + 1)) None"]
    by (fastforce simp: nla_parse_def)
  ultimately show ?thesis by blast
qed

theorem netlink_walks_safe_witness:
  "(\<exists>r. nla_find [8, 0, 2, 0, 1, 1, 1, 1] 0 8 2 = Some r) \<and>
    (\<exists>r. nla_validate [8, 0, 2, 0, 1, 1, 1, 1] 0 8 2 (replicate 3 \<lparr>pt_type = NLA_U32, pt_len = 0\<rparr>) = Some r) \<and>
    (\<exists>r. nla_parse 2 [8, 0, 2, 0, 1, 1, 1, 1] 0 8 (Some (replicate 3 \<lparr>pt_type = NLA_U32, pt_len = 0\<rparr>)) = Some r)"
  using netlink_walks_safe[of 0 8 "[8, 0, 2, 0, 1, 1, 1, 1]" 2 "replicate 3 \<lparr>pt_type = NLA_U32, pt_len = 0\<rparr>" 2]
  by simp

text \<open>
  C27: What is put can be found: attributes appended by \<open>nla_put\<close> to an empty buffer either do not fit
  (\<open>-EMSGSIZE\<close>) or read back: \<open>nla_find\<close> returns the first attribute of a type, its payload is the
  payload that was put, \<open>nla_parse\<close> (without a policy) stores the last attribute of every type up to
  \<open>maxtype\<close>, and a type that was not put is not found.
\<close>

theorem netlink_put_find_roundtrip:
  assumes "wf_hdr h 0" "linear_bytes h = []" "good_attrs xs" "length (skb_head h) + 65540 < 2 ^ 31"
  shows "put_all h xs = Some (Inl EMSGSIZE) \<or>
    (\<exists>h'. put_all h xs = Some (Inr h') \<and> reads_back maxtype (linear_bytes h') xs)"
  using put_all_linear[OF assms(1,3,4)] reads_back_stream[OF assms(3)] assms(2) by auto

definition demo_tx :: skb_hdr where
  "demo_tx = demo_hdr\<lparr>skb_head := replicate 32 0, skb_data := 0, skb_tail := 0, skb_len := 0, skb_data_len := 0\<rparr>"

theorem netlink_put_find_roundtrip_witness:
  "put_all demo_tx [(1, [7, 8]), (2, [9])] = Some (Inl EMSGSIZE) \<or>
    (\<exists>h'. put_all demo_tx [(1, [7, 8]), (2, [9])] = Some (Inr h') \<and>
      reads_back 2 (linear_bytes h') [(1, [7, 8]), (2, [9])])"
  by (rule netlink_put_find_roundtrip)
    (simp_all add: demo_tx_def demo_hdr_def wf_hdr_def linear_bytes_def good_attrs_def)


end
