(* ===== verification/Socket_Filter.thy ===== *)
theory Socket_Filter
  imports Netlink_Attributes
begin

text \<open>
  The socket filter (\<open>net/core/filter.c\<close>, \<open>include/linux/filter.h\<close>): the static check
  \<open>sk_chk_filter\<close>, the interpreter \<open>sk_run_filter\<close> with its ancillary loads, the wrapper \<open>sk_filter\<close>
  that trims the packet, and attaching and detaching with the accounting of option memory.

  The labels of the two \<open>switch\<close> statements are the values of \<open>bpf_op\<close>; \<open>label\<close> gives the instruction
  code of each and \<open>decode\<close> is the dispatch.  The interpreter is a partial function: a filter that was
  not checked may loop for ever.  Accesses outside an array are faults.  Shift counts are taken the way
  the target's register shifts take them, from the low byte.  The scratch memory \<open>mem[]\<close> is not
  initialised by the code, so its initial contents are an argument.
\<close>

section \<open>Instruction codes\<close>

definition BPF_LD :: u16 where "BPF_LD = 0x00"
definition BPF_LDX :: u16 where "BPF_LDX = 0x01"
definition BPF_ST :: u16 where "BPF_ST = 0x02"
definition BPF_STX :: u16 where "BPF_STX = 0x03"
definition BPF_ALU :: u16 where "BPF_ALU = 0x04"
definition BPF_JMP :: u16 where "BPF_JMP = 0x05"
definition BPF_RET :: u16 where "BPF_RET = 0x06"
definition BPF_MISC :: u16 where "BPF_MISC = 0x07"
definition BPF_W :: u16 where "BPF_W = 0x00"
definition BPF_H :: u16 where "BPF_H = 0x08"
definition BPF_B :: u16 where "BPF_B = 0x10"
definition BPF_IMM :: u16 where "BPF_IMM = 0x00"
definition BPF_ABS :: u16 where "BPF_ABS = 0x20"
definition BPF_IND :: u16 where "BPF_IND = 0x40"
definition BPF_MEM :: u16 where "BPF_MEM = 0x60"
definition BPF_LEN :: u16 where "BPF_LEN = 0x80"
definition BPF_MSH :: u16 where "BPF_MSH = 0xa0"
definition BPF_ADD :: u16 where "BPF_ADD = 0x00"
definition BPF_SUB :: u16 where "BPF_SUB = 0x10"
definition BPF_MUL :: u16 where "BPF_MUL = 0x20"
definition BPF_DIV :: u16 where "BPF_DIV = 0x30"
definition BPF_OR :: u16 where "BPF_OR = 0x40"
definition BPF_AND :: u16 where "BPF_AND = 0x50"
definition BPF_LSH :: u16 where "BPF_LSH = 0x60"
definition BPF_RSH :: u16 where "BPF_RSH = 0x70"
definition BPF_NEG :: u16 where "BPF_NEG = 0x80"
definition BPF_JA :: u16 where "BPF_JA = 0x00"
definition BPF_JEQ :: u16 where "BPF_JEQ = 0x10"
definition BPF_JGT :: u16 where "BPF_JGT = 0x20"
definition BPF_JGE :: u16 where "BPF_JGE = 0x30"
definition BPF_JSET :: u16 where "BPF_JSET = 0x40"
definition BPF_K :: u16 where "BPF_K = 0x00"
definition BPF_X :: u16 where "BPF_X = 0x08"
definition BPF_A :: u16 where "BPF_A = 0x10"
definition BPF_TAX :: u16 where "BPF_TAX = 0x00"
definition BPF_TXA :: u16 where "BPF_TXA = 0x80"

lemmas bpf_codes =
  BPF_LD_def BPF_LDX_def BPF_ST_def BPF_STX_def BPF_ALU_def BPF_JMP_def BPF_RET_def BPF_MISC_def
  BPF_W_def BPF_H_def BPF_B_def BPF_IMM_def BPF_ABS_def BPF_IND_def BPF_MEM_def BPF_LEN_def
  BPF_MSH_def BPF_ADD_def BPF_SUB_def BPF_MUL_def BPF_DIV_def BPF_OR_def BPF_AND_def BPF_LSH_def
  BPF_RSH_def BPF_NEG_def BPF_JA_def BPF_JEQ_def BPF_JGT_def BPF_JGE_def BPF_JSET_def BPF_K_def
  BPF_X_def BPF_A_def BPF_TAX_def BPF_TXA_def

definition BPF_CLASS :: "u16 \<Rightarrow> u16" where "BPF_CLASS code = code AND 0x07"
definition BPF_MAXINSNS :: nat where "BPF_MAXINSNS = 4096"
definition BPF_MEMWORDS :: nat where "BPF_MEMWORDS = 16"
definition SKF_AD_OFF :: int where "SKF_AD_OFF = - 0x1000"
definition SKF_NET_OFF :: int where "SKF_NET_OFF = - 0x100000"
definition SKF_LL_OFF :: int where "SKF_LL_OFF = - 0x200000"

record sock_filter =
  sf_code :: u16
  sf_jt :: u8
  sf_jf :: u8
  sf_k :: u32

datatype bpf_src = Src_K | Src_X
datatype alu_op = Op_ADD | Op_SUB | Op_MUL | Op_DIV | Op_AND | Op_OR | Op_LSH | Op_RSH
datatype jmp_op = Op_JGT | Op_JGE | Op_JEQ | Op_JSET
datatype ld_size = Sz_W | Sz_H | Sz_B

datatype bpf_op = Alu alu_op bpf_src | Neg | Ja | Jmp jmp_op bpf_src | LdAbs ld_size | LdInd ld_size
  | LdLen | LdxLen | LdxMsh | LdImm | LdxImm | LdMem | LdxMem | Tax | Txa | RetK | RetA | St | Stx

fun src_code :: "bpf_src \<Rightarrow> u16" where
  "src_code Src_K = BPF_K"
| "src_code Src_X = BPF_X"

fun alu_code :: "alu_op \<Rightarrow> u16" where
  "alu_code Op_ADD = BPF_ADD"
| "alu_code Op_SUB = BPF_SUB"
| "alu_code Op_MUL = BPF_MUL"
| "alu_code Op_DIV = BPF_DIV"
| "alu_code Op_AND = BPF_AND"
| "alu_code Op_OR = BPF_OR"
| "alu_code Op_LSH = BPF_LSH"
| "alu_code Op_RSH = BPF_RSH"

fun jmp_code :: "jmp_op \<Rightarrow> u16" where
  "jmp_code Op_JGT = BPF_JGT"
| "jmp_code Op_JGE = BPF_JGE"
| "jmp_code Op_JEQ = BPF_JEQ"
| "jmp_code Op_JSET = BPF_JSET"

fun size_code :: "ld_size \<Rightarrow> u16" where
  "size_code Sz_W = BPF_W"
| "size_code Sz_H = BPF_H"
| "size_code Sz_B = BPF_B"

fun label :: "bpf_op \<Rightarrow> u16" where
  "label (Alu a s) = BPF_ALU OR alu_code a OR src_code s"
| "label Neg = BPF_ALU OR BPF_NEG"
| "label Ja = BPF_JMP OR BPF_JA"
| "label (Jmp j s) = BPF_JMP OR jmp_code j OR src_code s"
| "label (LdAbs z) = BPF_LD OR size_code z OR BPF_ABS"
| "label (LdInd z) = BPF_LD OR size_code z OR BPF_IND"
| "label LdLen = BPF_LD OR BPF_W OR BPF_LEN"
| "label LdxLen = BPF_LDX OR BPF_W OR BPF_LEN"
| "label LdxMsh = BPF_LDX OR BPF_B OR BPF_MSH"
| "label LdImm = BPF_LD OR BPF_IMM"
| "label LdxImm = BPF_LDX OR BPF_IMM"
| "label LdMem = BPF_LD OR BPF_MEM"
| "label LdxMem = BPF_LDX OR BPF_MEM"
| "label Tax = BPF_MISC OR BPF_TAX"
| "label Txa = BPF_MISC OR BPF_TXA"
| "label RetK = BPF_RET OR BPF_K"
| "label RetA = BPF_RET OR BPF_A"
| "label St = BPF_ST"
| "label Stx = BPF_STX"

definition all_ops :: "bpf_op list" where
  "all_ops =
     concat (map (\<lambda>a. [Alu a Src_K, Alu a Src_X]) [Op_ADD, Op_SUB, Op_MUL, Op_DIV, Op_AND, Op_OR, Op_LSH, Op_RSH]) @
     [Neg, Ja] @ concat (map (\<lambda>j. [Jmp j Src_K, Jmp j Src_X]) [Op_JGT, Op_JGE, Op_JEQ, Op_JSET]) @
     map LdAbs [Sz_W, Sz_H, Sz_B] @ map LdInd [Sz_W, Sz_H, Sz_B] @
     [LdLen, LdxLen, LdxMsh, LdImm, LdxImm, LdMem, LdxMem, Tax, Txa, RetK, RetA, St, Stx]"

definition decode :: "u16 \<Rightarrow> bpf_op option" where
  "decode c = List.find (\<lambda>op. label op = c) all_ops"

section \<open>Loads from the packet\<close>

definition load_pointer_u :: "skb_hdr \<Rightarrow> int \<Rightarrow> int option" where
  "load_pointer_u h k =
     (let ptr = (if k \<ge> SKF_NET_OFF then Some (skb_network_header h + k - SKF_NET_OFF)
                 else if k \<ge> SKF_LL_OFF then Some (skb_mac_header h + k - SKF_LL_OFF) else None) in
      case ptr of
        None \<Rightarrow> None
      | Some ptr \<Rightarrow> if ptr \<ge> 0 \<and> ptr < int (skb_tail h) then Some ptr else None)"

text \<open>The bytes a caller reads behind the returned pointer; the inner \<open>None\<close> is the null pointer.\<close>

definition load_pointer :: "sk_buff \<Rightarrow> int \<Rightarrow> int \<Rightarrow> bytes option option" where
  "load_pointer skb k n =
     (if k \<ge> 0 then skb_header_pointer skb k n
      else if k \<ge> SKF_AD_OFF then Some None
      else case load_pointer_u (skb_hd skb) k of
          None \<Rightarrow> Some None
        | Some ptr \<Rightarrow> map_option Some (rdi (skb_head (skb_hd skb)) ptr n))"

fun ld_bytes :: "ld_size \<Rightarrow> int" where
  "ld_bytes Sz_W = 4"
| "ld_bytes Sz_H = 2"
| "ld_bytes Sz_B = 1"

fun get_unaligned_be :: "ld_size \<Rightarrow> bytes \<Rightarrow> u32" where
  "get_unaligned_be Sz_W bs = be32_to_cpu bs"
| "get_unaligned_be Sz_H bs = ucast (be16_to_cpu bs)"
| "get_unaligned_be Sz_B bs = ucast (bs ! 0)"

definition ntohs :: "u16 \<Rightarrow> u16" where
  "ntohs w = push_bit 8 w OR drop_bit 8 w"

section \<open>The interpreter\<close>

record bpf_state =
  st_pc :: int
  st_A :: u32
  st_X :: u32
  st_mem :: "u32 list"

datatype bpf_fault = Bad_pc | Bad_mem | Div_by_zero | Oob_read

text \<open>\<open>continue\<close>, \<open>return\<close>, and the default label, which warns and returns.\<close>

datatype outcome = Continue bpf_state | Return u32 | Warn u32 | Fault bpf_fault

definition arm_lsl :: "u32 \<Rightarrow> u32 \<Rightarrow> u32" where
  "arm_lsl a n = push_bit (unat (n AND 0xff)) a"

definition arm_lsr :: "u32 \<Rightarrow> u32 \<Rightarrow> u32" where
  "arm_lsr a n = drop_bit (unat (n AND 0xff)) a"

fun alu :: "alu_op \<Rightarrow> u32 \<Rightarrow> u32 \<Rightarrow> u32" where
  "alu Op_ADD a b = a + b"
| "alu Op_SUB a b = a - b"
| "alu Op_MUL a b = a * b"
| "alu Op_DIV a b = a div b"
| "alu Op_AND a b = a AND b"
| "alu Op_OR a b = a OR b"
| "alu Op_LSH a b = arm_lsl a b"
| "alu Op_RSH a b = arm_lsr a b"

fun jmp_cond :: "jmp_op \<Rightarrow> u32 \<Rightarrow> u32 \<Rightarrow> bool" where
  "jmp_cond Op_JGT a b = (a > b)"
| "jmp_cond Op_JGE a b = (a \<ge> b)"
| "jmp_cond Op_JEQ a b = (a = b)"
| "jmp_cond Op_JSET a b = (a AND b \<noteq> 0)"

text \<open>The two netlink extensions, on the linear area, with the unsigned arithmetic of the code.\<close>

definition nla_result :: "bpf_state \<Rightarrow> skb_hdr \<Rightarrow> nat option option \<Rightarrow> outcome" where
  "nla_result st h r =
     (case r of
        None \<Rightarrow> Fault Oob_read
      | Some (Some p) \<Rightarrow> Continue (st\<lparr>st_A := word_of_int (int p - int (skb_data h))\<rparr>)
      | Some None \<Rightarrow> Continue (st\<lparr>st_A := 0\<rparr>))"

definition load_nlattr :: "skb_hdr \<Rightarrow> bpf_state \<Rightarrow> outcome" where
  "load_nlattr h st =
     (if skb_is_nonlinear h then Return 0
      else if st_A st > skb_len h - 4 then Return 0
      else nla_result st h
        (nla_find (skb_head h) (skb_data h + unat (st_A st)) (sint (skb_len h - st_A st)) (sint (st_X st))))"

definition load_nlattr_nest :: "skb_hdr \<Rightarrow> bpf_state \<Rightarrow> outcome" where
  "load_nlattr_nest h st =
     (if skb_is_nonlinear h then Return 0
      else if st_A st > skb_len h - 4 then Return 0
      else let nla = skb_data h + unat (st_A st) in
        case nla_len_field (skb_head h) nla of
          None \<Rightarrow> Fault Oob_read
        | Some l \<Rightarrow>
            if ucast l > st_A st - skb_len h then Return 0
            else nla_result st h (nla_find_nested (skb_head h) nla (sint (st_X st))))"

definition load_ancillary :: "skb_hdr \<Rightarrow> int \<Rightarrow> bpf_state \<Rightarrow> outcome" where
  "load_ancillary h k st =
     (let sel = k - SKF_AD_OFF in
      if sel = 0 then Continue (st\<lparr>st_A := ucast (ntohs (skb_protocol h))\<rparr>)
      else if sel = 4 then Continue (st\<lparr>st_A := ucast (skb_pkt_type h)\<rparr>)
      else if sel = 8 then (case skb_dev h of None \<Rightarrow> Return 0 | Some d \<Rightarrow> Continue (st\<lparr>st_A := dev_ifindex d\<rparr>))
      else if sel = 20 then Continue (st\<lparr>st_A := skb_mark h\<rparr>)
      else if sel = 24 then Continue (st\<lparr>st_A := ucast (skb_queue_mapping h)\<rparr>)
      else if sel = 28 then (case skb_dev h of None \<Rightarrow> Return 0 | Some d \<Rightarrow> Continue (st\<lparr>st_A := ucast (dev_type d)\<rparr>))
      else if sel = 12 then load_nlattr h st
      else if sel = 16 then load_nlattr_nest h st
      else Return 0)"

definition do_load :: "sk_buff \<Rightarrow> ld_size \<Rightarrow> int \<Rightarrow> bpf_state \<Rightarrow> outcome" where
  "do_load skb z k st =
     (case load_pointer skb k (ld_bytes z) of
        None \<Rightarrow> Fault Oob_read
      | Some (Some bs) \<Rightarrow> Continue (st\<lparr>st_A := get_unaligned_be z bs\<rparr>)
      | Some None \<Rightarrow> load_ancillary (skb_hd skb) k st)"

definition with_mem :: "bpf_state \<Rightarrow> u32 \<Rightarrow> (u32 \<Rightarrow> bpf_state) \<Rightarrow> outcome" where
  "with_mem st k f = (if unat k < length (st_mem st) then Continue (f (st_mem st ! unat k)) else Fault Bad_mem)"

definition set_mem :: "bpf_state \<Rightarrow> u32 \<Rightarrow> u32 \<Rightarrow> outcome" where
  "set_mem st k v =
     (if unat k < length (st_mem st) then Continue (st\<lparr>st_mem := (st_mem st)[unat k := v]\<rparr>) else Fault Bad_mem)"

definition jump :: "bpf_state \<Rightarrow> int \<Rightarrow> outcome" where
  "jump st d = Continue (st\<lparr>st_pc := signed_take_bit 31 (st_pc st + d)\<rparr>)"

fun operand :: "bpf_src \<Rightarrow> sock_filter \<Rightarrow> bpf_state \<Rightarrow> u32" where
  "operand Src_K f st = sf_k f"
| "operand Src_X f st = st_X st"

definition exec_div :: "bpf_src \<Rightarrow> sock_filter \<Rightarrow> bpf_state \<Rightarrow> outcome" where
  "exec_div s f st =
     (if operand s f st = 0 then (case s of Src_X \<Rightarrow> Return 0 | Src_K \<Rightarrow> Fault Div_by_zero)
      else Continue (st\<lparr>st_A := alu Op_DIV (st_A st) (operand s f st)\<rparr>))"

fun exec :: "sk_buff \<Rightarrow> sock_filter \<Rightarrow> bpf_op \<Rightarrow> bpf_state \<Rightarrow> outcome" where
  "exec skb f (Alu a s) st =
     (if a = Op_DIV then exec_div s f st
      else Continue (st\<lparr>st_A := alu a (st_A st) (operand s f st)\<rparr>))"
| "exec skb f Neg st = Continue (st\<lparr>st_A := - st_A st\<rparr>)"
| "exec skb f Ja st = jump st (uint (sf_k f))"
| "exec skb f (Jmp j s) st =
     jump st (uint (if jmp_cond j (st_A st) (operand s f st) then sf_jt f else sf_jf f))"
| "exec skb f (LdAbs z) st = do_load skb z (sint (sf_k f)) st"
| "exec skb f (LdInd z) st = do_load skb z (sint (st_X st + sf_k f)) st"
| "exec skb f LdLen st = Continue (st\<lparr>st_A := skb_len (skb_hd skb)\<rparr>)"
| "exec skb f LdxLen st = Continue (st\<lparr>st_X := skb_len (skb_hd skb)\<rparr>)"
| "exec skb f LdxMsh st =
     (case load_pointer skb (sint (sf_k f)) 1 of
        None \<Rightarrow> Fault Oob_read
      | Some (Some bs) \<Rightarrow> Continue (st\<lparr>st_X := push_bit 2 (ucast (bs ! 0 AND 0xf))\<rparr>)
      | Some None \<Rightarrow> Return 0)"
| "exec skb f LdImm st = Continue (st\<lparr>st_A := sf_k f\<rparr>)"
| "exec skb f LdxImm st = Continue (st\<lparr>st_X := sf_k f\<rparr>)"
| "exec skb f LdMem st = with_mem st (sf_k f) (\<lambda>v. st\<lparr>st_A := v\<rparr>)"
| "exec skb f LdxMem st = with_mem st (sf_k f) (\<lambda>v. st\<lparr>st_X := v\<rparr>)"
| "exec skb f Tax st = Continue (st\<lparr>st_X := st_A st\<rparr>)"
| "exec skb f Txa st = Continue (st\<lparr>st_A := st_X st\<rparr>)"
| "exec skb f RetK st = Return (sf_k f)"
| "exec skb f RetA st = Return (st_A st)"
| "exec skb f St st = set_mem st (sf_k f) (st_A st)"
| "exec skb f Stx st = set_mem st (sf_k f) (st_X st)"

definition bpf_step :: "sk_buff \<Rightarrow> sock_filter list \<Rightarrow> bpf_state \<Rightarrow> outcome" where
  "bpf_step skb fs st =
     (if st_pc st < 0 then Fault Bad_pc
      else let f = fs ! nat (st_pc st) in
        case decode (sf_code f) of None \<Rightarrow> Warn 0 | Some op \<Rightarrow> exec skb f op st)"

partial_function (option) run_loop :: "sk_buff \<Rightarrow> sock_filter list \<Rightarrow> bpf_state \<Rightarrow> outcome option" where
  "run_loop skb fs st =
     (if st_pc st < int (length fs) then
        (case bpf_step skb fs st of
           Continue st \<Rightarrow> run_loop skb fs (st\<lparr>st_pc := st_pc st + 1\<rparr>)
         | res \<Rightarrow> Some res)
      else Some (Return 0))"

definition sk_run_filter :: "sk_buff \<Rightarrow> sock_filter list \<Rightarrow> u32 list \<Rightarrow> outcome option" where
  "sk_run_filter skb fs mem = run_loop skb fs \<lparr>st_pc = 0, st_A = 0, st_X = 0, st_mem = mem\<rparr>"

section \<open>The static check\<close>

fun chk_insn :: "nat \<Rightarrow> nat \<Rightarrow> sock_filter \<Rightarrow> bpf_op \<Rightarrow> bool" where
  "chk_insn flen pc f (Alu a s) = (\<not> (a = Op_DIV \<and> s = Src_K \<and> sf_k f = 0))"
| "chk_insn flen pc f LdMem = (unat (sf_k f) < BPF_MEMWORDS)"
| "chk_insn flen pc f LdxMem = (unat (sf_k f) < BPF_MEMWORDS)"
| "chk_insn flen pc f St = (unat (sf_k f) < BPF_MEMWORDS)"
| "chk_insn flen pc f Stx = (unat (sf_k f) < BPF_MEMWORDS)"
| "chk_insn flen pc f Ja = (unat (sf_k f) < flen - pc - 1)"
| "chk_insn flen pc f (Jmp j s) = (pc + unat (sf_jt f) + 1 < flen \<and> pc + unat (sf_jf f) + 1 < flen)"
| "chk_insn flen pc f _ = True"

fun chk_loop :: "nat \<Rightarrow> nat \<Rightarrow> sock_filter list \<Rightarrow> bool" where
  "chk_loop flen pc [] = True"
| "chk_loop flen pc (f # fs) =
     ((case decode (sf_code f) of None \<Rightarrow> False | Some op \<Rightarrow> chk_insn flen pc f op) \<and> chk_loop flen (Suc pc) fs)"

definition sk_chk_filter :: "sock_filter list \<Rightarrow> errno + unit" where
  "sk_chk_filter fs =
     (let flen = length fs in
      if flen = 0 \<or> flen > BPF_MAXINSNS then Inl EINVAL
      else if \<not> chk_loop flen 0 fs then Inl EINVAL
      else if BPF_CLASS (sf_code (fs ! (flen - 1))) = BPF_RET then Inr () else Inl EINVAL)"

section \<open>The dispatch\<close>

lemma decode_label: "decode (label op) = Some op"
proof (cases op)
  case (Alu a s)
  then show ?thesis by (cases a; cases s) (simp_all add: decode_def all_ops_def bpf_codes)
next
  case (Jmp j s)
  then show ?thesis by (cases j; cases s) (simp_all add: decode_def all_ops_def bpf_codes)
next
  case (LdAbs z)
  then show ?thesis by (cases z) (simp_all add: decode_def all_ops_def bpf_codes)
next
  case (LdInd z)
  then show ?thesis by (cases z) (simp_all add: decode_def all_ops_def bpf_codes)
qed (simp_all add: decode_def all_ops_def bpf_codes)

lemma decode_Some: "decode c = Some op \<longleftrightarrow> label op = c"
  using decode_label by (auto simp: decode_def find_Some_iff)

lemma decode_ret:
  assumes "decode c = Some op" "BPF_CLASS c = BPF_RET"
  shows "op = RetK \<or> op = RetA"
proof -
  have c: "label op AND 7 = 6" using assms by (simp add: decode_Some BPF_CLASS_def BPF_RET_def)
  show ?thesis
  proof (cases op)
    case (Alu a s)
    then show ?thesis using c by (cases a; cases s) (simp_all add: bpf_codes)
  next
    case (Jmp j s)
    then show ?thesis using c by (cases j; cases s) (simp_all add: bpf_codes)
  next
    case (LdAbs z)
    then show ?thesis using c by (cases z) (simp_all add: bpf_codes)
  next
    case (LdInd z)
    then show ?thesis using c by (cases z) (simp_all add: bpf_codes)
  qed (use c in \<open>simp_all add: bpf_codes\<close>)
qed

section \<open>Checked filters run safely\<close>

lemma chk_loop_nth:
  "chk_loop flen pc fs \<Longrightarrow> i < length fs \<Longrightarrow>
   \<exists>op. decode (sf_code (fs ! i)) = Some op \<and> chk_insn flen (pc + i) (fs ! i) op"
proof (induction fs arbitrary: pc i)
  case (Cons f fs)
  then show ?case by (cases i) (fastforce split: option.splits)+
qed simp

text \<open>
  What one instruction of a checked filter may do: go on, with the scratch memory in place and the
  program counter where it was or moved forward inside the filter, return, or read too far.
\<close>

definition step_ok :: "nat \<Rightarrow> bpf_state \<Rightarrow> outcome \<Rightarrow> bool" where
  "step_ok flen st res \<longleftrightarrow>
     (case res of
        Continue st' \<Rightarrow> length (st_mem st') = BPF_MEMWORDS \<and>
          (st_pc st' = st_pc st \<or> st_pc st \<le> st_pc st' \<and> st_pc st' + 1 < int flen)
      | Return v \<Rightarrow> True
      | Warn v \<Rightarrow> False
      | Fault x \<Rightarrow> x = Oob_read)"

lemma load_ancillary_ok: "length (st_mem st) = BPF_MEMWORDS \<Longrightarrow> step_ok flen st (load_ancillary h k st)"
  by (auto simp: load_ancillary_def load_nlattr_def load_nlattr_nest_def nla_result_def step_ok_def Let_def
      split: option.splits)

lemma do_load_ok: "length (st_mem st) = BPF_MEMWORDS \<Longrightarrow> step_ok flen st (do_load skb z k st)"
  using load_ancillary_ok by (auto simp: do_load_def step_ok_def split: option.splits)

lemma jump_ok:
  assumes "0 \<le> st_pc st" "0 \<le> d" "st_pc st + d + 1 < int flen" "flen \<le> BPF_MAXINSNS"
    "length (st_mem st) = BPF_MEMWORDS"
  shows "step_ok flen st (jump st d)"
proof -
  have "signed_take_bit 31 (st_pc st + d) = st_pc st + d"
    using assms by (simp add: signed_take_bit_int_eq_self_iff BPF_MAXINSNS_def)
  then show ?thesis using assms by (simp add: jump_def step_ok_def)
qed

lemma exec_ok:
  assumes "chk_insn flen (nat (st_pc st)) f op" "0 \<le> st_pc st" "st_pc st < int flen" "flen \<le> BPF_MAXINSNS"
    "length (st_mem st) = BPF_MEMWORDS"
  shows "step_ok flen st (exec skb f op st)"
proof (cases op)
  case (Alu a s)
  then show ?thesis using assms by (cases s) (auto simp: exec_div_def step_ok_def)
next
  case Ja
  have "int (unat (sf_k f)) = uint (sf_k f)" by simp
  moreover have "unat (sf_k f) < flen - nat (st_pc st) - 1" using assms(1) Ja by simp
  ultimately have "st_pc st + uint (sf_k f) + 1 < int flen" using assms(2) by linarith
  then show ?thesis using assms Ja by (simp add: jump_ok)
next
  case (Jmp j s)
  have "int (unat (sf_jt f)) = uint (sf_jt f)" "int (unat (sf_jf f)) = uint (sf_jf f)" by simp_all
  moreover have "nat (st_pc st) + unat (sf_jt f) + 1 < flen" "nat (st_pc st) + unat (sf_jf f) + 1 < flen"
    using assms(1) Jmp by simp_all
  ultimately have "st_pc st + uint (sf_jt f) + 1 < int flen" "st_pc st + uint (sf_jf f) + 1 < int flen"
    using assms(2) by linarith+
  then show ?thesis using assms Jmp by (simp add: jump_ok)
next
  case (LdAbs z)
  then show ?thesis using assms by (simp add: do_load_ok)
next
  case (LdInd z)
  then show ?thesis using assms by (simp add: do_load_ok)
qed (use assms in \<open>auto simp: with_mem_def set_mem_def step_ok_def split: option.splits\<close>)

lemma bpf_step_ok:
  assumes "chk_loop (length fs) 0 fs" "length fs \<le> BPF_MAXINSNS"
    "0 \<le> st_pc st" "st_pc st < int (length fs)" "length (st_mem st) = BPF_MEMWORDS"
  shows "step_ok (length fs) st (bpf_step skb fs st)"
proof -
  obtain op where "decode (sf_code (fs ! nat (st_pc st))) = Some op"
      "chk_insn (length fs) (nat (st_pc st)) (fs ! nat (st_pc st)) op"
    using chk_loop_nth[OF assms(1), of "nat (st_pc st)"] assms(3,4) by (auto simp: nat_less_iff)
  then show ?thesis using exec_ok assms by (simp add: bpf_step_def Let_def)
qed

lemma bpf_step_last:
  assumes "chk_loop (length fs) 0 fs" "BPF_CLASS (sf_code (fs ! (length fs - 1))) = BPF_RET"
    "fs \<noteq> []" "st_pc st = int (length fs) - 1"
  shows "\<exists>v. bpf_step skb fs st = Return v"
proof -
  have pc: "nat (st_pc st) = length fs - 1" "0 \<le> st_pc st" using assms(3,4) by (auto simp: Suc_le_eq)
  obtain op where "decode (sf_code (fs ! (length fs - 1))) = Some op"
    using chk_loop_nth[OF assms(1), of "length fs - 1"] assms(3) by auto
  moreover have "op = RetK \<or> op = RetA" using decode_ret[OF calculation assms(2)] .
  ultimately show ?thesis using pc by (auto simp: bpf_step_def Let_def)
qed

lemma run_loop_ok:
  assumes chk: "chk_loop (length fs) 0 fs" "length fs \<le> BPF_MAXINSNS" "fs \<noteq> []"
      "BPF_CLASS (sf_code (fs ! (length fs - 1))) = BPF_RET"
    and "0 \<le> st_pc st" "st_pc st < int (length fs)" "length (st_mem st) = BPF_MEMWORDS"
  shows "(\<exists>v. run_loop skb fs st = Some (Return v)) \<or> run_loop skb fs st = Some (Fault Oob_read)"
  using assms(5-)
proof (induction "nat (int (length fs) - st_pc st)" arbitrary: st rule: less_induct)
  case less
  have ok: "step_ok (length fs) st (bpf_step skb fs st)" using bpf_step_ok[OF chk(1,2)] less.prems by blast
  show ?case
  proof (cases "bpf_step skb fs st")
    case (Continue st')
    let ?st = "st'\<lparr>st_pc := st_pc st' + 1\<rparr>"
    have "st_pc st \<noteq> int (length fs) - 1" using bpf_step_last[OF chk(1,4,3), of st skb] Continue by auto
    then have "st_pc st < st_pc ?st" "st_pc ?st < int (length fs)" "length (st_mem ?st) = BPF_MEMWORDS"
      using ok Continue less.prems by (auto simp: step_ok_def)
    then have "(\<exists>v. run_loop skb fs ?st = Some (Return v)) \<or> run_loop skb fs ?st = Some (Fault Oob_read)"
      using less.prems by (intro less.hyps) auto
    then show ?thesis using Continue less.prems by (simp add: run_loop.simps[of skb fs st])
  qed (use ok less.prems in \<open>auto simp: step_ok_def run_loop.simps[of skb fs st]\<close>)
qed

section \<open>When no load reads too far\<close>







lemma checked_parts:
  assumes "sk_chk_filter fs = Inr ()"
  shows "chk_loop (length fs) 0 fs" "length fs \<le> BPF_MAXINSNS" "fs \<noteq> []"
    "BPF_CLASS (sf_code (fs ! (length fs - 1))) = BPF_RET"
  using assms by (auto simp: sk_chk_filter_def Let_def split: if_splits)

lemma sk_run_filter_ok:
  assumes "sk_chk_filter fs = Inr ()" "length mem = BPF_MEMWORDS"
  shows "(\<exists>v. sk_run_filter skb fs mem = Some (Return v)) \<or> sk_run_filter skb fs mem = Some (Fault Oob_read)"
  using run_loop_ok[OF checked_parts[OF assms(1)]] assms(2) checked_parts(3)[OF assms(1)]
  by (simp add: sk_run_filter_def)


section \<open>Filtering a packet\<close>


section \<open>Attaching and detaching\<close>

record sock =
  sk_flt :: "sock_filter list option"
  sk_omem_alloc :: int

text \<open>\<open>sizeof(struct sock_filter)\<close> is 8 and \<open>sizeof(struct sk_filter)\<close> is 16 on the 32-bit target.\<close>

definition sk_filter_len :: "sock_filter list \<Rightarrow> int" where
  "sk_filter_len fs = int (length fs) * 8 + 16"

text \<open>\<open>kmalloc_ok\<close> says whether \<open>kmalloc\<close> finds memory.\<close>

definition sock_kmalloc :: "int \<Rightarrow> bool \<Rightarrow> sock \<Rightarrow> int \<Rightarrow> bool \<times> sock" where
  "sock_kmalloc optmem_max kmalloc_ok sk n =
     (if n \<le> optmem_max \<and> sk_omem_alloc sk + n < optmem_max then
        let sk = sk\<lparr>sk_omem_alloc := sk_omem_alloc sk + n\<rparr> in
        if kmalloc_ok then (True, sk) else (False, sk\<lparr>sk_omem_alloc := sk_omem_alloc sk - n\<rparr>)
      else (False, sk))"

definition sock_kfree_s :: "sock \<Rightarrow> int \<Rightarrow> sock" where
  "sock_kfree_s sk n = sk\<lparr>sk_omem_alloc := sk_omem_alloc sk - n\<rparr>"

definition sk_filter_uncharge :: "sock \<Rightarrow> sock_filter list \<Rightarrow> sock" where
  "sk_filter_uncharge sk fp = sk\<lparr>sk_omem_alloc := sk_omem_alloc sk - sk_filter_len fp\<rparr>"

definition sk_filter_delayed_uncharge :: "sock \<Rightarrow> sock_filter list \<Rightarrow> sock" where
  "sk_filter_delayed_uncharge sk fp = sk\<lparr>sk_omem_alloc := sk_omem_alloc sk - sk_filter_len fp\<rparr>"

text \<open>
  The user's \<open>struct sock_fprog\<close>: its length field, and what copying that many instructions from the
  user's pointer yields; \<open>Some None\<close> is a faulting copy and \<open>None\<close> the null pointer.
\<close>

definition sk_attach_filter ::
    "int \<Rightarrow> bool \<Rightarrow> u16 \<Rightarrow> sock_filter list option option \<Rightarrow> sock \<Rightarrow> (errno + unit) \<times> sock" where
  "sk_attach_filter optmem_max kmalloc_ok n user sk =
     (case user of
        None \<Rightarrow> (Inl EINVAL, sk)
      | Some copy \<Rightarrow>
          (let fsize = uint n * 8; (ok, sk) = sock_kmalloc optmem_max kmalloc_ok sk (fsize + 16) in
           if \<not> ok then (Inl ENOMEM, sk)
           else case copy of
               None \<Rightarrow> (Inl EFAULT, sock_kfree_s sk (fsize + 16))
             | Some insns \<Rightarrow>
                 (case sk_chk_filter insns of
                    Inl e \<Rightarrow> (Inl e, sk_filter_uncharge sk insns)
                  | Inr _ \<Rightarrow>
                      let old = sk_flt sk; sk = sk\<lparr>sk_flt := Some insns\<rparr> in
                      (case old of
                         None \<Rightarrow> (Inr (), sk)
                       | Some old_fp \<Rightarrow> (Inr (), sk_filter_delayed_uncharge sk old_fp)))))"

definition sk_detach_filter :: "sock \<Rightarrow> (errno + unit) \<times> sock" where
  "sk_detach_filter sk =
     (case sk_flt sk of
        None \<Rightarrow> (Inl ENOENT, sk)
      | Some fp \<Rightarrow> (Inr (), sk_filter_delayed_uncharge (sk\<lparr>sk_flt := None\<rparr>) fp))"

text \<open>The life of a socket's filter: attaching and detaching in any order, with any outcome.\<close>

inductive sock_step :: "sock \<Rightarrow> sock \<Rightarrow> bool" where
  attach: "(\<And>insns. user = Some (Some insns) \<Longrightarrow> length insns = unat n) \<Longrightarrow>
     sk_attach_filter optmem_max kmalloc_ok n user sk = (r, sk') \<Longrightarrow> sock_step sk sk'"
| detach: "sk_detach_filter sk = (r, sk') \<Longrightarrow> sock_step sk sk'"

definition charge :: "sock \<Rightarrow> int" where
  "charge sk = (case sk_flt sk of None \<Rightarrow> 0 | Some fp \<Rightarrow> sk_filter_len fp)"

definition filter_checked :: "sock \<Rightarrow> bool" where
  "filter_checked sk \<longleftrightarrow> (\<forall>fp. sk_flt sk = Some fp \<longrightarrow> sk_chk_filter fp = Inr ())"

lemma sock_step_inv:
  assumes "sock_step sk sk'" "filter_checked sk"
  shows "filter_checked sk' \<and> sk_omem_alloc sk' - charge sk' = sk_omem_alloc sk - charge sk"
  using assms
proof (induction rule: sock_step.induct)
  case (attach user n optmem_max kmalloc_ok sk r sk')
  have len: "sk_filter_len insns = uint n * 8 + 16" if "user = Some (Some insns)" for insns
    using attach.hyps(1)[OF that] by (simp add: sk_filter_len_def)
  show ?case
    using attach.hyps(2) attach.prems len
    by (auto simp: sk_attach_filter_def sock_kmalloc_def sock_kfree_s_def sk_filter_uncharge_def
        sk_filter_delayed_uncharge_def filter_checked_def charge_def Let_def split: option.splits if_splits sum.splits)
next
  case (detach sk r sk')
  then show ?case
    by (auto simp: sk_detach_filter_def sk_filter_delayed_uncharge_def filter_checked_def charge_def split: option.splits)
qed

section \<open>Properties\<close>

text \<open>
  C2: A filter that \<open>sk_chk_filter\<close> accepts always terminates in \<open>sk_run_filter\<close>, on every packet: it
  returns, without leaving the instruction array or the scratch memory, dividing by zero or meeting an
  unknown instruction.  The only access that can go wrong is a packet load.
\<close>

theorem checked_filter_terminates:
  assumes "sk_chk_filter fs = Inr ()" "length mem = BPF_MEMWORDS"
  shows "(\<exists>v. sk_run_filter skb fs mem = Some (Return v)) \<or> sk_run_filter skb fs mem = Some (Fault Oob_read)"
  using assms by (rule sk_run_filter_ok)

definition stmt :: "bpf_op \<Rightarrow> u32 \<Rightarrow> sock_filter" where
  "stmt op k = \<lparr>sf_code = label op, sf_jt = 0, sf_jf = 0, sf_k = k\<rparr>"

lemma stmt_simps [simp]: "sf_code (stmt op k) = label op" "sf_k (stmt op k) = k"
  by (simp_all add: stmt_def)

lemma chk_two:
  assumes "chk_insn 2 0 (stmt op k) op"
  shows "sk_chk_filter [stmt op k, stmt RetA 0] = Inr ()"
proof -
  have "BPF_CLASS (label RetA) = BPF_RET" by (simp add: BPF_CLASS_def bpf_codes)
  then show ?thesis
    using assms by (simp add: sk_chk_filter_def decode_label BPF_MAXINSNS_def numeral_2_eq_2 del: label.simps)
qed

theorem checked_filter_terminates_witness:
  "(\<exists>v. sk_run_filter demo_skb [stmt LdMem 3, stmt RetA 0] (replicate 16 0) = Some (Return v)) \<or>
    sk_run_filter demo_skb [stmt LdMem 3, stmt RetA 0] (replicate 16 0) = Some (Fault Oob_read)"
  by (rule checked_filter_terminates) (simp_all add: chk_two BPF_MEMWORDS_def)


definition demo_linear :: "bytes \<Rightarrow> sk_buff" where
  "demo_linear bs = Sk_buff (demo_hdr\<lparr>skb_head := bs @ [0, 0, 0], skb_data := 0, skb_tail := length bs,
     skb_len := of_nat (length bs), skb_data_len := 0\<rparr>) [] []"


text \<open>
  C38: The nested netlink extension reads outside the packet: its length check subtracts the wrong way
  round, so a checked filter that the kernel accepts makes \<open>nla_find_nested\<close> walk past the buffer.
\<close>

theorem nlattr_nest_overread:
  "sk_chk_filter [stmt (LdAbs Sz_W) (word_of_int (SKF_AD_OFF + 16)), stmt RetA 0] = Inr () \<and>
   wf_skb (demo_linear [255, 255, 0, 0, 8, 0, 1, 0]) \<and>
   sk_run_filter (demo_linear [255, 255, 0, 0, 8, 0, 1, 0])
     [stmt (LdAbs Sz_W) (word_of_int (SKF_AD_OFF + 16)), stmt RetA 0] (replicate 16 0) = Some (Fault Oob_read)"
proof -
  let ?skb = "demo_linear [255, 255, 0, 0, 8, 0, 1, 0]"
  let ?st = "\<lparr>st_pc = 0, st_A = 0, st_X = 0, st_mem = replicate 16 0\<rparr>"
  let ?h = "skb_hd ?skb"
  have h: "skb_head ?h = [255, 255, 0, 0, 8, 0, 1, 0, 0, 0, 0]" "skb_data ?h = 0" "skb_len ?h = 8" "skb_data_len ?h = 0"
    by (simp_all add: demo_linear_def)
  have "nla_find (skb_head ?h) 4 65531 0 = None"
    by (simp add: nla_find_def nla_for_each_attr.simps nla_ok_def nla_len_field_def nla_type_def nla_type_field_def
        nla_next_def rd_def h le16_to_cpu_def NLA_ALIGN_eq)
  then have "load_nlattr_nest ?h ?st = Fault Oob_read"
    by (simp add: load_nlattr_nest_def skb_is_nonlinear_def h nla_len_field_def rd_def le16_to_cpu_def
        nla_result_def nla_find_nested_def nla_len_def nla_data_def NLA_HDRLEN_def)
  then have "do_load ?skb Sz_W (SKF_AD_OFF + 16) ?st = Fault Oob_read"
    by (simp add: do_load_def load_pointer_def load_ancillary_def SKF_AD_OFF_def)
  then have "run_loop ?skb [stmt (LdAbs Sz_W) (word_of_int (SKF_AD_OFF + 16)), stmt RetA 0] ?st = Some (Fault Oob_read)"
    by (simp add: run_loop.simps[of ?skb] bpf_step_def decode_label SKF_AD_OFF_def del: label.simps)
  then show ?thesis
    by (simp add: sk_run_filter_def chk_two) (simp add: demo_linear_def demo_hdr_def wf_hdr_def)
qed

text \<open>
  C39: The scratch memory leaks the kernel stack: a checked filter that loads a word it never stored returns
  what the uninitialised \<open>mem[]\<close> happens to hold.
\<close>

theorem scratch_memory_leak:
  assumes "length mem = BPF_MEMWORDS" "unat k < BPF_MEMWORDS"
  shows "sk_chk_filter [stmt LdMem k, stmt RetA 0] = Inr () \<and>
    sk_run_filter skb [stmt LdMem k, stmt RetA 0] mem = Some (Return (mem ! unat k))"
  using assms
  by (simp add: chk_two sk_run_filter_def run_loop.simps[of skb] bpf_step_def decode_label with_mem_def del: label.simps)

theorem scratch_memory_leak_witness:
  "sk_chk_filter [stmt LdMem 5, stmt RetA 0] = Inr () \<and>
    sk_run_filter demo_skb [stmt LdMem 5, stmt RetA 0] (replicate 16 0xdeadbeef) = Some (Return 0xdeadbeef)"
  using scratch_memory_leak[of "replicate 16 0xdeadbeef" 5 demo_skb] by (simp add: BPF_MEMWORDS_def)

text \<open>
  C26: Through any sequence of attach and detach calls, successful or not, the attached filter is one that
  \<open>sk_chk_filter\<close> accepted, and the option memory charged to the socket is exactly what it was before plus
  the size of the filter now attached: every error path gives back what it charged.
\<close>

theorem attached_filter_invariant:
  assumes "sock_step\<^sup>*\<^sup>* sk sk'" "filter_checked sk"
  shows "filter_checked sk' \<and> sk_omem_alloc sk' - charge sk' = sk_omem_alloc sk - charge sk"
  using assms by (induction rule: rtranclp_induct) (auto dest: sock_step_inv)

theorem attached_filter_invariant_witness:
  "\<exists>sk. sk_attach_filter 10240 True 2 (Some (Some [stmt LdMem 5, stmt RetA 0])) \<lparr>sk_flt = None, sk_omem_alloc = 100\<rparr> =
      (Inr (), sk) \<and> filter_checked sk \<and> sk_omem_alloc sk - charge sk = 100"
proof -
  let ?sk = "\<lparr>sk_flt = None, sk_omem_alloc = 100\<rparr>"
  obtain r sk where s: "sk_attach_filter 10240 True 2 (Some (Some [stmt LdMem 5, stmt RetA 0])) ?sk = (r, sk)" by fastforce
  then have "sock_step ?sk sk" by (rule sock_step.attach[rotated]) simp
  moreover have "filter_checked ?sk" by (simp add: filter_checked_def)
  moreover have "r = Inr ()"
    using s by (simp add: sk_attach_filter_def sock_kmalloc_def Let_def chk_two BPF_MEMWORDS_def)
  ultimately show ?thesis
    using attached_filter_invariant[OF r_into_rtranclp, of ?sk sk] s by (simp add: charge_def)
qed



end
