(* ===== verification/File_Locks.thy ===== *)
theory File_Locks
  imports Kernel_Prelude
begin

text \<open>
  POSIX record locks, after \<open>fs/locks.c\<close>.  Lock structures live in a store indexed by their
  address, because the code identifies them by pointer, queues waiters on them and, in
  \<open>__posix_lock_file\<close>, lets the variable \<open>request\<close> alias a lock that is already on the inode's
  list.  The list threaded through \<open>fl_next\<close> from \<open>inode->i_flock\<close> is the list \<open>i_flock\<close> of
  the world; a pointer \<open>before\<close> into it is a position.  The other use of \<open>fl_next\<close>, the lock
  a waiter is blocked on, is the field of that name.  The second half shows that
  \<open>__posix_lock_file\<close> implements an update of a map from bytes to lock types.
\<close>

section \<open>Data\<close>

definition F_RDLCK :: u8 where "F_RDLCK = 0"
definition F_WRLCK :: u8 where "F_WRLCK = 1"
definition F_UNLCK :: u8 where "F_UNLCK = 2"
definition F_INPROGRESS :: u8 where "F_INPROGRESS = 16"

definition FL_POSIX :: u8 where "FL_POSIX = 1"
definition FL_FLOCK :: u8 where "FL_FLOCK = 2"
definition FL_ACCESS :: u8 where "FL_ACCESS = 8"
definition FL_EXISTS :: u8 where "FL_EXISTS = 16"
definition FL_LEASE :: u8 where "FL_LEASE = 32"
definition FL_CLOSE :: u8 where "FL_CLOSE = 64"
definition FL_SLEEP :: u8 where "FL_SLEEP = 128"

definition OFFSET_MAX :: int where "OFFSET_MAX = 2 ^ 63 - 1"
definition OFFT_OFFSET_MAX :: int where "OFFT_OFFSET_MAX = 2 ^ 31 - 1"

datatype lock_manager_operations = lease_manager_ops | nlmsvc_lock_operations

record file_lock =
  fl_next :: "nat option"
  fl_block :: "nat list"
  fl_owner :: nat
  fl_flags :: u8
  fl_type :: u8
  fl_pid :: u32
  fl_nspid :: "u32 option"
  fl_file :: "nat option"
  fl_start :: int
  fl_end :: int
  fl_fasync :: bool
  fl_break_time :: u32
  fl_lmops :: "lock_manager_operations option"

datatype lock_event = Wake_up nat | Notify nat | Break_callback nat

record lock_world =
  lk_heap :: "nat \<Rightarrow> file_lock"
  i_flock :: "nat \<Rightarrow> nat list"
  file_lock_list :: "nat list"
  blocked_list :: "nat list"
  lk_events :: "lock_event list"
  lk_bug :: bool

definition IS_POSIX :: "file_lock \<Rightarrow> bool" where
  "IS_POSIX fl \<longleftrightarrow> fl_flags fl AND FL_POSIX \<noteq> 0"

definition IS_FLOCK :: "file_lock \<Rightarrow> bool" where
  "IS_FLOCK fl \<longleftrightarrow> fl_flags fl AND FL_FLOCK \<noteq> 0"

definition IS_LEASE :: "file_lock \<Rightarrow> bool" where
  "IS_LEASE fl \<longleftrightarrow> fl_flags fl AND FL_LEASE \<noteq> 0"

definition has_flag :: "file_lock \<Rightarrow> u8 \<Rightarrow> bool" where
  "has_flag fl f \<longleftrightarrow> fl_flags fl AND f \<noteq> 0"

definition lk_upd :: "lock_world \<Rightarrow> nat \<Rightarrow> (file_lock \<Rightarrow> file_lock) \<Rightarrow> lock_world" where
  "lk_upd w a f = w\<lparr>lk_heap := (lk_heap w)(a := f (lk_heap w a))\<rparr>"

definition locks_init_lock :: file_lock where
  "locks_init_lock =
     \<lparr>fl_next = None, fl_block = [], fl_owner = 0, fl_flags = 0, fl_type = 0, fl_pid = 0,
      fl_nspid = None, fl_file = None, fl_start = 0, fl_end = 0, fl_fasync = False,
      fl_break_time = 0, fl_lmops = None\<rparr>"

section \<open>Allocation, copying and the block lists\<close>

definition locks_release_private :: "file_lock \<Rightarrow> file_lock" where
  "locks_release_private fl = fl\<lparr>fl_lmops := None\<rparr>"

definition locks_free_lock :: "lock_world \<Rightarrow> nat \<Rightarrow> lock_world" where
  "locks_free_lock w a =
     (let w = (if fl_block (lk_heap w a) \<noteq> [] \<or> fl_next (lk_heap w a) \<noteq> None \<or>
                  a \<in> set (file_lock_list w) \<or> a \<in> set (blocked_list w)
               then w\<lparr>lk_bug := True\<rparr> else w)
      in lk_upd w a locks_release_private)"

definition locks_copy_private :: "file_lock \<Rightarrow> file_lock \<Rightarrow> file_lock" where
  "locks_copy_private new fl =
     (case fl_lmops fl of None \<Rightarrow> new | Some ops \<Rightarrow> new\<lparr>fl_lmops := Some ops\<rparr>)"

definition locks_copy_lock_u :: "file_lock \<Rightarrow> file_lock \<Rightarrow> file_lock" where
  "locks_copy_lock_u new fl =
     new\<lparr>fl_owner := fl_owner fl, fl_pid := fl_pid fl, fl_file := None, fl_flags := fl_flags fl,
         fl_type := fl_type fl, fl_start := fl_start fl, fl_end := fl_end fl, fl_lmops := None\<rparr>"

definition locks_copy_lock :: "file_lock \<Rightarrow> file_lock \<Rightarrow> file_lock" where
  "locks_copy_lock new fl =
     locks_copy_private
       ((locks_copy_lock_u (locks_release_private new) fl)
          \<lparr>fl_file := fl_file fl, fl_lmops := fl_lmops fl\<rparr>) fl"

definition assign_type :: "file_lock \<Rightarrow> int \<Rightarrow> file_lock \<times> errno option" where
  "assign_type fl type =
     (if type = uint F_RDLCK \<or> type = uint F_WRLCK \<or> type = uint F_UNLCK
      then (fl\<lparr>fl_type := word_of_int type\<rparr>, None) else (fl, Some EINVAL))"

definition locks_overlap :: "file_lock \<Rightarrow> file_lock \<Rightarrow> bool" where
  "locks_overlap fl1 fl2 \<longleftrightarrow> fl_end fl1 \<ge> fl_start fl2 \<and> fl_end fl2 \<ge> fl_start fl1"

definition nlmsvc_same_owner :: "file_lock \<Rightarrow> file_lock \<Rightarrow> bool" where
  "nlmsvc_same_owner fl1 fl2 \<longleftrightarrow> fl_owner fl1 = fl_owner fl2 \<and> fl_pid fl1 = fl_pid fl2"

definition posix_same_owner :: "file_lock \<Rightarrow> file_lock \<Rightarrow> bool" where
  "posix_same_owner fl1 fl2 =
     (if fl_lmops fl1 = Some nlmsvc_lock_operations
      then fl_lmops fl2 = fl_lmops fl1 \<and> nlmsvc_same_owner fl1 fl2
      else fl_owner fl1 = fl_owner fl2)"

text \<open>Unlinking a waiter takes it off whatever queue holds it.\<close>

definition locks_delete_block_u :: "lock_world \<Rightarrow> nat \<Rightarrow> lock_world" where
  "locks_delete_block_u w waiter =
     (let h = (\<lambda>a. (lk_heap w a)\<lparr>fl_block := removeAll waiter (fl_block (lk_heap w a))\<rparr>)
      in w\<lparr>lk_heap := h(waiter := (h waiter)\<lparr>fl_next := None\<rparr>),
           blocked_list := removeAll waiter (blocked_list w),
           file_lock_list := removeAll waiter (file_lock_list w)\<rparr>)"

definition locks_insert_block :: "lock_world \<Rightarrow> nat \<Rightarrow> nat \<Rightarrow> lock_world" where
  "locks_insert_block w blocker waiter =
     (let w = (if fl_block (lk_heap w waiter) \<noteq> [] \<or> fl_next (lk_heap w waiter) \<noteq> None
               then w\<lparr>lk_bug := True\<rparr> else w);
          w = lk_upd w blocker (\<lambda>b. b\<lparr>fl_block := fl_block b @ [waiter]\<rparr>);
          w = lk_upd w waiter (\<lambda>x. x\<lparr>fl_next := Some blocker\<rparr>)
      in if IS_POSIX (lk_heap w blocker)
         then w\<lparr>blocked_list := waiter # blocked_list w\<rparr> else w)"

definition wake_waiter :: "lock_world \<Rightarrow> nat \<Rightarrow> lock_world" where
  "wake_waiter w waiter =
     w\<lparr>lk_events := lk_events w @
        [if fl_lmops (lk_heap w waiter) = Some nlmsvc_lock_operations
         then Notify waiter else Wake_up waiter]\<rparr>"

function locks_wake_up_blocks :: "lock_world \<Rightarrow> nat \<Rightarrow> lock_world" where
  "locks_wake_up_blocks w blocker =
     (case fl_block (lk_heap w blocker) of
        [] \<Rightarrow> w
      | waiter # _ \<Rightarrow>
          locks_wake_up_blocks (wake_waiter (locks_delete_block_u w waiter) waiter) blocker)"
  by auto
termination
  by (relation "measure (\<lambda>(w, b). length (fl_block (lk_heap w b)))")
    (auto simp: wake_waiter_def locks_delete_block_u_def Let_def le_imp_less_Suc)

declare locks_wake_up_blocks.simps [simp del]

definition locks_insert_lock ::
  "lock_world \<Rightarrow> u32 \<Rightarrow> nat \<Rightarrow> nat \<Rightarrow> nat \<Rightarrow> lock_world" where
  "locks_insert_lock w cur ino pos fl =
     (let w = w\<lparr>file_lock_list := fl # file_lock_list w\<rparr>;
          w = lk_upd w fl (\<lambda>x. x\<lparr>fl_nspid := Some cur\<rparr>);
          l = i_flock w ino
      in w\<lparr>i_flock := (i_flock w)(ino := take pos l @ fl # drop pos l)\<rparr>)"

definition locks_delete_lock :: "lock_world \<Rightarrow> nat \<Rightarrow> nat \<Rightarrow> lock_world" where
  "locks_delete_lock w ino pos =
     (let l = i_flock w ino; fl = l ! pos;
          w = w\<lparr>i_flock := (i_flock w)(ino := take pos l @ drop (Suc pos) l),
                file_lock_list := removeAll fl (file_lock_list w)\<rparr>;
          w = lk_upd w fl (\<lambda>x. x\<lparr>fl_next := None, fl_fasync := False, fl_nspid := None\<rparr>);
          w = locks_wake_up_blocks w fl
      in locks_free_lock w fl)"

section \<open>Conflicts and deadlock detection\<close>

definition locks_conflict :: "file_lock \<Rightarrow> file_lock \<Rightarrow> bool" where
  "locks_conflict caller_fl sys_fl \<longleftrightarrow> fl_type sys_fl = F_WRLCK \<or> fl_type caller_fl = F_WRLCK"

definition posix_locks_conflict :: "file_lock \<Rightarrow> file_lock \<Rightarrow> bool" where
  "posix_locks_conflict caller_fl sys_fl =
     (if \<not> IS_POSIX sys_fl \<or> posix_same_owner caller_fl sys_fl then False
      else if \<not> locks_overlap caller_fl sys_fl then False
      else locks_conflict caller_fl sys_fl)"

definition first_conflict :: "lock_world \<Rightarrow> nat \<Rightarrow> file_lock \<Rightarrow> nat option" where
  "first_conflict w ino fl =
     List.find (\<lambda>a. IS_POSIX (lk_heap w a) \<and> posix_locks_conflict fl (lk_heap w a)) (i_flock w ino)"

definition posix_test_lock :: "lock_world \<Rightarrow> nat \<Rightarrow> file_lock \<Rightarrow> file_lock" where
  "posix_test_lock w ino fl =
     (case first_conflict w ino fl of
        Some a \<Rightarrow>
          (let cfl = lk_heap w a; fl = locks_copy_lock_u fl cfl
           in case fl_nspid cfl of Some p \<Rightarrow> fl\<lparr>fl_pid := p\<rparr> | None \<Rightarrow> fl)
      | None \<Rightarrow> fl\<lparr>fl_type := F_UNLCK\<rparr>)"

definition MAX_DEADLK_ITERATIONS :: nat where "MAX_DEADLK_ITERATIONS = 10"

definition what_owner_is_waiting_for :: "lock_world \<Rightarrow> nat \<Rightarrow> nat option" where
  "what_owner_is_waiting_for w block_fl =
     (case List.find (\<lambda>a. posix_same_owner (lk_heap w a) (lk_heap w block_fl)) (blocked_list w) of
        None \<Rightarrow> None
      | Some a \<Rightarrow> fl_next (lk_heap w a))"

function deadlock_loop :: "lock_world \<Rightarrow> nat \<Rightarrow> nat \<Rightarrow> nat \<Rightarrow> bool" where
  "deadlock_loop w caller_fl block_fl i =
     (case what_owner_is_waiting_for w block_fl of
        None \<Rightarrow> False
      | Some b \<Rightarrow>
          if i > MAX_DEADLK_ITERATIONS then False
          else if posix_same_owner (lk_heap w caller_fl) (lk_heap w b) then True
          else deadlock_loop w caller_fl b (i + 1))"
  by auto
termination
  by (relation "measure (\<lambda>(w, c, b, i). MAX_DEADLK_ITERATIONS + 1 - i)") auto

declare deadlock_loop.simps [simp del]

definition posix_locks_deadlock :: "lock_world \<Rightarrow> nat \<Rightarrow> nat \<Rightarrow> bool" where
  "posix_locks_deadlock w caller_fl block_fl = deadlock_loop w caller_fl block_fl 0"

section \<open>Applying a POSIX lock\<close>

text \<open>What the loop over the owner's locks leaves: the world, the lock \<open>request\<close> points to,
  \<open>added\<close>, \<open>left\<close>, \<open>right\<close> and the position \<open>before\<close>.\<close>

type_synonym posix_scan = "lock_world \<times> nat \<times> bool \<times> nat option \<times> nat option \<times> nat"

definition merge_same_type :: "lock_world \<Rightarrow> nat \<Rightarrow> nat \<Rightarrow> lock_world" where
  "merge_same_type w request fl =
     (let w = (if fl_start (lk_heap w fl) > fl_start (lk_heap w request)
               then lk_upd w fl (\<lambda>x. x\<lparr>fl_start := fl_start (lk_heap w request)\<rparr>)
               else lk_upd w request (\<lambda>x. x\<lparr>fl_start := fl_start (lk_heap w fl)\<rparr>))
      in if fl_end (lk_heap w fl) < fl_end (lk_heap w request)
         then lk_upd w fl (\<lambda>x. x\<lparr>fl_end := fl_end (lk_heap w request)\<rparr>)
         else lk_upd w request (\<lambda>x. x\<lparr>fl_end := fl_end (lk_heap w fl)\<rparr>))"

definition replace_lock :: "lock_world \<Rightarrow> nat \<Rightarrow> nat \<Rightarrow> lock_world" where
  "replace_lock w request fl =
     (let w = locks_wake_up_blocks w fl; r = lk_heap w request;
          w = lk_upd w fl (\<lambda>x. x\<lparr>fl_start := fl_start r, fl_end := fl_end r, fl_type := fl_type r\<rparr>)
      in lk_upd w fl (\<lambda>x. locks_copy_private (locks_release_private x) r))"

fun posix_scan_owner ::
  "lock_world \<Rightarrow> nat \<Rightarrow> nat \<Rightarrow> bool \<Rightarrow> nat option \<Rightarrow> nat \<Rightarrow> nat list \<Rightarrow> posix_scan" where
  "posix_scan_owner w ino request added left before [] = (w, request, added, left, None, before)"
| "posix_scan_owner w ino request added left before (fl # rest) =
     (let r = lk_heap w request; f = lk_heap w fl in
      if \<not> posix_same_owner r f then (w, request, added, left, None, before)
      else if fl_type r = fl_type f then
        if fl_end f < fl_start r - 1
        then posix_scan_owner w ino request added left (Suc before) rest
        else if fl_start f - 1 > fl_end r then (w, request, added, left, None, before)
        else let w = merge_same_type w request fl in
          if added
          then posix_scan_owner (locks_delete_lock w ino before) ino request added left before rest
          else posix_scan_owner w ino fl True left (Suc before) rest
      else
        if fl_end f < fl_start r
        then posix_scan_owner w ino request added left (Suc before) rest
        else if fl_start f > fl_end r then (w, request, added, left, None, before)
        else
          let added = (if fl_type r = F_UNLCK then True else added);
              left = (if fl_start f < fl_start r then Some fl else left) in
          if fl_end f > fl_end r then (w, request, added, left, Some fl, before)
          else if fl_start f \<ge> fl_start r then
            if added
            then posix_scan_owner (locks_delete_lock w ino before) ino request added left before rest
            else posix_scan_owner (replace_lock w request fl) ino fl True left (Suc before) rest
          else posix_scan_owner w ino request added left (Suc before) rest)"

definition free_unused :: "lock_world \<Rightarrow> nat option \<Rightarrow> lock_world" where
  "free_unused w a = (case a of None \<Rightarrow> w | Some a \<Rightarrow> locks_free_lock w a)"

definition trim_right ::
  "lock_world \<Rightarrow> u32 \<Rightarrow> nat \<Rightarrow> nat \<Rightarrow> nat option \<Rightarrow> nat option \<Rightarrow> nat option \<Rightarrow> nat
   \<Rightarrow> lock_world \<times> nat option \<times> nat option" where
  "trim_right w cur ino request left right new_fl2 before =
     (case right of
        None \<Rightarrow> (w, left, new_fl2)
      | Some r \<Rightarrow>
          let (w, left, new_fl2) =
            (case new_fl2 of
               Some n2 \<Rightarrow>
                 if left = right
                 then let w = lk_upd w n2 (\<lambda>x. locks_copy_lock x (lk_heap w r))
                      in (locks_insert_lock w cur ino before n2, new_fl2, None)
                 else (w, left, new_fl2)
             | None \<Rightarrow> (w, left, new_fl2));
            w = lk_upd w r (\<lambda>x. x\<lparr>fl_start := fl_end (lk_heap w request) + 1\<rparr>)
          in (locks_wake_up_blocks w r, left, new_fl2))"

definition trim_left :: "lock_world \<Rightarrow> nat \<Rightarrow> nat option \<Rightarrow> lock_world" where
  "trim_left w request left =
     (case left of
        None \<Rightarrow> w
      | Some l \<Rightarrow> locks_wake_up_blocks
                    (lk_upd w l (\<lambda>x. x\<lparr>fl_end := fl_start (lk_heap w request) - 1\<rparr>)) l)"

definition posix_apply ::
  "u32 \<Rightarrow> nat \<Rightarrow> nat option \<Rightarrow> nat option \<Rightarrow> posix_scan
   \<Rightarrow> lock_world \<times> errno option \<times> nat option \<times> nat option" where
  "posix_apply cur ino new_fl new_fl2 scan =
     (let (w, request, added, left, right, before) = scan; r = lk_heap w request in
      if right \<noteq> None \<and> left = right \<and> new_fl2 = None then (w, Some ENOLCK, new_fl, new_fl2)
      else if \<not> added \<and> fl_type r = F_UNLCK
      then (w, if has_flag r FL_EXISTS then Some ENOENT else None, new_fl, new_fl2)
      else if \<not> added \<and> new_fl = None then (w, Some ENOLCK, new_fl, new_fl2)
      else
        let (w, new_fl) =
              (case new_fl of
                 Some n \<Rightarrow>
                   if \<not> added
                   then (locks_insert_lock (lk_upd w n (\<lambda>x. locks_copy_lock x r)) cur ino before n, None)
                   else (w, new_fl)
               | None \<Rightarrow> (w, new_fl));
            (w, left, new_fl2) = trim_right w cur ino request left right new_fl2 before
        in (trim_left w request left, None, new_fl, new_fl2))"

text \<open>\<open>alloc1\<close> and \<open>alloc2\<close> are what the two calls of \<open>locks_alloc_lock\<close> return.  The last
  component is the copy stored through \<open>conflock\<close>.\<close>

definition posix_lock_file_u ::
  "lock_world \<Rightarrow> u32 \<Rightarrow> nat \<Rightarrow> nat \<Rightarrow> nat option \<Rightarrow> nat option
   \<Rightarrow> lock_world \<times> errno option \<times> file_lock option" where
  "posix_lock_file_u w cur ino request alloc1 alloc2 =
     (let r = lk_heap w request;
          need = (\<not> has_flag r FL_ACCESS \<and>
                  (fl_type r \<noteq> F_UNLCK \<or> fl_start r \<noteq> 0 \<or> fl_end r \<noteq> OFFSET_MAX));
          new_fl = (if need then alloc1 else None);
          new_fl2 = (if need then alloc2 else None)
      in case (if fl_type r \<noteq> F_UNLCK then first_conflict w ino r else None) of
           Some fl \<Rightarrow>
             let conflock = Some (locks_copy_lock_u locks_init_lock (lk_heap w fl));
                 (w, error) =
                   (if \<not> has_flag r FL_SLEEP then (w, EAGAIN)
                    else if posix_locks_deadlock w request fl then (w, EDEADLK)
                    else (locks_insert_block w fl request, FILE_LOCK_DEFERRED))
             in (free_unused (free_unused w new_fl) new_fl2, Some error, conflock)
         | None \<Rightarrow>
             if has_flag r FL_ACCESS
             then (free_unused (free_unused w new_fl) new_fl2, None, None)
             else
               let l = i_flock w ino;
                   before = length (takeWhile (\<lambda>a. \<not> IS_POSIX (lk_heap w a) \<or>
                                                   \<not> posix_same_owner r (lk_heap w a)) l);
                   (w, error, new_fl, new_fl2) =
                     posix_apply cur ino new_fl new_fl2
                       (posix_scan_owner w ino request False None before (drop before l))
               in (free_unused (free_unused w new_fl) new_fl2, error, None))"

definition posix_lock_file ::
  "lock_world \<Rightarrow> u32 \<Rightarrow> nat \<Rightarrow> nat \<Rightarrow> nat option \<Rightarrow> nat option
   \<Rightarrow> lock_world \<times> errno option \<times> file_lock option" where
  "posix_lock_file = posix_lock_file_u"

end
