(* ===== verification/Lock_Ranges.thy ===== *)
theory Lock_Ranges
  imports File_Locks
begin

text \<open>
  The POSIX locks of one file as a map from owners and bytes to lock types.  The scan of
  \<open>__posix_lock_file\<close> over the owner's locks is shown to keep an invariant that ties the locks
  already passed, the lock it will cut short and the lock the request has become to the list
  still ahead; applying its result replaces exactly the requested bytes of the map.
\<close>

section \<open>What the block lists leave alone\<close>

text \<open>The part of a lock that decides conflicts.\<close>

definition core :: "file_lock \<Rightarrow> nat \<times> u8 \<times> u8 \<times> int \<times> int \<times> lock_manager_operations option" where
  "core fl = (fl_owner fl, fl_flags fl, fl_type fl, fl_start fl, fl_end fl, fl_lmops fl)"

lemma lk_heap_upd [simp]: "lk_heap (lk_upd w a f) = (lk_heap w)(a := f (lk_heap w a))"
  by (simp add: lk_upd_def)

lemma lk_upd_fields [simp]:
  "i_flock (lk_upd w a f) = i_flock w" "file_lock_list (lk_upd w a f) = file_lock_list w"
  "blocked_list (lk_upd w a f) = blocked_list w" "lk_bug (lk_upd w a f) = lk_bug w"
  by (simp_all add: lk_upd_def)

lemma core_delete_block [simp]:
  "core (lk_heap (locks_delete_block_u w x) a) = core (lk_heap w a)"
  "i_flock (locks_delete_block_u w x) = i_flock w"
  by (simp_all add: locks_delete_block_u_def core_def Let_def)

lemma wake_waiter_fields [simp]:
  "lk_heap (wake_waiter w x) = lk_heap w" "i_flock (wake_waiter w x) = i_flock w"
  by (simp_all add: wake_waiter_def)

lemma core_wake_up [simp]:
  "core (lk_heap (locks_wake_up_blocks w b) a) = core (lk_heap w a)"
  "i_flock (locks_wake_up_blocks w b) = i_flock w"
  by (induction w b rule: locks_wake_up_blocks.induct;
      subst locks_wake_up_blocks.simps; auto split: list.split)+

lemma core_free_lock:
  "core (lk_heap (locks_free_lock w x) a) =
     (if a = x then core ((lk_heap w a)\<lparr>fl_lmops := None\<rparr>) else core (lk_heap w a))"
  "i_flock (locks_free_lock w x) = i_flock w"
  by (simp_all add: locks_free_lock_def core_def locks_release_private_def Let_def)

lemma core_free_unused:
  "x \<noteq> Some a \<Longrightarrow> core (lk_heap (free_unused w x) a) = core (lk_heap w a)"
  "i_flock (free_unused w x) = i_flock w"
  by (auto simp: free_unused_def core_free_lock split: option.split)

lemma core_eqD:
  assumes "core f = core g"
  shows "fl_owner f = fl_owner g" "fl_flags f = fl_flags g" "fl_type f = fl_type g"
    "fl_start f = fl_start g" "fl_end f = fl_end g" "fl_lmops f = fl_lmops g"
    "IS_POSIX f = IS_POSIX g" "has_flag f x = has_flag g x"
  using assms by (simp_all add: core_def IS_POSIX_def has_flag_def)

lemmas core_wake_fields [simp] = core_wake_up(1)[THEN core_eqD(1)] core_wake_up(1)[THEN core_eqD(2)]
  core_wake_up(1)[THEN core_eqD(3)] core_wake_up(1)[THEN core_eqD(4)]
  core_wake_up(1)[THEN core_eqD(5)] core_wake_up(1)[THEN core_eqD(6)]

lemma locks_delete_lock_list:
  assumes "i_flock w ino = A @ fl # B" "pos = length A"
  shows "i_flock (locks_delete_lock w ino pos) = (i_flock w)(ino := A @ B)"
  using assms by (auto simp: locks_delete_lock_def core_free_lock Let_def)

lemma core_delete_lock:
  assumes "i_flock w ino = A @ fl # B" "pos = length A" "a \<noteq> fl"
  shows "core (lk_heap (locks_delete_lock w ino pos) a) = core (lk_heap w a)"
  using assms by (simp add: locks_delete_lock_def core_free_lock Let_def nth_append)

lemma core_insert_lock:
  "core (lk_heap (locks_insert_lock w cur ino pos x) a) = core (lk_heap w a)"
  by (simp add: locks_insert_lock_def core_def Let_def)

lemma locks_insert_lock_list:
  assumes "i_flock w ino = A @ B" "pos = length A"
  shows "i_flock (locks_insert_lock w cur ino pos x) = (i_flock w)(ino := A @ x # B)"
  using assms by (simp add: locks_insert_lock_def Let_def)

lemma core_copy_lock [simp]: "core (locks_copy_lock new fl) = core fl"
  by (cases "fl_lmops fl")
    (simp_all add: locks_copy_lock_def locks_copy_private_def locks_copy_lock_u_def
      locks_release_private_def core_def)

section \<open>Order of one owner's locks\<close>

definition apart :: "file_lock \<Rightarrow> file_lock \<Rightarrow> bool" where
  "apart f g \<longleftrightarrow> fl_end f < fl_start g \<and> (fl_type f = fl_type g \<longrightarrow> fl_end f < fl_start g - 1)"

definition local_lock :: "file_lock \<Rightarrow> bool" where
  "local_lock f \<longleftrightarrow> fl_lmops f \<noteq> Some nlmsvc_lock_operations"

definition valid_lock :: "file_lock \<Rightarrow> bool" where
  "valid_lock f \<longleftrightarrow> IS_POSIX f \<and> local_lock f \<and> (fl_type f = F_RDLCK \<or> fl_type f = F_WRLCK) \<and>
     0 \<le> fl_start f \<and> fl_start f \<le> fl_end f \<and> fl_end f \<le> OFFSET_MAX"

lemma valid_not_unlck: "valid_lock f \<Longrightarrow> fl_type f \<noteq> F_UNLCK"
  by (auto simp: valid_lock_def F_RDLCK_def F_WRLCK_def F_UNLCK_def)

lemma apart_core: "core f = core f' \<Longrightarrow> core g = core g' \<Longrightarrow> apart f g = apart f' g'"
  by (simp add: apart_def core_def)

lemma valid_core: "core f = core f' \<Longrightarrow> valid_lock f = valid_lock f'"
  by (simp add: valid_lock_def core_def IS_POSIX_def local_lock_def)

definition lock_bytes :: "(nat \<Rightarrow> file_lock) \<Rightarrow> nat list \<Rightarrow> (int \<times> u8) set" where
  "lock_bytes h xs = {(b, t). \<exists>a\<in>set xs. fl_start (h a) \<le> b \<and> b \<le> fl_end (h a) \<and> t = fl_type (h a)}"

definition overridden :: "(nat \<Rightarrow> file_lock) \<Rightarrow> file_lock \<Rightarrow> nat list \<Rightarrow> (int \<times> u8) set" where
  "overridden h r xs =
     {(b, t). if fl_start r \<le> b \<and> b \<le> fl_end r then t = fl_type r else (b, t) \<in> lock_bytes h xs}"

lemma lock_bytes_append: "lock_bytes h (xs @ ys) = lock_bytes h xs \<union> lock_bytes h ys"
  by (auto simp: lock_bytes_def)

lemma lock_bytes_cong:
  "(\<And>a. a \<in> set xs \<Longrightarrow> core (h a) = core (h' a)) \<Longrightarrow> lock_bytes h xs = lock_bytes h' xs"
  by (auto simp: lock_bytes_def core_def)

lemma sorted_wrt_two:
  "sorted_wrt P xs \<Longrightarrow> x \<in> set xs \<Longrightarrow> y \<in> set xs \<Longrightarrow> x \<noteq> y \<Longrightarrow> P x y \<or> P y x"
  by (induction xs) auto

lemma lock_bytes_unique:
  assumes "sorted_wrt (\<lambda>a b. apart (h a) (h b)) xs" "\<forall>a\<in>set xs. valid_lock (h a)"
    "f \<in> set xs" "fl_start (h f) \<le> b" "b \<le> fl_end (h f)" "(b, t) \<in> lock_bytes h xs"
  shows "t = fl_type (h f)"
proof -
  obtain g where g: "g \<in> set xs" "fl_start (h g) \<le> b" "b \<le> fl_end (h g)" "t = fl_type (h g)"
    using assms(6) by (auto simp: lock_bytes_def)
  have "g = f"
  proof (rule ccontr)
    assume "g \<noteq> f"
    then have "apart (h f) (h g) \<or> apart (h g) (h f)"
      using sorted_wrt_two[OF assms(1,3) g(1)] by auto
    with g assms(4,5) show False by (auto simp: apart_def)
  qed
  with g show ?thesis by simp
qed

section \<open>The scan over the owner's locks\<close>

text \<open>\<open>P0\<close> are the locks passed that end before the request, \<open>lf\<close> the lock \<open>left\<close> that the
  request will cut short, \<open>rq\<close> the lock on the list that \<open>request\<close> aliases once it was added,
  and \<open>R\<close> the owner's locks still to come.\<close>

definition scan_inv ::
  "(nat \<Rightarrow> file_lock) \<Rightarrow> nat \<Rightarrow> nat \<Rightarrow> bool \<Rightarrow> nat list \<Rightarrow> nat list \<Rightarrow> nat list \<Rightarrow> nat list \<Rightarrow> bool" where
  "scan_inv h own req added P0 lf rq R \<longleftrightarrow>
     (\<forall>a\<in>set (P0 @ lf @ rq @ R). valid_lock (h a) \<and> fl_owner (h a) = own) \<and>
     rq = (if added \<and> fl_type (h req) \<noteq> F_UNLCK then [req] else []) \<and>
     (fl_type (h req) = F_RDLCK \<or> fl_type (h req) = F_WRLCK \<or> fl_type (h req) = F_UNLCK) \<and>
     fl_owner (h req) = own \<and> local_lock (h req) \<and> 0 \<le> fl_start (h req) \<and>
     fl_start (h req) \<le> fl_end (h req) \<and> fl_end (h req) \<le> OFFSET_MAX \<and>
     (fl_type (h req) = F_UNLCK \<and> lf \<noteq> [] \<longrightarrow> added) \<and>
     sorted_wrt (\<lambda>a b. apart (h a) (h b)) (P0 @ lf @ R) \<and>
     (\<forall>a\<in>set P0. apart (h a) (h req)) \<and>
     (\<forall>l\<in>set lf. fl_start (h l) < fl_start (h req) \<and> fl_start (h req) \<le> fl_end (h l) \<and>
                  fl_end (h l) \<le> fl_end (h req) \<and> fl_type (h l) \<noteq> fl_type (h req))"

definition ahead :: "(nat \<Rightarrow> file_lock) \<Rightarrow> nat \<Rightarrow> bool \<Rightarrow> nat list \<Rightarrow> nat list \<Rightarrow> bool" where
  "ahead h req added lf R \<longleftrightarrow>
     (added \<or> lf \<noteq> [] \<longrightarrow> (\<forall>r\<in>set R. fl_start (h req) < fl_start (h r)))"

text \<open>The request after it swallowed the lock \<open>f\<close>.\<close>

definition absorbed :: "file_lock \<Rightarrow> file_lock \<Rightarrow> file_lock \<Rightarrow> bool" where
  "absorbed r f r' \<longleftrightarrow>
     fl_type r' = fl_type r \<and>
     (fl_start r \<le> fl_start f \<and> fl_end f \<le> fl_end r \<and>
        fl_start r' = fl_start r \<and> fl_end r' = fl_end r \<or>
      fl_type f = fl_type r \<and> fl_start r - 1 \<le> fl_end f \<and> fl_start f - 1 \<le> fl_end r \<and>
        fl_start r' = min (fl_start r) (fl_start f) \<and> fl_end r' = max (fl_end r) (fl_end f))"

lemma overridden_absorb:
  assumes "sorted_wrt (\<lambda>a b. apart (h a) (h b)) (xs @ fl # ys)"
    "\<forall>a\<in>set (xs @ fl # ys). valid_lock (h a)"
    "\<And>a. a \<in> set (xs @ ys) \<Longrightarrow> core (h' a) = core (h a)" "absorbed r (h fl) r'"
  shows "overridden h' r' (xs @ ys) = overridden h r (xs @ fl # ys)"
proof -
  have bytes: "lock_bytes h' (xs @ ys) = lock_bytes h (xs @ ys)"
    by (rule lock_bytes_cong) (use assms(3) in auto)
  have uniq: "t = fl_type (h fl)"
    if "fl_start (h fl) \<le> b" "b \<le> fl_end (h fl)" "(b, t) \<in> lock_bytes h (xs @ fl # ys)" for b t
    using lock_bytes_unique[OF assms(1,2), of fl b t] that by simp
  have own: "(b, fl_type (h fl)) \<in> lock_bytes h (xs @ fl # ys)"
    if "fl_start (h fl) \<le> b" "b \<le> fl_end (h fl)" for b
    using that by (auto simp: lock_bytes_def)
  have out: "(b, t) \<in> lock_bytes h (xs @ ys) \<longleftrightarrow> (b, t) \<in> lock_bytes h (xs @ fl # ys)"
    if "\<not> (fl_start (h fl) \<le> b \<and> b \<le> fl_end (h fl))" for b t
    using that by (auto simp: lock_bytes_def)
  have "(b, t) \<in> overridden h' r' (xs @ ys) \<longleftrightarrow> (b, t) \<in> overridden h r (xs @ fl # ys)" for b t
  proof (cases "fl_start (h fl) \<le> b \<and> b \<le> fl_end (h fl)")
    case True
    then have "fl_start r' \<le> b \<and> b \<le> fl_end r'" using assms(4) by (auto simp: absorbed_def)
    with True show ?thesis
      using uniq[of b t] own[of b] assms(4) by (auto simp: overridden_def absorbed_def)
  next
    case False
    then have "(fl_start r' \<le> b \<and> b \<le> fl_end r') = (fl_start r \<le> b \<and> b \<le> fl_end r)"
      using assms(4) by (auto simp: absorbed_def)
    with False show ?thesis
      using out[of b t] assms(4) by (auto simp: overridden_def bytes absorbed_def)
  qed
  then show ?thesis by auto
qed

lemma scan_absorb:
  assumes inv: "scan_inv h own req added P0 lf rq (fl # R)" and ah: "ahead h req added lf (fl # R)"
    and same: "\<And>a. a \<in> set (P0 @ lf @ R) \<Longrightarrow> core (h' a) = core (h a)"
    and ab: "absorbed (h req) (h fl) (h' req')"
    and r': "fl_owner (h' req') = own" "local_lock (h' req')"
      "fl_type (h req) \<noteq> F_UNLCK \<Longrightarrow> IS_POSIX (h' req')"
  shows "scan_inv h' own req' True P0 lf (if fl_type (h req) \<noteq> F_UNLCK then [req'] else []) R \<and>
         ahead h' req' True lf R \<and>
         overridden h' (h' req') (P0 @ lf @ R) = overridden h (h req) (P0 @ lf @ fl # R)"
proof (intro conjI)
  have v: "\<forall>a\<in>set ((P0 @ lf) @ fl # R). valid_lock (h a)"
    and s: "sorted_wrt (\<lambda>a b. apart (h a) (h b)) ((P0 @ lf) @ fl # R)"
    using inv by (auto simp: scan_inv_def)
  show "overridden h' (h' req') (P0 @ lf @ R) = overridden h (h req) (P0 @ lf @ fl # R)"
    using overridden_absorb[OF s v _ ab] same by simp
  have fl: "fl_start (h fl) \<le> fl_end (h fl)" "0 \<le> fl_start (h fl)" "fl_end (h fl) \<le> OFFSET_MAX"
    using v by (auto simp: valid_lock_def)
  have after: "fl_end (h fl) < fl_start (h r)" if "r \<in> set R" for r
    using s that by (auto simp: sorted_wrt_append apart_def)
  show "ahead h' req' True lf R"
    unfolding ahead_def
  proof (intro impI ballI)
    fix r assume r: "r \<in> set R"
    then show "fl_start (h' req') < fl_start (h' r)"
      using after[OF r] fl ab core_eqD(4)[OF same[of r]] by (auto simp: absorbed_def)
  qed
  have c: "core (h' a) = core (h a)" if "a \<in> set P0 \<or> a \<in> set lf \<or> a \<in> set R" for a
    using same that by simp
  note cs = core_eqD[OF c]
  have before: "apart (h a) (h fl)" if "a \<in> set P0" for a
    using s that by (auto simp: sorted_wrt_append)
  have rb: "0 \<le> fl_start (h req)" "fl_start (h req) \<le> fl_end (h req)" "fl_end (h req) \<le> OFFSET_MAX"
    using inv unfolding scan_inv_def by blast+
  have bounds: "0 \<le> fl_start (h' req')" "fl_start (h' req') \<le> fl_end (h' req')"
    "fl_end (h' req') \<le> OFFSET_MAX"
    using ab fl rb by (auto simp: absorbed_def)
  have "sorted_wrt (\<lambda>a b. apart (h a) (h b)) (P0 @ lf @ R)"
    using s by (auto simp: sorted_wrt_append)
  then have sort': "sorted_wrt (\<lambda>a b. apart (h' a) (h' b)) (P0 @ lf @ R)"
    by (rule sorted_wrt_mono_rel[rotated]) (simp add: apart_core[OF same same])
  have P0: "apart (h' a) (h' req')" if a: "a \<in> set P0" for a
  proof -
    have "apart (h a) (h req)" using inv a by (simp add: scan_inv_def)
    with before[OF a] ab show ?thesis
      using a by (auto simp: apart_def absorbed_def cs)
  qed
  have lf: "fl_start (h' l) < fl_start (h' req') \<and> fl_start (h' req') \<le> fl_end (h' l) \<and>
      fl_end (h' l) \<le> fl_end (h' req') \<and> fl_type (h' l) \<noteq> fl_type (h' req')" if l: "l \<in> set lf" for l
  proof -
    have "fl_start (h req) < fl_start (h fl)" using ah l by (auto simp: ahead_def)
    moreover have "fl_start (h l) < fl_start (h req)" "fl_start (h req) \<le> fl_end (h l)"
      "fl_end (h l) \<le> fl_end (h req)" "fl_type (h l) \<noteq> fl_type (h req)"
      using inv l by (auto simp: scan_inv_def)
    ultimately show ?thesis using ab l by (auto simp: absorbed_def cs)
  qed
  have req: "valid_lock (h' req')" if "fl_type (h req) \<noteq> F_UNLCK"
    using that r' bounds inv ab by (auto simp: valid_lock_def scan_inv_def absorbed_def)
  have "fl_type (h' req') = fl_type (h req)" using ab by (simp add: absorbed_def)
  moreover have "valid_lock (h' a) \<and> fl_owner (h' a) = own"
    if "a \<in> set P0 \<or> a \<in> set lf \<or> a \<in> set R" for a
    using inv that by (auto simp: scan_inv_def cs valid_core[OF c])
  ultimately show "scan_inv h' own req' True P0 lf (if fl_type (h req) \<noteq> F_UNLCK then [req'] else []) R"
    using inv sort' P0 lf req bounds r' by (auto simp: scan_inv_def)
qed

lemma merge_same_type_heap:
  assumes "request \<noteq> fl"
  shows "i_flock (merge_same_type w request fl) = i_flock w"
    and "a \<noteq> fl \<Longrightarrow> a \<noteq> request \<Longrightarrow>
      core (lk_heap (merge_same_type w request fl) a) = core (lk_heap w a)"
    and "a = fl \<or> a = request \<Longrightarrow> core (lk_heap (merge_same_type w request fl) a) =
      core ((lk_heap w a)
        \<lparr>fl_start := min (fl_start (lk_heap w request)) (fl_start (lk_heap w fl)),
         fl_end := max (fl_end (lk_heap w request)) (fl_end (lk_heap w fl))\<rparr>)"
  using assms by (auto simp: merge_same_type_def Let_def core_def)

lemma replace_lock_heap:
  assumes "request \<noteq> fl"
  shows "i_flock (replace_lock w request fl) = i_flock w"
    and "a \<noteq> fl \<Longrightarrow> core (lk_heap (replace_lock w request fl) a) = core (lk_heap w a)"
    and "core (lk_heap (replace_lock w request fl) fl) =
      core ((lk_heap w fl)
        \<lparr>fl_start := fl_start (lk_heap w request), fl_end := fl_end (lk_heap w request),
         fl_type := fl_type (lk_heap w request), fl_lmops := fl_lmops (lk_heap w request)\<rparr>)"
  using assms by (auto simp: replace_lock_def Let_def core_def locks_copy_private_def
      locks_release_private_def split: option.split)

definition opt_list :: "'a option \<Rightarrow> 'a list" where
  "opt_list x = (case x of None \<Rightarrow> [] | Some a \<Rightarrow> [a])"

lemma opt_list_simps [simp]: "opt_list None = []" "opt_list (Some a) = [a]"
  by (simp_all add: opt_list_def)

definition scan_state ::
  "lock_world \<Rightarrow> nat \<Rightarrow> nat \<Rightarrow> nat list \<Rightarrow> nat list \<Rightarrow> nat \<Rightarrow> nat \<Rightarrow> bool
   \<Rightarrow> nat list \<Rightarrow> nat list \<Rightarrow> nat list \<Rightarrow> nat list \<Rightarrow> bool" where
  "scan_state w ino own A C before req added P0 lf rq R \<longleftrightarrow>
     i_flock w ino = A @ P0 @ lf @ rq @ R @ C \<and> distinct (i_flock w ino) \<and>
     before = length (A @ P0 @ lf @ rq) \<and>
     (rq = [] \<longrightarrow> req \<notin> set (i_flock w ino)) \<and> (\<forall>a\<in>set C. fl_owner (lk_heap w a) \<noteq> own) \<and>
     scan_inv (lk_heap w) own req added P0 lf rq R"

text \<open>How the scan may stop.\<close>

definition scan_exit ::
  "(nat \<Rightarrow> file_lock) \<Rightarrow> nat \<Rightarrow> nat option \<Rightarrow> nat option \<Rightarrow> nat list \<Rightarrow> nat list \<Rightarrow> nat list \<Rightarrow> bool" where
  "scan_exit h req left right lf rq R \<longleftrightarrow>
     right = None \<and> lf = opt_list left \<and> (\<forall>r\<in>set R. apart (h req) (h r)) \<or>
     (\<exists>r R'. right = Some r \<and> R = r # R' \<and> fl_start (h r) \<le> fl_end (h req) \<and>
        fl_end (h req) < fl_end (h r) \<and> fl_type (h r) \<noteq> fl_type (h req) \<and>
        (left = Some r \<and> lf = [] \<and> rq = [] \<and> fl_start (h r) < fl_start (h req) \<or>
         lf = opt_list left \<and> left \<noteq> Some r \<and> fl_start (h req) \<le> fl_start (h r)))"

text \<open>What the scan keeps: the locks of others, and the bytes covered once the request is applied.\<close>

definition scan_keeps ::
  "lock_world \<Rightarrow> nat \<Rightarrow> nat \<Rightarrow> nat list \<Rightarrow> nat list \<Rightarrow> lock_world \<Rightarrow> nat \<Rightarrow> nat list \<Rightarrow> nat list \<Rightarrow> bool" where
  "scan_keeps w ino req xs ys w' req' xs' ys' \<longleftrightarrow>
     (\<forall>i. i \<noteq> ino \<longrightarrow> i_flock w' i = i_flock w i) \<and>
     (\<forall>a. a \<notin> set ys \<and> a \<noteq> req \<longrightarrow> core (lk_heap w' a) = core (lk_heap w a)) \<and>
     set ys' \<subseteq> set ys \<and> (req' = req \<or> req' \<in> set ys) \<and>
     fl_type (lk_heap w' req') = fl_type (lk_heap w req) \<and>
     overridden (lk_heap w') (lk_heap w' req') xs' = overridden (lk_heap w) (lk_heap w req) xs"

lemma scan_keeps_refl: "set ys' \<subseteq> set ys \<Longrightarrow> scan_keeps w ino req xs ys w req xs ys'"
  by (auto simp: scan_keeps_def)

lemma scan_keeps_trans:
  assumes "scan_keeps w ino req xs ys w1 req1 xs1 ys1"
    "scan_keeps w1 ino req1 xs1 ys1 w2 req2 xs2 ys2"
  shows "scan_keeps w ino req xs ys w2 req2 xs2 ys2"
  using assms unfolding scan_keeps_def by (smt (verit, best) subset_eq)

text \<open>One swallowed lock.\<close>

lemma scan_state_absorb:
  assumes st: "scan_state w ino own A C before req added P0 lf rq (fl # R)"
    and ah: "ahead (lk_heap w) req added lf (fl # R)"
    and same: "\<And>a. a \<noteq> fl \<Longrightarrow> a \<noteq> req \<Longrightarrow> core (lk_heap w' a) = core (lk_heap w a)"
    and ab: "absorbed (lk_heap w req) (lk_heap w fl) (lk_heap w' req')"
    and r': "fl_owner (lk_heap w' req') = own" "local_lock (lk_heap w' req')"
      "fl_type (lk_heap w req) \<noteq> F_UNLCK \<Longrightarrow> IS_POSIX (lk_heap w' req')"
    and list: "\<And>i. i \<noteq> ino \<Longrightarrow> i_flock w' i = i_flock w i"
      "i_flock w' ino = A @ P0 @ lf @ rq' @ R @ C"
    and rq': "rq' = (if fl_type (lk_heap w req) \<noteq> F_UNLCK then [req'] else [])"
    and req': "req' = fl \<and> rq = [] \<and> fl_type (lk_heap w req) \<noteq> F_UNLCK \<or>
      req' = req \<and> (added \<or> fl_type (lk_heap w req) = F_UNLCK)"
  shows "scan_state w' ino own A C (length (A @ P0 @ lf @ rq')) req' True P0 lf rq' R \<and>
         ahead (lk_heap w') req' True lf R \<and>
         scan_keeps w ino req (P0 @ lf @ fl # R) (P0 @ lf @ rq @ fl # R) w' req' (P0 @ lf @ R)
           (P0 @ lf @ rq' @ R)"
proof -
  have inv: "scan_inv (lk_heap w) own req added P0 lf rq (fl # R)"
    and l: "i_flock w ino = A @ P0 @ lf @ rq @ (fl # R) @ C" and d: "distinct (i_flock w ino)"
    and nin: "rq = [] \<longrightarrow> req \<notin> set (i_flock w ino)"
    and oth: "\<forall>a\<in>set C. fl_owner (lk_heap w a) \<noteq> own"
    using st by (auto simp: scan_state_def)
  have rq: "rq = (if added \<and> fl_type (lk_heap w req) \<noteq> F_UNLCK then [req] else [])"
    using inv by (simp add: scan_inv_def)
  have rqc: "rq = [] \<or> rq = [req]" using rq by simp
  have ne: "a \<noteq> fl \<and> a \<noteq> req" if "a \<in> set (P0 @ lf @ R) \<union> set C" for a
    using rqc that l d nin by (elim disjE) auto
  have S: "scan_inv (lk_heap w') own req' True P0 lf rq' R \<and> ahead (lk_heap w') req' True lf R \<and>
      overridden (lk_heap w') (lk_heap w' req') (P0 @ lf @ R) =
      overridden (lk_heap w) (lk_heap w req) (P0 @ lf @ fl # R)"
    unfolding rq' using ne by (intro scan_absorb[OF inv ah same ab r']) auto
  have "(rq' = [fl] \<and> rq = [] \<or> rq' = [req] \<and> rq = [req]) \<or> rq' = [] \<and> rq = [] \<and> req' = req"
    using rq rq' req' by (auto split: if_splits)
  then have D: "distinct (i_flock w' ino) \<and> (rq' = [] \<longrightarrow> req' \<notin> set (i_flock w' ino))"
    unfolding list(2) using d nin unfolding l by (elim disjE conjE; simp; blast)
  have O: "\<forall>a\<in>set C. fl_owner (lk_heap w' a) \<noteq> own"
    using oth ne core_eqD(1)[OF same] by simp
  have K: "\<forall>a. a \<notin> set (P0 @ lf @ rq @ fl # R) \<and> a \<noteq> req \<longrightarrow> core (lk_heap w' a) = core (lk_heap w a)"
    using same by simp
  have M: "set (P0 @ lf @ rq' @ R) \<subseteq> set (P0 @ lf @ rq @ fl # R)"
    using rq rq' req' by (auto split: if_splits)
  have Q: "req' = req \<or> req' \<in> set (P0 @ lf @ rq @ fl # R)" using req' by auto
  have T: "fl_type (lk_heap w' req') = fl_type (lk_heap w req)"
    using ab by (simp add: absorbed_def)
  show ?thesis
    unfolding scan_state_def scan_keeps_def
    using S D O K M Q T list by (intro conjI refl allI impI; (elim conjE)?; assumption?; blast)
qed

text \<open>The two steps that only move past a lock.\<close>

lemma scan_inv_skip:
  assumes "scan_inv h own req False P0 [] rq (fl # R)" "apart (h fl) (h req)"
  shows "scan_inv h own req False (P0 @ [fl]) [] [] R"
  using assms unfolding scan_inv_def by (simp only: append_assoc append_Cons append_Nil) auto

lemma scan_state_skip:
  assumes "scan_state w ino own A C before req False P0 [] rq (fl # R)"
    "apart (lk_heap w fl) (lk_heap w req)"
  shows "scan_state w ino own A C (Suc before) req False (P0 @ [fl]) [] [] R"
proof -
  have "rq = []" using assms by (simp add: scan_state_def scan_inv_def)
  then show ?thesis
    using assms(1) scan_inv_skip[OF _ assms(2)] unfolding scan_state_def
    by (elim conjE, intro conjI; (assumption | blast | simp)?)
qed

lemma scan_inv_left:
  assumes "scan_inv h own req added P0 [] [] (fl # R)"
    "fl_type (h fl) \<noteq> fl_type (h req)" "fl_start (h fl) < fl_start (h req)"
    "fl_start (h req) \<le> fl_end (h fl)" "fl_end (h fl) \<le> fl_end (h req)"
    "added' = (fl_type (h req) = F_UNLCK \<or> added)"
  shows "scan_inv h own req added' P0 [fl] [] R \<and> ahead h req added' [fl] R"
proof -
  have "fl_start (h req) < fl_start (h r)" if "r \<in> set R" for r
    using assms(1,4) that by (auto simp: scan_inv_def sorted_wrt_append apart_def)
  moreover have "[] = (if added' \<and> fl_type (h req) \<noteq> F_UNLCK then [req] else [])"
    using assms(1,6) by (auto simp: scan_inv_def)
  moreover have "fl_type (h req) = F_UNLCK \<longrightarrow> added'" using assms(6) by simp
  ultimately show ?thesis
    using assms(1-5) unfolding scan_inv_def ahead_def by (simp only: append_assoc append_Cons append_Nil) simp
qed

lemma scan_state_left:
  assumes "scan_state w ino own A C before req added P0 [] [] (fl # R)"
    "fl_type (lk_heap w fl) \<noteq> fl_type (lk_heap w req)"
    "fl_start (lk_heap w fl) < fl_start (lk_heap w req)"
    "fl_start (lk_heap w req) \<le> fl_end (lk_heap w fl)" "fl_end (lk_heap w fl) \<le> fl_end (lk_heap w req)"
    "added' = (fl_type (lk_heap w req) = F_UNLCK \<or> added)"
  shows "scan_state w ino own A C (Suc before) req added' P0 [fl] [] R \<and>
         ahead (lk_heap w) req added' [fl] R"
  using assms(1) scan_inv_left[OF _ assms(2-6)] unfolding scan_state_def
  by (elim conjE, intro conjI; (assumption | blast | simp)?)

lemma same_owner_local: "local_lock r \<Longrightarrow> posix_same_owner r f \<longleftrightarrow> fl_owner r = fl_owner f"
  by (auto simp: posix_same_owner_def local_lock_def)

definition scan_result ::
  "lock_world \<Rightarrow> nat \<Rightarrow> nat \<Rightarrow> nat list \<Rightarrow> nat list \<Rightarrow> nat \<Rightarrow> bool \<Rightarrow> nat list \<Rightarrow> nat list \<Rightarrow> posix_scan \<Rightarrow> bool" where
  "scan_result w ino own A C req added xs ys res \<longleftrightarrow>
     (case res of (w', req', added', left', right', before') \<Rightarrow>
       \<exists>P0 lf rq R. scan_state w' ino own A C before' req' added' P0 lf rq R \<and>
         scan_keeps w ino req xs ys w' req' (P0 @ lf @ R) (P0 @ lf @ rq @ R) \<and>
         scan_exit (lk_heap w') req' left' right' lf rq R \<and>
         (fl_type (lk_heap w' req') = F_UNLCK \<and> right' \<noteq> None \<longrightarrow> added') \<and>
         (\<not> added' \<or> right' \<noteq> None \<and> left' = right' \<longrightarrow> \<not> added \<and> w' = w \<and> req' = req))"

lemma scan_result_step:
  assumes "scan_result w1 ino own A C req1 added1 xs1 ys1 res"
    "scan_keeps w ino req xs ys w1 req1 xs1 ys1" "added1 \<or> \<not> added \<and> w1 = w \<and> req1 = req"
  shows "scan_result w ino own A C req added xs ys res"
proof -
  obtain w' req' added' left' right' before' where res: "res = (w', req', added', left', right', before')"
    by (cases res) auto
  obtain P0 lf rq R where
    st: "scan_state w' ino own A C before' req' added' P0 lf rq R"
    and k: "scan_keeps w1 ino req1 xs1 ys1 w' req' (P0 @ lf @ R) (P0 @ lf @ rq @ R)"
    and ex: "scan_exit (lk_heap w') req' left' right' lf rq R"
      "fl_type (lk_heap w' req') = F_UNLCK \<and> right' \<noteq> None \<longrightarrow> added'"
    and u: "\<not> added' \<or> right' \<noteq> None \<and> left' = right' \<longrightarrow> \<not> added1 \<and> w' = w1 \<and> req' = req1"
    using assms(1) unfolding scan_result_def res prod.case by blast
  have "\<not> added' \<or> right' \<noteq> None \<and> left' = right' \<longrightarrow> \<not> added \<and> w' = w \<and> req' = req"
    using u assms(3) by auto
  with st ex scan_keeps_trans[OF assms(2) k] show ?thesis
    unfolding scan_result_def res prod.case by blast
qed

text \<open>Stopping in front of a lock that lies beyond the request, or at the end.\<close>

lemma scan_result_stop:
  assumes "scan_state w ino own A C before req added P0 lf rq R" "lf = opt_list left"
    "\<forall>r\<in>set R. apart (lk_heap w req) (lk_heap w r)"
  shows "scan_result w ino own A C req added (P0 @ lf @ R) (P0 @ lf @ rq @ R)
           (w, req, added, left, None, before)"
  unfolding scan_result_def split
  using assms by (intro exI conjI) (auto simp: scan_exit_def scan_keeps_refl)


text \<open>Stopping at a lock that reaches beyond the request.\<close>

lemma scan_result_right:
  assumes st: "scan_state w ino own A C before req added P0 lf rq (fl # R)" and lf: "lf = opt_list left"
    and ah: "ahead (lk_heap w) req added lf (fl # R)"
    and fl: "fl_type (lk_heap w fl) \<noteq> fl_type (lk_heap w req)"
      "fl_start (lk_heap w fl) \<le> fl_end (lk_heap w req)" "fl_end (lk_heap w req) < fl_end (lk_heap w fl)"
    and added': "added' = (fl_type (lk_heap w req) = F_UNLCK \<or> added)"
    and left': "left' = (if fl_start (lk_heap w fl) < fl_start (lk_heap w req) then Some fl else left)"
  shows "scan_result w ino own A C req added (P0 @ lf @ fl # R) (P0 @ lf @ rq @ fl # R)
           (w, req, added', left', Some fl, before)"
proof -
  have rq: "rq = (if added \<and> fl_type (lk_heap w req) \<noteq> F_UNLCK then [req] else [])"
    using st by (simp add: scan_state_def scan_inv_def)
  then have rq': "rq = (if added' \<and> fl_type (lk_heap w req) \<noteq> F_UNLCK then [req] else [])"
    using added' by auto
  have st': "scan_state w ino own A C before req added' P0 lf rq (fl # R)"
    using st rq' added' unfolding scan_state_def scan_inv_def by blast
  have d: "fl \<notin> set lf" using st by (auto simp: scan_state_def)
  have early: "\<not> added \<and> lf = []" if "fl_start (lk_heap w fl) < fl_start (lk_heap w req)"
    using ah that by (auto simp: ahead_def)
  have ex: "scan_exit (lk_heap w) req left' (Some fl) lf rq (fl # R)"
  proof (cases "fl_start (lk_heap w fl) < fl_start (lk_heap w req)")
    case True
    then show ?thesis using early[OF True] rq fl left' by (simp add: scan_exit_def)
  next
    case False
    then have "left' \<noteq> Some fl" using d lf left' by auto
    with False show ?thesis using fl left' lf by (simp add: scan_exit_def)
  qed
  have "left' = Some fl \<longrightarrow> \<not> added"
    using early left' d lf by (cases "fl_start (lk_heap w fl) < fl_start (lk_heap w req)") auto
  moreover have "\<not> added' \<longrightarrow> \<not> added" using added' by simp
  ultimately show ?thesis
    unfolding scan_result_def prod.case
    using st' ex added' by (intro exI[of _ P0] exI[of _ lf] exI[of _ rq] exI[of _ "fl # R"])
      (auto simp: scan_keeps_refl)
qed

lemma scan_stateD:
  assumes "scan_state w ino own A C before req added P0 lf rq (fl # R)"
  shows "i_flock w ino = (A @ P0 @ lf @ rq) @ fl # R @ C" "before = length (A @ P0 @ lf @ rq)"
    "fl \<noteq> req" "valid_lock (lk_heap w fl)" "fl_owner (lk_heap w fl) = own"
    "fl_owner (lk_heap w req) = own" "local_lock (lk_heap w req)"
    "rq = (if added \<and> fl_type (lk_heap w req) \<noteq> F_UNLCK then [req] else [])"
    "rq \<noteq> [] \<Longrightarrow> IS_POSIX (lk_heap w req)"
    "sorted_wrt (\<lambda>a b. apart (lk_heap w a) (lk_heap w b)) (fl # R)"
    "\<forall>r\<in>set (fl # R). valid_lock (lk_heap w r)"
proof -
  have inv: "scan_inv (lk_heap w) own req added P0 lf rq (fl # R)"
    and l: "i_flock w ino = A @ P0 @ lf @ rq @ (fl # R) @ C" and d: "distinct (i_flock w ino)"
    and nin: "rq = [] \<longrightarrow> req \<notin> set (i_flock w ino)" and b: "before = length (A @ P0 @ lf @ rq)"
    using assms unfolding scan_state_def by blast+
  show rq: "rq = (if added \<and> fl_type (lk_heap w req) \<noteq> F_UNLCK then [req] else [])"
    using inv unfolding scan_inv_def by blast
  show "fl \<noteq> req"
  proof (cases "rq = []")
    case True with nin l show ?thesis by auto
  next
    case False with rq have "rq = [req]" by (simp split: if_splits)
    with d l show ?thesis by auto
  qed
  show "i_flock w ino = (A @ P0 @ lf @ rq) @ fl # R @ C" using l by simp
  show "before = length (A @ P0 @ lf @ rq)" by (rule b)
  have v: "valid_lock (lk_heap w a) \<and> fl_owner (lk_heap w a) = own" if "a \<in> set (P0 @ lf @ rq @ fl # R)" for a
    using inv that unfolding scan_inv_def by blast
  show "valid_lock (lk_heap w fl)" "fl_owner (lk_heap w fl) = own"
    "\<forall>r\<in>set (fl # R). valid_lock (lk_heap w r)" using v by auto
  show "fl_owner (lk_heap w req) = own" "local_lock (lk_heap w req)"
    using inv unfolding scan_inv_def by blast+
  show "IS_POSIX (lk_heap w req)" if "rq \<noteq> []"
    using v[of req] rq that by (auto simp: valid_lock_def split: if_splits)
  show "sorted_wrt (\<lambda>a b. apart (lk_heap w a) (lk_heap w b)) (fl # R)"
    using inv unfolding scan_inv_def sorted_wrt_append by blast
qed

text \<open>Deleting the lock at the cursor once the request is applied.\<close>

lemma scan_step_delete:
  assumes st: "scan_state w ino own A C before req added P0 lf rq (fl # R)"
    and ah: "ahead (lk_heap w) req added lf (fl # R)"
    and w1: "i_flock w1 = i_flock w"
      "\<And>a. a \<noteq> fl \<Longrightarrow> a \<noteq> req \<Longrightarrow> core (lk_heap w1 a) = core (lk_heap w a)"
      "absorbed (lk_heap w req) (lk_heap w fl) (lk_heap w1 req)"
      "fl_owner (lk_heap w1 req) = own" "local_lock (lk_heap w1 req)"
      "fl_flags (lk_heap w1 req) = fl_flags (lk_heap w req)"
    and added: "added \<or> fl_type (lk_heap w req) = F_UNLCK"
  defines "w2 \<equiv> locks_delete_lock w1 ino before"
  shows "scan_state w2 ino own A C before req True P0 lf rq R \<and> ahead (lk_heap w2) req True lf R \<and>
         scan_keeps w ino req (P0 @ lf @ fl # R) (P0 @ lf @ rq @ fl # R) w2 req (P0 @ lf @ R)
           (P0 @ lf @ rq @ R)"
proof -
  note D = scan_stateD[OF st]
  have l: "i_flock w1 ino = (A @ P0 @ lf @ rq) @ fl # (R @ C)" using D(1) w1(1) by simp
  have c: "core (lk_heap w2 a) = core (lk_heap w1 a)" if "a \<noteq> fl" for a
    unfolding w2_def by (rule core_delete_lock[OF l D(2) that])
  note cr = core_eqD[OF c[OF D(3)[symmetric]]]
  have "rq = (if fl_type (lk_heap w req) \<noteq> F_UNLCK then [req] else [])"
    using D(8) added by auto
  moreover have "absorbed (lk_heap w req) (lk_heap w fl) (lk_heap w2 req)"
    using w1(3) cr by (simp add: absorbed_def)
  moreover have "IS_POSIX (lk_heap w2 req)" if "fl_type (lk_heap w req) \<noteq> F_UNLCK"
    using D(8,9) that added w1(6) cr by (auto simp: IS_POSIX_def)
  ultimately have "scan_state w2 ino own A C (length (A @ P0 @ lf @ rq)) req True P0 lf rq R \<and>
         ahead (lk_heap w2) req True lf R \<and>
         scan_keeps w ino req (P0 @ lf @ fl # R) (P0 @ lf @ rq @ fl # R) w2 req (P0 @ lf @ R)
           (P0 @ lf @ rq @ R)"
    using w1 cr added c locks_delete_lock_list[OF l D(2)]
    by (intro scan_state_absorb[OF st ah]) (auto simp: w2_def local_lock_def)
  then show ?thesis using D(2) by simp
qed

text \<open>The lock at the cursor takes the place of the request.\<close>

lemma scan_step_become:
  assumes st: "scan_state w ino own A C before req False P0 lf rq (fl # R)"
    and ah: "ahead (lk_heap w) req False lf (fl # R)" and nu: "fl_type (lk_heap w req) \<noteq> F_UNLCK"
    and w1: "i_flock w1 = i_flock w"
      "\<And>a. a \<noteq> fl \<Longrightarrow> a \<noteq> req \<Longrightarrow> core (lk_heap w1 a) = core (lk_heap w a)"
      "absorbed (lk_heap w req) (lk_heap w fl) (lk_heap w1 fl)"
      "fl_owner (lk_heap w1 fl) = fl_owner (lk_heap w fl)" "local_lock (lk_heap w1 fl)"
      "fl_flags (lk_heap w1 fl) = fl_flags (lk_heap w fl)"
  shows "scan_state w1 ino own A C (Suc before) fl True P0 lf [fl] R \<and> ahead (lk_heap w1) fl True lf R \<and>
         scan_keeps w ino req (P0 @ lf @ fl # R) (P0 @ lf @ rq @ fl # R) w1 fl (P0 @ lf @ R)
           (P0 @ lf @ [fl] @ R)"
proof -
  note D = scan_stateD[OF st]
  have rq: "rq = []" using D(8) by simp
  have "IS_POSIX (lk_heap w1 fl)"
    using D(4) w1(6) by (simp add: IS_POSIX_def valid_lock_def)
  then have "scan_state w1 ino own A C (length (A @ P0 @ lf @ [fl])) fl True P0 lf [fl] R \<and>
         ahead (lk_heap w1) fl True lf R \<and>
         scan_keeps w ino req (P0 @ lf @ fl # R) (P0 @ lf @ rq @ fl # R) w1 fl (P0 @ lf @ R)
           (P0 @ lf @ [fl] @ R)"
    using w1 D(1,5) nu rq by (intro scan_state_absorb[OF st ah]) auto
  then show ?thesis using D(2) rq by simp
qed

lemma merge_absorbed:
  assumes "req \<noteq> fl" "fl_type (lk_heap w req) = fl_type (lk_heap w fl)"
    "\<not> fl_end (lk_heap w fl) < fl_start (lk_heap w req) - 1"
    "\<not> fl_start (lk_heap w fl) - 1 > fl_end (lk_heap w req)" "a = fl \<or> a = req"
  shows "absorbed (lk_heap w req) (lk_heap w fl) (lk_heap (merge_same_type w req fl) a)"
    "fl_owner (lk_heap (merge_same_type w req fl) a) = fl_owner (lk_heap w a)"
    "local_lock (lk_heap (merge_same_type w req fl) a) = local_lock (lk_heap w a)"
    "fl_flags (lk_heap (merge_same_type w req fl) a) = fl_flags (lk_heap w a)"
  using merge_same_type_heap(3)[OF assms(1,5), of w] assms
  by (auto simp: core_def absorbed_def local_lock_def)

lemma replace_absorbed:
  assumes "req \<noteq> fl" "fl_start (lk_heap w req) \<le> fl_start (lk_heap w fl)"
    "fl_end (lk_heap w fl) \<le> fl_end (lk_heap w req)" "local_lock (lk_heap w req)"
  shows "absorbed (lk_heap w req) (lk_heap w fl) (lk_heap (replace_lock w req fl) fl)"
    "fl_owner (lk_heap (replace_lock w req fl) fl) = fl_owner (lk_heap w fl)"
    "local_lock (lk_heap (replace_lock w req fl) fl)"
    "fl_flags (lk_heap (replace_lock w req fl) fl) = fl_flags (lk_heap w fl)"
  using replace_lock_heap(3)[OF assms(1), of w] assms
  by (auto simp: core_def absorbed_def local_lock_def)

lemma apart_all:
  assumes "sorted_wrt (\<lambda>a b. apart (h a) (h b)) (fl # R)" "\<forall>r\<in>set (fl # R). valid_lock (h r)"
    "apart f (h fl)"
  shows "\<forall>r\<in>set (fl # R). apart f (h r)"
  using assms by (fastforce simp: apart_def valid_lock_def)

lemma scan_foreign:
  assumes "scan_state w ino own A C before req added P0 lf rq []" "lf = opt_list left"
  shows "scan_result w ino own A C req added (P0 @ lf) (P0 @ lf @ rq)
           (posix_scan_owner w ino req added left before C)"
proof -
  have "posix_scan_owner w ino req added left before C = (w, req, added, left, None, before)"
  proof (cases C)
    case (Cons c C')
    have "local_lock (lk_heap w req)" "fl_owner (lk_heap w req) = own" "fl_owner (lk_heap w c) \<noteq> own"
      using assms(1) Cons unfolding scan_state_def scan_inv_def by auto
    then show ?thesis by (simp add: Cons same_owner_local Let_def)
  qed simp
  then show ?thesis using scan_result_stop[OF assms] by simp
qed

text \<open>The body of the scan for a lock of the same type and for one of a different type.\<close>

definition scan_ih :: "nat \<Rightarrow> nat \<Rightarrow> nat list \<Rightarrow> nat list \<Rightarrow> nat list \<Rightarrow> bool" where
  "scan_ih ino own A C R \<longleftrightarrow>
     (\<forall>w before req added left P0 lf rq.
        scan_state w ino own A C before req added P0 lf rq R \<and> lf = opt_list left \<and>
        ahead (lk_heap w) req added lf R \<longrightarrow>
        scan_result w ino own A C req added (P0 @ lf @ R) (P0 @ lf @ rq @ R)
          (posix_scan_owner w ino req added left before (R @ C)))"

lemma scan_ihD:
  "scan_ih ino own A C R \<Longrightarrow> scan_state w ino own A C before req added P0 lf rq R \<Longrightarrow>
   lf = opt_list left \<Longrightarrow> ahead (lk_heap w) req added lf R \<Longrightarrow>
   scan_result w ino own A C req added (P0 @ lf @ R) (P0 @ lf @ rq @ R)
     (posix_scan_owner w ino req added left before (R @ C))"
  by (simp add: scan_ih_def)

lemma scan_skip:
  assumes ih: "scan_ih ino own A C R"
    and st: "scan_state w ino own A C before req added P0 lf rq (fl # R)" and lf: "lf = opt_list left"
    and ah: "ahead (lk_heap w) req added lf (fl # R)" and ap: "apart (lk_heap w fl) (lk_heap w req)"
  shows "scan_result w ino own A C req added (P0 @ lf @ fl # R) (P0 @ lf @ rq @ fl # R)
           (posix_scan_owner w ino req added left (Suc before) (R @ C))"
proof -
  note D = scan_stateD[OF st]
  have "\<not> added \<and> lf = []"
    using ah ap D(4) by (auto simp: ahead_def apart_def valid_lock_def)
  then have n: "added = False" "lf = []" "rq = []" "left = None"
    using D(8) lf by (auto simp: opt_list_def split: option.splits)
  have "scan_state w ino own A C (Suc before) req False (P0 @ [fl]) [] [] R"
    using scan_state_skip[OF _ ap] st n by simp
  from scan_ihD[OF ih this, of None] show ?thesis
    using n by (simp add: ahead_def)
qed

lemma scan_same_type:
  assumes ih: "scan_ih ino own A C R"
    and st: "scan_state w ino own A C before req added P0 lf rq (fl # R)" and lf: "lf = opt_list left"
    and ah: "ahead (lk_heap w) req added lf (fl # R)"
    and ty: "fl_type (lk_heap w req) = fl_type (lk_heap w fl)"
  shows "scan_result w ino own A C req added (P0 @ lf @ fl # R) (P0 @ lf @ rq @ fl # R)
           (posix_scan_owner w ino req added left before ((fl # R) @ C))"
proof -
  note D = scan_stateD[OF st]
  let ?r = "lk_heap w req" and ?f = "lk_heap w fl" and ?w1 = "merge_same_type w req fl"
  have own: "posix_same_owner ?r ?f" using D(5-7) by (simp add: same_owner_local)
  have nu: "fl_type ?r \<noteq> F_UNLCK" using ty valid_not_unlck[OF D(4)] by simp
  consider (skip) "fl_end ?f < fl_start ?r - 1"
    | (stop) "\<not> fl_end ?f < fl_start ?r - 1" "fl_start ?f - 1 > fl_end ?r"
    | (merge) "\<not> fl_end ?f < fl_start ?r - 1" "\<not> fl_start ?f - 1 > fl_end ?r" by blast
  then show ?thesis
  proof cases
    case skip
    then show ?thesis
      using scan_skip[OF ih st lf ah] own ty by (simp add: apart_def Let_def)
  next
    case stop
    then have "\<forall>r\<in>set (fl # R). apart ?r (lk_heap w r)"
      by (intro apart_all[OF D(10,11)]) (simp add: apart_def)
    from scan_result_stop[OF st lf this] show ?thesis using stop own ty by (simp add: Let_def)
  next
    case merge
    note H = merge_same_type_heap[OF D(3)[symmetric], where w = w]
      and B = merge_absorbed[OF D(3)[symmetric] ty merge]
    show ?thesis
    proof (cases added)
      case True
      let ?w2 = "locks_delete_lock ?w1 ino before"
      have S: "scan_state ?w2 ino own A C before req True P0 lf rq R \<and> ahead (lk_heap ?w2) req True lf R \<and>
         scan_keeps w ino req (P0 @ lf @ fl # R) (P0 @ lf @ rq @ fl # R) ?w2 req (P0 @ lf @ R)
           (P0 @ lf @ rq @ R)"
        using B[of req] D(6,7) True by (intro scan_step_delete[OF st ah H(1,2)]) auto
      have "scan_result ?w2 ino own A C req True (P0 @ lf @ R) (P0 @ lf @ rq @ R)
          (posix_scan_owner ?w2 ino req True left before (R @ C))"
        using S by (intro scan_ihD[OF ih _ lf]) auto
      from scan_result_step[OF this, where w = w and req = req] S
      show ?thesis using True merge own ty by (simp add: Let_def)
    next
      case False
      have S: "scan_state ?w1 ino own A C (Suc before) fl True P0 lf [fl] R \<and>
         ahead (lk_heap ?w1) fl True lf R \<and>
         scan_keeps w ino req (P0 @ lf @ fl # R) (P0 @ lf @ rq @ fl # R) ?w1 fl (P0 @ lf @ R)
           (P0 @ lf @ [fl] @ R)"
        using B[of fl] D(4,5) st ah False nu H(1,2)
        by (intro scan_step_become) (auto simp: valid_lock_def)
      have "scan_result ?w1 ino own A C fl True (P0 @ lf @ R) (P0 @ lf @ [fl] @ R)
          (posix_scan_owner ?w1 ino fl True left (Suc before) (R @ C))"
        using S by (intro scan_ihD[OF ih _ lf]) auto
      from scan_result_step[OF this, where w = w and req = req] S
      show ?thesis using False merge own ty by (simp add: Let_def)
    qed
  qed
qed

lemma scan_other_type:
  assumes ih: "scan_ih ino own A C R"
    and st: "scan_state w ino own A C before req added P0 lf rq (fl # R)" and lf: "lf = opt_list left"
    and ah: "ahead (lk_heap w) req added lf (fl # R)"
    and ty: "fl_type (lk_heap w req) \<noteq> fl_type (lk_heap w fl)"
  shows "scan_result w ino own A C req added (P0 @ lf @ fl # R) (P0 @ lf @ rq @ fl # R)
           (posix_scan_owner w ino req added left before ((fl # R) @ C))"
proof -
  note D = scan_stateD[OF st]
  let ?r = "lk_heap w req" and ?f = "lk_heap w fl"
  let ?added = "fl_type ?r = F_UNLCK \<or> added"
  have own: "posix_same_owner ?r ?f" using D(5-7) by (simp add: same_owner_local)
  consider (skip) "fl_end ?f < fl_start ?r"
    | (stop) "\<not> fl_end ?f < fl_start ?r" "fl_start ?f > fl_end ?r"
    | (right) "\<not> fl_end ?f < fl_start ?r" "\<not> fl_start ?f > fl_end ?r" "fl_end ?f > fl_end ?r"
    | (left) "\<not> fl_end ?f < fl_start ?r" "\<not> fl_start ?f > fl_end ?r" "\<not> fl_end ?f > fl_end ?r"
        "fl_start ?f < fl_start ?r"
    | (inside) "\<not> fl_end ?f < fl_start ?r" "\<not> fl_start ?f > fl_end ?r" "\<not> fl_end ?f > fl_end ?r"
        "\<not> fl_start ?f < fl_start ?r" by blast
  then show ?thesis
  proof cases
    case skip
    then show ?thesis
      using scan_skip[OF ih st lf ah] own ty by (simp add: apart_def Let_def)
  next
    case stop
    then have "\<forall>r\<in>set (fl # R). apart ?r (lk_heap w r)"
      using ty by (intro apart_all[OF D(10,11)]) (simp add: apart_def)
    from scan_result_stop[OF st lf this] show ?thesis using stop own ty by (simp add: Let_def)
  next
    case right
    then show ?thesis
      using scan_result_right[OF st lf ah _ _ _ refl refl] own ty
      by (auto simp: Let_def split: if_splits)
  next
    case left
    then have "\<not> added \<and> lf = []" using ah by (auto simp: ahead_def)
    then have n: "\<not> added" "lf = []" "rq = []" using D(8) by auto
    have S: "scan_state w ino own A C (Suc before) req ?added P0 [fl] [] R \<and>
         ahead (lk_heap w) req ?added [fl] R"
      using left ty n by (intro scan_state_left[OF st[unfolded n]]) auto
    have "scan_result w ino own A C req ?added (P0 @ [fl] @ R) (P0 @ [fl] @ [] @ R)
       (posix_scan_owner w ino req ?added (Some fl) (Suc before) (R @ C))"
      by (rule scan_ihD[OF ih conjunct1[OF S] _ conjunct2[OF S]]) simp
    then have "scan_result w ino own A C req added (P0 @ [fl] @ R) (P0 @ [fl] @ [] @ R)
       (posix_scan_owner w ino req ?added (Some fl) (Suc before) (R @ C))"
      by (rule scan_result_step[OF _ scan_keeps_refl[OF subset_refl]]) (use n in simp)
    then show ?thesis
      using left own ty n by (cases "fl_type ?r = F_UNLCK") (simp_all add: Let_def)
  next
    case inside
    show ?thesis
    proof (cases ?added)
      case True
      let ?w2 = "locks_delete_lock w ino before"
      have S: "scan_state ?w2 ino own A C before req True P0 lf rq R \<and> ahead (lk_heap ?w2) req True lf R \<and>
         scan_keeps w ino req (P0 @ lf @ fl # R) (P0 @ lf @ rq @ fl # R) ?w2 req (P0 @ lf @ R)
           (P0 @ lf @ rq @ R)"
        using inside D(6,7) True by (intro scan_step_delete[OF st ah]) (auto simp: absorbed_def)
      have "scan_result ?w2 ino own A C req True (P0 @ lf @ R) (P0 @ lf @ rq @ R)
          (posix_scan_owner ?w2 ino req True left before (R @ C))"
        using S by (intro scan_ihD[OF ih _ lf]) auto
      from scan_result_step[OF this, where w = w and req = req] S
      show ?thesis using True inside own ty by (auto simp: Let_def)
    next
      case False
      let ?w1 = "replace_lock w req fl"
      note H = replace_lock_heap[OF D(3)[symmetric], where w = w]
        and B = replace_absorbed[OF D(3)[symmetric] _ _ D(7)]
      have S: "scan_state ?w1 ino own A C (Suc before) fl True P0 lf [fl] R \<and>
         ahead (lk_heap ?w1) fl True lf R \<and>
         scan_keeps w ino req (P0 @ lf @ fl # R) (P0 @ lf @ rq @ fl # R) ?w1 fl (P0 @ lf @ R)
           (P0 @ lf @ [fl] @ R)"
        using B inside st ah False H(1,2) by (intro scan_step_become) auto
      have "scan_result ?w1 ino own A C fl True (P0 @ lf @ R) (P0 @ lf @ [fl] @ R)
          (posix_scan_owner ?w1 ino fl True left (Suc before) (R @ C))"
        using S by (intro scan_ihD[OF ih _ lf]) auto
      from scan_result_step[OF this, where w = w and req = req] S
      show ?thesis using False inside own ty by (simp add: Let_def)
    qed
  qed
qed

lemma posix_scan_owner_spec: "scan_ih ino own A C R"
proof (induction R)
  case Nil
  show ?case unfolding scan_ih_def using scan_foreign by auto
next
  case (Cons fl R)
  show ?case unfolding scan_ih_def
    using scan_same_type[OF Cons.IH] scan_other_type[OF Cons.IH] by blast
qed

section \<open>Applying the request\<close>

text \<open>The lock left of the request, or the left part of the lock it splits.\<close>

definition left_piece ::
  "(nat \<Rightarrow> file_lock) \<Rightarrow> (nat \<Rightarrow> file_lock) \<Rightarrow> file_lock \<Rightarrow> nat list \<Rightarrow> nat list \<Rightarrow> bool" where
  "left_piece h h' r L0 L \<longleftrightarrow>
     L0 = [] \<and> L = [] \<or>
     (\<exists>l0 l. L0 = [l0] \<and> L = [l] \<and> core (h' l) = core ((h l0)\<lparr>fl_end := fl_start r - 1\<rparr>) \<and>
        fl_start (h l0) < fl_start r \<and> fl_start r \<le> fl_end (h l0) \<and> fl_type (h l0) \<noteq> fl_type r)"

definition right_piece ::
  "(nat \<Rightarrow> file_lock) \<Rightarrow> (nat \<Rightarrow> file_lock) \<Rightarrow> file_lock \<Rightarrow> nat list \<Rightarrow> bool" where
  "right_piece h h' r R \<longleftrightarrow>
     (\<forall>a\<in>set R. core (h' a) = core (h a) \<and> apart r (h a)) \<or>
     (\<exists>x R'. R = x # R' \<and> core (h' x) = core ((h x)\<lparr>fl_start := fl_end r + 1\<rparr>) \<and>
        fl_start (h x) \<le> fl_end r \<and> fl_end r < fl_end (h x) \<and> fl_type (h x) \<noteq> fl_type r \<and>
        (\<forall>a\<in>set R'. core (h' a) = core (h a)))"

lemma left_piece_props:
  assumes "left_piece h h' r L0 L" "\<forall>a\<in>set L0. valid_lock (h a) \<and> fl_owner (h a) = own"
    "a \<in> set L"
  shows "valid_lock (h' a)" "fl_owner (h' a) = own" "apart (h' a) r"
    "\<exists>l0\<in>set L0. fl_start (h' a) = fl_start (h l0) \<and> fl_type (h' a) = fl_type (h l0)"
  using assms by (auto simp: left_piece_def core_def valid_lock_def apart_def IS_POSIX_def local_lock_def)

lemma right_piece_props:
  assumes "right_piece h h' r R" "\<forall>a\<in>set R. valid_lock (h a) \<and> fl_owner (h a) = own"
    "sorted_wrt (\<lambda>a b. apart (h a) (h b)) R" "0 \<le> fl_start r" "fl_start r \<le> fl_end r"
  shows "a \<in> set R \<Longrightarrow> valid_lock (h' a) \<and> fl_owner (h' a) = own \<and> apart r (h' a)"
    "sorted_wrt (\<lambda>a b. apart (h' a) (h' b)) R"
proof -
  have "(\<forall>a\<in>set R. valid_lock (h' a) \<and> fl_owner (h' a) = own \<and> apart r (h' a)) \<and>
        sorted_wrt (\<lambda>a b. apart (h' a) (h' b)) R"
    using assms(1) unfolding right_piece_def
  proof (elim disjE exE conjE)
    assume a: "\<forall>a\<in>set R. core (h' a) = core (h a) \<and> apart r (h a)"
    then have c: "core (h' a) = core (h a)" if "a \<in> set R" for a using that by blast
    have "sorted_wrt (\<lambda>a b. apart (h' a) (h' b)) R"
      using assms(3) by (rule sorted_wrt_mono_rel[rotated]) (simp add: apart_core[OF c c])
    with a assms(2) show ?thesis
      by (simp add: valid_core[OF c] core_eqD(1)[OF c] apart_core[OF refl c])
  next
    fix x R'
    assume R: "R = x # R'" and x: "core (h' x) = core ((h x)\<lparr>fl_start := fl_end r + 1\<rparr>)"
      "fl_start (h x) \<le> fl_end r" "fl_end r < fl_end (h x)" "fl_type (h x) \<noteq> fl_type r"
      and c': "\<forall>a\<in>set R'. core (h' a) = core (h a)"
    then have c: "core (h' a) = core (h a)" if "a \<in> set R'" for a using that by blast
    have after: "apart (h x) (h a)" "fl_start (h a) \<le> fl_end (h a)" if "a \<in> set R'" for a
      using assms(2,3) that by (auto simp: R valid_lock_def)
    have x': "valid_lock (h' x) \<and> fl_owner (h' x) = own \<and> apart r (h' x)"
      "fl_end (h' x) = fl_end (h x)" "fl_type (h' x) = fl_type (h x)"
      using x assms(2,4,5) by (auto simp: R core_def valid_lock_def apart_def IS_POSIX_def local_lock_def)
    have "sorted_wrt (\<lambda>a b. apart (h a) (h b)) R'" using assms(3) R by simp
    then have "sorted_wrt (\<lambda>a b. apart (h' a) (h' b)) R'"
      by (rule sorted_wrt_mono_rel[rotated]) (simp add: apart_core[OF c c])
    moreover have "apart (h' x) (h' a) \<and> apart r (h' a)" if "a \<in> set R'" for a
      using after[OF that] x(3) x' c[OF that] by (auto simp: apart_def core_def)
    moreover have "valid_lock (h' a) \<and> fl_owner (h' a) = own" if "a \<in> set R'" for a
      using assms(2) that R by (simp add: valid_core[OF c] core_eqD(1)[OF c])
    ultimately show ?thesis using x'(1) R by simp
  qed
  then show "a \<in> set R \<Longrightarrow> valid_lock (h' a) \<and> fl_owner (h' a) = own \<and> apart r (h' a)"
    "sorted_wrt (\<lambda>a b. apart (h' a) (h' b)) R" by auto
qed

lemma right_piece_start:
  assumes "right_piece h h' r R" "a \<in> set R"
  shows "fl_start (h a) \<le> fl_start (h' a) \<and> fl_type (h' a) = fl_type (h a)"
  using assms by (auto simp: right_piece_def core_def)

lemma left_piece_bytes:
  assumes "left_piece h h' r L0 L"
  shows "(b, t) \<in> lock_bytes h' L \<longleftrightarrow> b < fl_start r \<and> (b, t) \<in> lock_bytes h L0"
  using assms by (auto simp: left_piece_def core_def lock_bytes_def)

lemma right_piece_bytes:
  assumes "right_piece h h' r R" "\<forall>a\<in>set R. valid_lock (h a)"
    "sorted_wrt (\<lambda>a b. apart (h a) (h b)) R"
  shows "(b, t) \<in> lock_bytes h' R \<longleftrightarrow> fl_end r < b \<and> (b, t) \<in> lock_bytes h R"
  using assms(1) unfolding right_piece_def
proof (elim disjE exE conjE)
  assume a: "\<forall>a\<in>set R. core (h' a) = core (h a) \<and> apart r (h a)"
  then have "lock_bytes h' R = lock_bytes h R" by (intro lock_bytes_cong) auto
  with a show ?thesis by (auto simp: lock_bytes_def apart_def)
next
  fix x R'
  assume R: "R = x # R'" and x: "core (h' x) = core ((h x)\<lparr>fl_start := fl_end r + 1\<rparr>)"
    "fl_start (h x) \<le> fl_end r" "fl_end r < fl_end (h x)"
    and c: "\<forall>a\<in>set R'. core (h' a) = core (h a)"
  have after: "fl_end (h x) < fl_start (h a)" if "a \<in> set R'" for a
    using assms(3) that R by (auto simp: apart_def)
  have "lock_bytes h' R' = lock_bytes h R'" using c by (intro lock_bytes_cong) auto
  then have "(b, t) \<in> lock_bytes h' R \<longleftrightarrow> (b, t) \<in> lock_bytes h' [x] \<or> (b, t) \<in> lock_bytes h R'"
    using lock_bytes_append[of h' "[x]" R'] R by simp
  moreover have "(b, t) \<in> lock_bytes h' [x] \<longleftrightarrow> fl_end r < b \<and> (b, t) \<in> lock_bytes h [x]"
    using x by (auto simp: lock_bytes_def core_def)
  moreover have "(b, t) \<in> lock_bytes h R' \<Longrightarrow> fl_end r < b"
    using after x(3) by (force simp: lock_bytes_def)
  ultimately show ?thesis using lock_bytes_append[of h "[x]" R'] R by auto
qed

text \<open>The finished list of the owner's locks.\<close>

definition owner_list :: "(nat \<Rightarrow> file_lock) \<Rightarrow> nat \<Rightarrow> nat list \<Rightarrow> bool" where
  "owner_list h own xs \<longleftrightarrow>
     (\<forall>a\<in>set xs. valid_lock (h a) \<and> fl_owner (h a) = own) \<and> sorted_wrt (\<lambda>a b. apart (h a) (h b)) xs"

lemma apply_pieces_list:
  assumes inv: "scan_inv h own req added P0 lf rq R"
    and P: "\<And>a. a \<in> set P0 \<Longrightarrow> core (h' a) = core (h a)"
    and L: "left_piece h h' (h req) L0 L" and Rr: "right_piece h h' (h req) R"
    and L0: "L0 = lf \<and> (\<forall>r\<in>set R. fl_start (h req) \<le> fl_start (h r)) \<or>
             lf = [] \<and> (\<exists>x R'. R = x # R' \<and> L0 = [x])"
    and q: "q = (if fl_type (h req) = F_UNLCK then [] else [x])"
      "q \<noteq> [] \<Longrightarrow> core (h' x) = core (h req) \<and> IS_POSIX (h req)"
  shows "owner_list h' own (P0 @ L @ q @ R)"
proof -
  have v: "\<forall>a\<in>set (P0 @ lf @ R). valid_lock (h a) \<and> fl_owner (h a) = own"
    and s: "sorted_wrt (\<lambda>a b. apart (h a) (h b)) (P0 @ lf @ R)"
    and P0r: "\<forall>a\<in>set P0. apart (h a) (h req)"
    and r: "0 \<le> fl_start (h req)" "fl_start (h req) \<le> fl_end (h req)" "fl_end (h req) \<le> OFFSET_MAX"
      "fl_owner (h req) = own" "local_lock (h req)"
      "fl_type (h req) = F_RDLCK \<or> fl_type (h req) = F_WRLCK \<or> fl_type (h req) = F_UNLCK"
    using inv unfolding scan_inv_def by auto
  have vL0: "\<forall>a\<in>set L0. valid_lock (h a) \<and> fl_owner (h a) = own" and L0in: "set L0 \<subseteq> set (lf @ R)"
    using v L0 by auto
  note Lp = left_piece_props[OF L vL0]
  have vR: "\<forall>a\<in>set R. valid_lock (h a) \<and> fl_owner (h a) = own"
    and sR: "sorted_wrt (\<lambda>a b. apart (h a) (h b)) R" and sP: "sorted_wrt (\<lambda>a b. apart (h a) (h b)) P0"
    and PX: "\<And>a b. a \<in> set P0 \<Longrightarrow> b \<in> set (lf @ R) \<Longrightarrow> apart (h a) (h b)"
    using v s by (auto simp: sorted_wrt_append)
  note Rp = right_piece_props[OF Rr vR sR r(1,2)]
  have "sorted_wrt (\<lambda>a b. apart (h' a) (h' b)) P0"
    using sP by (rule sorted_wrt_mono_rel[rotated]) (simp add: apart_core[OF P P])
  moreover have "sorted_wrt (\<lambda>a b. apart (h' a) (h' b)) L"
    using L by (auto simp: left_piece_def)
  moreover have "apart (h' a) (h' b)" if "a \<in> set P0" "b \<in> set L" for a b
    using Lp(4)[OF that(2)] PX[OF that(1)] L0in core_eqD[OF P[OF that(1)]] by (fastforce simp: apart_def)
  moreover have "apart (h' a) (h' b)" if "a \<in> set P0" "b \<in> set R" for a b
    using right_piece_start[OF Rr that(2)] PX[OF that(1), of b] that core_eqD[OF P[OF that(1)]]
    by (fastforce simp: apart_def)
  moreover have "apart (h' a) (h' b)" if "a \<in> set L" "b \<in> set R" for a b
    using Lp(3)[OF that(1)] Rp(1)[OF that(2)] r(2) by (auto simp: apart_def)
  moreover have "valid_lock (h' x) \<and> fl_owner (h' x) = own" "\<And>a. a \<in> set P0 \<Longrightarrow> apart (h' a) (h' x)"
      "\<And>a. a \<in> set L \<Longrightarrow> apart (h' a) (h' x)" "\<And>a. a \<in> set R \<Longrightarrow> apart (h' x) (h' a)"
    if "fl_type (h req) \<noteq> F_UNLCK"
  proof -
    have c: "core (h' x) = core (h req)" and "IS_POSIX (h req)" using q that by auto
    then have "valid_lock (h req)" using r that by (simp add: valid_lock_def)
    then show "valid_lock (h' x) \<and> fl_owner (h' x) = own"
      using r(4) by (simp add: valid_core[OF c] core_eqD(1)[OF c])
    show "apart (h' a) (h' x)" if "a \<in> set P0" for a
      using P0r that by (simp add: apart_core[OF P c])
    show "apart (h' a) (h' x)" if "a \<in> set L" for a
      using Lp(3)[OF that] by (simp add: apart_core[OF refl c])
    show "apart (h' x) (h' a)" if "a \<in> set R" for a
      using Rp(1)[OF that] by (simp add: apart_core[OF c refl])
  qed
  moreover have "valid_lock (h' a) \<and> fl_owner (h' a) = own" if "a \<in> set P0" for a
    using v that by (simp add: valid_core[OF P] core_eqD(1)[OF P])
  ultimately show ?thesis
    unfolding owner_list_def sorted_wrt_append q(1) using Lp(1,2) Rp by auto
qed

lemma apply_pieces_bytes:
  assumes inv: "scan_inv h own req added P0 lf rq R"
    and P: "\<And>a. a \<in> set P0 \<Longrightarrow> core (h' a) = core (h a)"
    and L: "left_piece h h' (h req) L0 L" and Rr: "right_piece h h' (h req) R"
    and L0: "L0 = lf \<and> (\<forall>r\<in>set R. fl_start (h req) \<le> fl_start (h r)) \<or>
             lf = [] \<and> (\<exists>x R'. R = x # R' \<and> L0 = [x])"
    and q: "q = (if fl_type (h req) = F_UNLCK then [] else [x])"
      "q \<noteq> [] \<Longrightarrow> core (h' x) = core (h req) \<and> IS_POSIX (h req)"
  shows "lock_bytes h' (P0 @ L @ q @ R) =
           {(b, t). (b, t) \<in> overridden h (h req) (P0 @ lf @ R) \<and> t \<noteq> F_UNLCK}"
proof -
  have v: "\<forall>a\<in>set (P0 @ lf @ R). valid_lock (h a)" and vR: "\<forall>a\<in>set R. valid_lock (h a)"
    and sR: "sorted_wrt (\<lambda>a b. apart (h a) (h b)) R"
    and P0r: "\<forall>a\<in>set P0. apart (h a) (h req)" and r: "fl_start (h req) \<le> fl_end (h req)"
    and lf: "\<forall>l\<in>set lf. fl_end (h l) \<le> fl_end (h req)"
    using inv unfolding scan_inv_def by (auto simp: sorted_wrt_append)
  have nu: "t \<noteq> F_UNLCK" if "(b, t) \<in> lock_bytes h (P0 @ lf @ R)" for b t
    using v that valid_not_unlck by (auto simp: lock_bytes_def)
  have P': "lock_bytes h' P0 = lock_bytes h P0" using P by (intro lock_bytes_cong) auto
  have Pb: "b < fl_start (h req)" if "(b, t) \<in> lock_bytes h P0" for b t
    using P0r that by (fastforce simp: lock_bytes_def apart_def)
  have lfb: "b \<le> fl_end (h req)" if "(b, t) \<in> lock_bytes h lf" for b t
    using lf that by (fastforce simp: lock_bytes_def)
  have qb: "(b, t) \<in> lock_bytes h' q \<longleftrightarrow>
      fl_start (h req) \<le> b \<and> b \<le> fl_end (h req) \<and> t = fl_type (h req) \<and> t \<noteq> F_UNLCK" for b t
    using q by (auto simp: lock_bytes_def core_def)
  have left: "(b, t) \<in> lock_bytes h L0 \<longleftrightarrow> (b, t) \<in> lock_bytes h lf \<or> (b, t) \<in> lock_bytes h R"
    if "b < fl_start (h req)" for b t
    using L0
  proof (elim disjE conjE exE)
    assume "L0 = lf" "\<forall>r\<in>set R. fl_start (h req) \<le> fl_start (h r)"
    then show ?thesis using that by (force simp: lock_bytes_def)
  next
    fix y R' assume y: "lf = []" "R = y # R'" "L0 = [y]"
    then have "fl_start (h req) \<le> fl_start (h a)" if "a \<in> set R'" for a
      using L sR that by (fastforce simp: left_piece_def apart_def)
    then show ?thesis using y that by (force simp: lock_bytes_def)
  qed
  have "(b, t) \<in> lock_bytes h' (P0 @ L @ q @ R) \<longleftrightarrow>
      (b, t) \<in> overridden h (h req) (P0 @ lf @ R) \<and> t \<noteq> F_UNLCK" for b t
    using nu[of b t] Pb[of b t] lfb[of b t] left[of b t] r
    by (auto simp: overridden_def lock_bytes_append P' qb left_piece_bytes[OF L]
        right_piece_bytes[OF Rr vR sR])
  then show ?thesis by auto
qed


text \<open>The insertions and the trimming at the end of \<open>__posix_lock_file\<close>, on the store.\<close>

definition add_step ::
  "u32 \<Rightarrow> nat \<Rightarrow> nat \<Rightarrow> nat option \<Rightarrow> lock_world \<Rightarrow> nat \<Rightarrow> bool \<Rightarrow> lock_world" where
  "add_step cur ino before new_fl w req added =
     (case new_fl of
        Some n \<Rightarrow>
          if \<not> added
          then locks_insert_lock (lk_upd w n (\<lambda>x. locks_copy_lock x (lk_heap w req))) cur ino before n
          else w
      | None \<Rightarrow> w)"

lemma core_upd: "core (lk_heap (lk_upd w a f) b) = (if b = a then core (f (lk_heap w a)) else core (lk_heap w b))"
  by simp

lemma trim_left_heap:
  shows "i_flock (trim_left w req left) = i_flock w"
    and "core (lk_heap (trim_left w req left) a) =
      (if left = Some a then core ((lk_heap w a)\<lparr>fl_end := fl_start (lk_heap w req) - 1\<rparr>)
       else core (lk_heap w a))"
  by (auto simp: trim_left_def split: option.split)


lemma add_step_heap:
  assumes "i_flock w ino = (A @ P) @ R" "before = length (A @ P)"
    "added \<or> new_fl = Some n \<and> n \<noteq> req" "w2 = add_step cur ino before new_fl w req added"
  shows "i_flock w2 = (i_flock w)(ino := A @ P @ (if added then [] else [n]) @ R)"
    and "\<not> added \<Longrightarrow> core (lk_heap w2 n) = core (lk_heap w req)"
    and "added \<or> a \<noteq> n \<Longrightarrow> core (lk_heap w2 a) = core (lk_heap w a)"
  using assms locks_insert_lock_list[of "lk_upd w n (\<lambda>x. locks_copy_lock x (lk_heap w req))" ino "A @ P" R before cur n]
  by (auto simp: add_step_def core_insert_lock split: option.split)

lemma trim_right_same:
  assumes "right = Some x" "left \<noteq> right" "trim_right w cur ino req left right n2 before = (w', left', n2')"
  shows "left' = left \<and> i_flock w' = i_flock w \<and>
    core (lk_heap w' x) = core ((lk_heap w x)\<lparr>fl_start := fl_end (lk_heap w req) + 1\<rparr>) \<and>
    (\<forall>a. a \<noteq> x \<longrightarrow> core (lk_heap w' a) = core (lk_heap w a))"
  using assms by (auto simp: trim_right_def Let_def split: option.splits prod.splits)

lemma trim_right_split:
  assumes "trim_right w cur ino req (Some x) (Some x) (Some m) before = (w', left', n2')"
    "i_flock w ino = (A @ P) @ R" "before = length (A @ P)" "m \<noteq> x" "m \<noteq> req"
  shows "left' = Some m \<and> i_flock w' = (i_flock w)(ino := A @ P @ m # R) \<and>
    core (lk_heap w' m) = core (lk_heap w x) \<and>
    core (lk_heap w' x) = core ((lk_heap w x)\<lparr>fl_start := fl_end (lk_heap w req) + 1\<rparr>) \<and>
    (\<forall>a. a \<noteq> x \<and> a \<noteq> m \<longrightarrow> core (lk_heap w' a) = core (lk_heap w a))"
proof -
  define w1 where "w1 = lk_upd w m (\<lambda>y. locks_copy_lock y (lk_heap w x))"
  define w2 where "w2 = locks_insert_lock w1 cur ino before m"
  have w2: "i_flock w2 = (i_flock w)(ino := A @ P @ m # R)" "core (lk_heap w2 m) = core (lk_heap w x)"
    "\<And>a. a \<noteq> m \<Longrightarrow> core (lk_heap w2 a) = core (lk_heap w a)"
    using locks_insert_lock_list[of w1 ino "A @ P" R before cur m] assms(2,3)
    by (auto simp: w2_def w1_def core_insert_lock)
  have "left' = Some m" "w' = locks_wake_up_blocks
      (lk_upd w2 x (\<lambda>y. y\<lparr>fl_start := fl_end (lk_heap w2 req) + 1\<rparr>)) x"
    using assms(1) by (auto simp: trim_right_def Let_def w2_def w1_def)
  moreover have "core ((lk_heap w2 x)\<lparr>fl_start := fl_end (lk_heap w2 req) + 1\<rparr>) =
      core ((lk_heap w x)\<lparr>fl_start := fl_end (lk_heap w req) + 1\<rparr>)"
    using w2(3)[of x] w2(3)[of req] assms(4,5) by (auto simp: core_def)
  ultimately show ?thesis using w2 assms(4) by auto
qed


end
