(* ===== verification/Lock_Map.thy ===== *)
theory Lock_Map
  imports Lock_Ranges
begin

text \<open>
  The end of \<open>__posix_lock_file\<close>: inserting the request, cutting the neighbours, and what the
  file's locks look like as a map from owners and bytes to lock types.
\<close>

text \<open>The success path after the early exits.\<close>

definition apply_core ::
  "u32 \<Rightarrow> nat \<Rightarrow> nat option \<Rightarrow> nat option \<Rightarrow> posix_scan \<Rightarrow> lock_world" where
  "apply_core cur ino new_fl new_fl2 scan =
     (let (w, request, added, left, right, before) = scan;
          (w, left, new_fl2) =
            trim_right (add_step cur ino before new_fl w request added) cur ino request left right new_fl2 before
      in trim_left w request left)"

lemma posix_apply_core:
  "posix_apply cur ino new_fl new_fl2 (w, request, added, left, right, before) =
     (let r = lk_heap w request in
      if right \<noteq> None \<and> left = right \<and> new_fl2 = None then (w, Some ENOLCK, new_fl, new_fl2)
      else if \<not> added \<and> fl_type r = F_UNLCK
      then (w, if has_flag r FL_EXISTS then Some ENOENT else None, new_fl, new_fl2)
      else if \<not> added \<and> new_fl = None then (w, Some ENOLCK, new_fl, new_fl2)
      else (apply_core cur ino new_fl new_fl2 (w, request, added, left, right, before), None,
            if added then new_fl else None,
            if right \<noteq> None \<and> left = right then None else new_fl2))"
  by (auto simp: posix_apply_def apply_core_def add_step_def trim_right_def Let_def split: option.splits)


text \<open>What \<open>apply_core\<close> leaves, in terms of the pieces.\<close>

definition applied ::
  "lock_world \<Rightarrow> nat \<Rightarrow> nat \<Rightarrow> nat list \<Rightarrow> nat list \<Rightarrow> nat list \<Rightarrow> nat list \<Rightarrow> nat list \<Rightarrow> lock_world \<Rightarrow> bool" where
  "applied w ino req A P0 L0 R C w' \<longleftrightarrow>
     (\<exists>L q x. i_flock w' = (i_flock w)(ino := A @ (P0 @ L @ q @ R) @ C) \<and>
        left_piece (lk_heap w) (lk_heap w') (lk_heap w req) L0 L \<and>
        right_piece (lk_heap w) (lk_heap w') (lk_heap w req) R \<and>
        q = (if fl_type (lk_heap w req) = F_UNLCK then [] else [x]) \<and>
        (q \<noteq> [] \<longrightarrow> core (lk_heap w' x) = core (lk_heap w req)) \<and>
        (\<forall>a\<in>set (P0 @ A @ C). core (lk_heap w' a) = core (lk_heap w a)) \<and>
        distinct (P0 @ L @ q @ R) \<and> set (L @ q) \<inter> set (A @ C) = {})"

text \<open>Inserting the request and cutting the lock to its right, the state before the left lock is cut.\<close>

definition cut_right :: "lock_world \<Rightarrow> nat \<Rightarrow> nat \<Rightarrow> nat option \<Rightarrow> nat set \<Rightarrow> nat list \<Rightarrow> lock_world \<Rightarrow> bool" where
  "cut_right w ino req right old l w3 \<longleftrightarrow> i_flock w3 = (i_flock w)(ino := l) \<and>
     (\<forall>a. a = req \<or> a \<in> old \<longrightarrow> right \<noteq> Some a \<longrightarrow> core (lk_heap w3 a) = core (lk_heap w a)) \<and>
     (\<forall>r. right = Some r \<longrightarrow> core (lk_heap w3 r) = core ((lk_heap w r)\<lparr>fl_start := fl_end (lk_heap w req) + 1\<rparr>))"

lemma scan_state_request:
  assumes "scan_state w ino own A C before req added P0 lf rq R"
  shows "req \<notin> set (A @ P0 @ lf @ R @ C)"
proof (cases "rq = []")
  case True
  then show ?thesis using assms unfolding scan_state_def by auto
next
  case False
  then have "rq = [req]" using assms unfolding scan_state_def scan_inv_def by (auto split: if_splits)
  then show ?thesis using assms unfolding scan_state_def by auto
qed

lemma apply_core_cut_right:
  assumes st: "scan_state w ino own A C before req added P0 lf rq R" and lr: "left \<noteq> right \<or> right = None"
    and n: "\<not> added \<Longrightarrow> new_fl = Some n \<and> n \<noteq> req \<and> n \<notin> set (i_flock w ino) \<and> fl_type (lk_heap w req) \<noteq> F_UNLCK"
    and right: "\<And>r. right = Some r \<Longrightarrow> r \<in> set R"
  defines "q \<equiv> if fl_type (lk_heap w req) = F_UNLCK then [] else [if added then req else n]"
  shows "\<exists>w3. apply_core cur ino new_fl new_fl2 (w, req, added, left, right, before) = trim_left w3 req left \<and>
    cut_right w ino req right (set (A @ P0 @ lf @ R @ C)) (A @ (P0 @ lf @ q @ R) @ C) w3 \<and>
    (\<not> added \<longrightarrow> core (lk_heap w3 n) = core (lk_heap w req))"
proof -
  have l: "i_flock w ino = A @ P0 @ lf @ rq @ R @ C" and b: "before = length (A @ P0 @ lf @ rq)"
    and rq: "rq = (if added \<and> fl_type (lk_heap w req) \<noteq> F_UNLCK then [req] else [])"
    using st unfolding scan_state_def scan_inv_def by blast+
  have q: "rq @ (if added then [] else [n]) = q" using rq n by (auto simp: q_def)
  define w2 where "w2 = add_step cur ino before new_fl w req added"
  have l': "i_flock w ino = (A @ P0 @ lf @ rq) @ R @ C" and n': "added \<or> new_fl = Some n \<and> n \<noteq> req"
    using l n by auto
  note W2 = add_step_heap[OF l' b n' w2_def]
  have list2: "i_flock w2 = (i_flock w)(ino := A @ (P0 @ lf @ q @ R) @ C)"
    using W2(1) by (simp only: q[symmetric] append_assoc)
  obtain w3 left' n2' where tr: "trim_right w2 cur ino req left right new_fl2 before = (w3, left', n2')"
    by (cases "trim_right w2 cur ino req left right new_fl2 before") auto
  have W3: "left' = left \<and> i_flock w3 = i_flock w2 \<and>
    (\<forall>r. right = Some r \<longrightarrow> core (lk_heap w3 r) = core ((lk_heap w2 r)\<lparr>fl_start := fl_end (lk_heap w2 req) + 1\<rparr>)) \<and>
    (\<forall>a. right \<noteq> Some a \<longrightarrow> core (lk_heap w3 a) = core (lk_heap w2 a))"
    using tr lr trim_right_same[OF _ _ tr] by (cases right) (auto simp: trim_right_def)
  have n2: "n \<notin> set (A @ P0 @ lf @ R @ C)" "n \<noteq> req" if "\<not> added" using n[OF that] l by auto
  have H2: "core (lk_heap w2 a) = core (lk_heap w a)" if "a = req \<or> a \<in> set (A @ P0 @ lf @ R @ C)" for a
    using W2(3)[of a] n2 that by (cases added) auto
  have "core (lk_heap w3 r) = core ((lk_heap w r)\<lparr>fl_start := fl_end (lk_heap w req) + 1\<rparr>)" if "right = Some r" for r
    using W3 H2[of r] core_eqD[OF H2[of req]] right[OF that] that by (auto simp: core_def)
  then have "cut_right w ino req right (set (A @ P0 @ lf @ R @ C)) (A @ (P0 @ lf @ q @ R) @ C) w3"
    using W3 H2 list2 unfolding cut_right_def by auto
  moreover have "core (lk_heap w3 n) = core (lk_heap w req)" if "\<not> added"
  proof -
    have "right \<noteq> Some n" using right n2[OF that] by auto
    then show ?thesis using W2(2) W3 that by auto
  qed
  moreover have "apply_core cur ino new_fl new_fl2 (w, req, added, left, right, before) = trim_left w3 req left"
    using tr W3 by (simp add: apply_core_def w2_def Let_def)
  ultimately show ?thesis by blast
qed

lemma apply_core_trim:
  assumes st: "scan_state w ino own A C before req added P0 lf rq R"
    and lf: "lf = opt_list left" and lr: "left \<noteq> right \<or> right = None"
    and n: "\<not> added \<Longrightarrow> new_fl = Some n \<and> n \<noteq> req \<and> n \<notin> set (i_flock w ino) \<and> fl_type (lk_heap w req) \<noteq> F_UNLCK"
    and rt: "right = None \<and> (\<forall>r\<in>set R. apart (lk_heap w req) (lk_heap w r)) \<or>
      (\<exists>r R'. right = Some r \<and> R = r # R' \<and> fl_start (lk_heap w r) \<le> fl_end (lk_heap w req) \<and>
        fl_end (lk_heap w req) < fl_end (lk_heap w r) \<and> fl_type (lk_heap w r) \<noteq> fl_type (lk_heap w req))"
  shows "applied w ino req A P0 lf R C (apply_core cur ino new_fl new_fl2 (w, req, added, left, right, before))"
proof -
  let ?h = "lk_heap w" and ?w' = "apply_core cur ino new_fl new_fl2 (w, req, added, left, right, before)"
  define x where "x = (if added then req else n)"
  define q where "q = (if fl_type (lk_heap w req) = F_UNLCK then [] else [x])"
  have l: "i_flock w ino = A @ P0 @ lf @ rq @ R @ C" and d: "distinct (i_flock w ino)"
    and lfp: "\<forall>l\<in>set lf. fl_start (?h l) < fl_start (?h req) \<and> fl_start (?h req) \<le> fl_end (?h l) \<and>
                  fl_end (?h l) \<le> fl_end (?h req) \<and> fl_type (?h l) \<noteq> fl_type (?h req)"
    using st unfolding scan_state_def scan_inv_def by blast+
  have right: "\<And>r. right = Some r \<Longrightarrow> r \<in> set R" using rt by auto
  from apply_core_cut_right[OF st lr n right]
  obtain w3 where w': "?w' = trim_left w3 req left" and list3: "i_flock w3 = (i_flock w)(ino := A @ (P0 @ lf @ q @ R) @ C)"
    and H3: "\<And>a. a = req \<or> a \<in> set (A @ P0 @ lf @ R @ C) \<Longrightarrow> right \<noteq> Some a \<Longrightarrow> core (lk_heap w3 a) = core (?h a)"
    and Hr: "\<And>r. right = Some r \<Longrightarrow> core (lk_heap w3 r) = core ((?h r)\<lparr>fl_start := fl_end (?h req) + 1\<rparr>)"
    and Hn: "\<not> added \<Longrightarrow> core (lk_heap w3 n) = core (?h req)"
    unfolding cut_right_def q_def x_def by blast
  have req: "req \<notin> set (A @ P0 @ lf @ R @ C)" by (rule scan_state_request[OF st])
  have n2: "n \<notin> set (A @ P0 @ lf @ R @ C)" if "\<not> added" using n[OF that] l by auto
  have H4: "core (lk_heap ?w' a) = core (lk_heap w3 a)" if "left \<noteq> Some a" for a
    unfolding w' using trim_left_heap(2)[of w3 req left a] that by simp
  have lR: "left \<noteq> Some a" if "a \<in> set (A @ P0 @ R @ C)" for a using d that unfolding l lf by auto
  have "left_piece ?h (lk_heap ?w') (?h req) lf lf"
  proof (cases left)
    case (Some l)
    have "core (lk_heap w3 l) = core (?h l)" using H3[of l] lf lr Some by auto
    moreover have "fl_start (lk_heap w3 req) = fl_start (?h req)" using core_eqD[OF H3[of req]] req right by auto
    ultimately have "core (lk_heap ?w' l) = core ((?h l)\<lparr>fl_end := fl_start (?h req) - 1\<rparr>)"
      unfolding w' using trim_left_heap(2)[of w3 req left l] Some by (simp add: core_def)
    then show ?thesis using lfp lf Some by (simp add: left_piece_def)
  qed (simp add: left_piece_def lf)
  moreover have "right_piece ?h (lk_heap ?w') (?h req) R"
  proof (cases right)
    case None
    then show ?thesis using H3 H4 lR rt by (auto simp: right_piece_def)
  next
    case (Some r)
    then obtain R' where r: "R = r # R'" using rt by auto
    have "core (lk_heap ?w' a) = core (?h a)" if "a \<in> set R'" for a using H3[of a] H4[of a] r d l that lR Some by auto
    then show ?thesis using r rt Some Hr[OF Some] H4[of r] lR[of r] by (auto simp: right_piece_def)
  qed
  moreover have "q \<noteq> [] \<longrightarrow> core (lk_heap ?w' x) = core (?h req)"
  proof -
    have "core (lk_heap w3 x) = core (?h req)" using H3[of req] Hn req right by (auto simp: x_def)
    moreover have "left \<noteq> Some x" using n2 req lf by (auto simp: x_def)
    ultimately show ?thesis using H4 by simp
  qed
  moreover have "right \<noteq> Some a" if "a \<in> set (P0 @ A @ C)" for a using right d that unfolding l by auto
  then have "\<forall>a\<in>set (P0 @ A @ C). core (lk_heap ?w' a) = core (?h a)" using H3 H4 lR by (intro ballI) auto
  moreover have "x \<notin> set (A @ P0 @ lf @ R @ C)" using req n2 by (simp add: x_def)
  then have "distinct (P0 @ lf @ q @ R)" "set (lf @ q) \<inter> set (A @ C) = {}" using d unfolding l q_def by auto
  moreover have "i_flock ?w' = (i_flock w)(ino := A @ (P0 @ lf @ q @ R) @ C)" unfolding w' trim_left_heap(1) by (rule list3)
  ultimately show ?thesis unfolding applied_def using q_def by blast
qed


lemma apply_core_split:
  assumes st: "scan_state w ino own A C before req added P0 [] [] (r # R)"
    and n: "\<not> added \<Longrightarrow> new_fl = Some n \<and> n \<noteq> req \<and> n \<noteq> m \<and> n \<notin> set (i_flock w ino) \<and>
              fl_type (lk_heap w req) \<noteq> F_UNLCK"
    and ad: "added \<Longrightarrow> fl_type (lk_heap w req) = F_UNLCK"
    and m: "m \<noteq> req" "m \<notin> set (i_flock w ino)"
    and r: "fl_start (lk_heap w r) \<le> fl_end (lk_heap w req)"
      "fl_end (lk_heap w req) < fl_end (lk_heap w r)" "fl_type (lk_heap w r) \<noteq> fl_type (lk_heap w req)"
      "fl_start (lk_heap w r) < fl_start (lk_heap w req)"
  shows "applied w ino req A P0 [r] (r # R) C
           (apply_core cur ino new_fl (Some m) (w, req, added, Some r, Some r, before))"
proof -
  let ?h = "lk_heap w" and ?w' = "apply_core cur ino new_fl (Some m) (w, req, added, Some r, Some r, before)"
  define q where "q = (if fl_type (lk_heap w req) = F_UNLCK then [] else [n])"
  have q: "(if added then [] else [n]) = q" using n ad by (auto simp: q_def)
  have l: "i_flock w ino = (A @ P0) @ (r # R) @ C" and d: "distinct (i_flock w ino)"
    and b: "before = length (A @ P0)" and nin: "req \<notin> set (i_flock w ino)"
    and inv: "scan_inv ?h own req added P0 [] [] (r # R)"
    using st unfolding scan_state_def by auto
  have n': "added \<or> new_fl = Some n \<and> n \<noteq> req" using n by blast
  have rq: "fl_start (?h req) \<le> fl_end (?h req)" using inv by (simp add: scan_inv_def)
  define w2 where "w2 = add_step cur ino before new_fl w req added"
  note W2 = add_step_heap[OF l b n' w2_def]
  have l2: "i_flock w2 = (i_flock w)(ino := (A @ P0) @ (q @ (r # R) @ C))"
    using W2(1) by (simp only: q append_assoc)
  obtain w3 left' n2' where tr: "trim_right w2 cur ino req (Some r) (Some r) (Some m) before = (w3, left', n2')"
    by (cases "trim_right w2 cur ino req (Some r) (Some r) (Some m) before") auto
  have l2': "i_flock w2 ino = (A @ P0) @ (q @ (r # R) @ C)" and mr: "m \<noteq> r"
    using l2 m l by auto
  note W3 = trim_right_split[OF tr l2' b mr m(1)]
  have w': "?w' = trim_left w3 req (Some m)"
    using tr W3 by (simp add: apply_core_def w2_def Let_def)
  have H2: "core (lk_heap w2 a) = core (?h a)" if "a = req \<or> a \<in> set (i_flock w ino)" for a
    using W2(3)[of a] n that by (cases added) auto
  have H4: "core (lk_heap ?w' a) = core (?h a)" if "a = req \<or> a \<in> set (A @ P0 @ R @ C)" for a
  proof -
    have "a \<noteq> r" "a \<noteq> m" "a = req \<or> a \<in> set (i_flock w ino)" using that d m nin unfolding l by auto
    then show ?thesis unfolding w' using W3 H2[of a] trim_left_heap(2)[of w3 req "Some m" a] by simp
  qed
  have rs: "fl_start (lk_heap w3 req) = fl_start (?h req)" "fl_end (lk_heap w2 req) = fl_end (?h req)"
    "core (lk_heap w2 r) = core (?h r)"
    using H2[of req] H2[of r] W3 m nin l by (auto simp: core_def)
  have "i_flock ?w' = (i_flock w)(ino := A @ (P0 @ [m] @ q @ r # R) @ C)"
    unfolding w' trim_left_heap(1) using W3 l2 by simp
  moreover have "left_piece ?h (lk_heap ?w') (?h req) [r] [m]"
    unfolding w' using trim_left_heap(2)[of w3 req "Some m" m] W3 rs r rq by (simp add: left_piece_def core_def)
  moreover have "core (lk_heap ?w' r) = core ((?h r)\<lparr>fl_start := fl_end (?h req) + 1\<rparr>)"
    unfolding w' using trim_left_heap(2)[of w3 req "Some m" r] W3 rs mr by (simp add: core_def)
  then have "right_piece ?h (lk_heap ?w') (?h req) (r # R)"
    using r H4 by (simp add: right_piece_def)
  moreover have "q \<noteq> [] \<longrightarrow> core (lk_heap ?w' n) = core (lk_heap w req)"
  proof
    assume "q \<noteq> []"
    then have "\<not> added" using q by auto
    then show "core (lk_heap ?w' n) = core (lk_heap w req)"
      unfolding w' using trim_left_heap(2)[of w3 req "Some m" n] W3 W2(2) n l by auto
  qed
  moreover have "\<forall>a\<in>set (P0 @ A @ C). core (lk_heap ?w' a) = core (?h a)"
    using H4 by (intro ballI) auto
  moreover have "distinct (P0 @ [m] @ q @ r # R)" "set ([m] @ q) \<inter> set (A @ C) = {}"
    using d m n q unfolding l q_def by (auto split: if_splits)
  ultimately show ?thesis unfolding applied_def using q_def by blast
qed


text \<open>The owner's locks after a request was applied.\<close>

definition updated ::
  "lock_world \<Rightarrow> nat \<Rightarrow> nat \<Rightarrow> file_lock \<Rightarrow> nat list \<Rightarrow> nat list \<Rightarrow> nat list \<Rightarrow> lock_world \<Rightarrow> bool" where
  "updated w ino own r A B C w' \<longleftrightarrow>
     (\<exists>S. i_flock w' = (i_flock w)(ino := A @ S @ C) \<and> distinct (A @ S @ C) \<and>
        owner_list (lk_heap w') own S \<and>
        lock_bytes (lk_heap w') S = {(b, t). (b, t) \<in> overridden (lk_heap w) r B \<and> t \<noteq> F_UNLCK} \<and>
        (\<forall>a\<in>set (A @ C). core (lk_heap w' a) = core (lk_heap w a)))"

lemma updated_applied:
  assumes st: "scan_state w ino own A C before req added P0 lf rq R"
    and ap: "applied w ino req A P0 L0 R C w'"
    and L0: "L0 = lf \<and> (\<forall>r\<in>set R. fl_start (lk_heap w req) \<le> fl_start (lk_heap w r)) \<or>
             lf = [] \<and> (\<exists>x R'. R = x # R' \<and> L0 = [x])"
    and po: "fl_type (lk_heap w req) \<noteq> F_UNLCK \<Longrightarrow> IS_POSIX (lk_heap w req)"
  shows "updated w ino own (lk_heap w req) A (P0 @ lf @ R) C w'"
proof -
  obtain L q x where l': "i_flock w' = (i_flock w)(ino := A @ (P0 @ L @ q @ R) @ C)"
    and lp: "left_piece (lk_heap w) (lk_heap w') (lk_heap w req) L0 L"
    and rp: "right_piece (lk_heap w) (lk_heap w') (lk_heap w req) R"
    and q: "q = (if fl_type (lk_heap w req) = F_UNLCK then [] else [x])"
    and qx: "q \<noteq> [] \<longrightarrow> core (lk_heap w' x) = core (lk_heap w req)"
    and c: "\<forall>a\<in>set (P0 @ A @ C). core (lk_heap w' a) = core (lk_heap w a)"
    and d': "distinct (P0 @ L @ q @ R)" "set (L @ q) \<inter> set (A @ C) = {}"
    using ap unfolding applied_def by blast
  have inv: "scan_inv (lk_heap w) own req added P0 lf rq R" and d: "distinct (i_flock w ino)"
    and l: "i_flock w ino = A @ P0 @ lf @ rq @ R @ C"
    using st unfolding scan_state_def by blast+
  have P: "core (lk_heap w' a) = core (lk_heap w a)" if "a \<in> set P0" for a using c that by simp
  have qx': "core (lk_heap w' x) = core (lk_heap w req) \<and> IS_POSIX (lk_heap w req)" if "q \<noteq> []"
    using qx q po that by (auto split: if_splits)
  have "distinct (A @ (P0 @ L @ q @ R) @ C)" using d d' unfolding l by auto
  moreover have "owner_list (lk_heap w') own (P0 @ L @ q @ R)"
    by (rule apply_pieces_list[OF inv P lp rp L0 q qx'])
  moreover note apply_pieces_bytes[OF inv P lp rp L0 q qx']
  ultimately show ?thesis
    unfolding updated_def using l' c by (intro exI[of _ "P0 @ L @ q @ R"]) auto
qed

lemma updated_nothing:
  assumes st: "scan_state w ino own A C before req False P0 lf rq R"
    and ex: "scan_exit (lk_heap w) req left None lf rq R" and un: "fl_type (lk_heap w req) = F_UNLCK"
  shows "updated w ino own (lk_heap w req) A (P0 @ lf @ R) C w"
proof -
  have inv: "scan_inv (lk_heap w) own req False P0 lf rq R" and d: "distinct (i_flock w ino)"
    and l: "i_flock w ino = A @ P0 @ lf @ rq @ R @ C"
    using st unfolding scan_state_def by blast+
  have lf: "lf = []" and rq: "rq = []" using inv un unfolding scan_inv_def by auto
  have R: "\<forall>r\<in>set R. apart (lk_heap w req) (lk_heap w r)" and se: "fl_start (lk_heap w req) \<le> fl_end (lk_heap w req)"
    using ex inv by (auto simp: scan_exit_def scan_inv_def)
  have "applied w ino req A P0 lf R C w"
    unfolding applied_def
    using d R un lf rq by (intro exI[of _ "[]"]) (auto simp: l left_piece_def right_piece_def)
  moreover have "\<forall>r\<in>set R. fl_start (lk_heap w req) \<le> fl_start (lk_heap w r)"
    using R se by (auto simp: apart_def)
  ultimately show ?thesis using un by (intro updated_applied[OF st]) auto
qed


lemma exit_starts:
  assumes "scan_exit h req left right lf rq R" "right = None \<or> left \<noteq> right"
    "sorted_wrt (\<lambda>a b. apart (h a) (h b)) R" "\<forall>a\<in>set R. valid_lock (h a)"
    "fl_start (h req) \<le> fl_end (h req)"
  shows "\<forall>r\<in>set R. fl_start (h req) \<le> fl_start (h r)"
proof (cases R)
  case (Cons x R')
  have "fl_start (h req) \<le> fl_start (h x)"
    using assms(1,2,5) Cons by (auto simp: scan_exit_def apart_def)
  moreover have "fl_start (h x) \<le> fl_start (h a)" if "a \<in> set R'" for a
    using assms(3,4) Cons that by (auto simp: apart_def valid_lock_def dest!: bspec)
  ultimately show ?thesis using Cons by fastforce
qed simp

lemma posix_apply_spec:
  assumes st: "scan_state w ino own A C before req added P0 lf rq R"
    and ex: "scan_exit (lk_heap w) req left right lf rq R"
    and unl: "fl_type (lk_heap w req) = F_UNLCK \<and> right \<noteq> None \<longrightarrow> added"
    and po: "fl_type (lk_heap w req) \<noteq> F_UNLCK \<Longrightarrow> IS_POSIX (lk_heap w req)"
    and fresh: "\<And>n. n \<in> set_option n1 \<union> set_option n2 \<Longrightarrow> n \<noteq> req \<and> n \<notin> set (i_flock w ino)"
      "set_option n1 \<inter> set_option n2 = {}"
    and res: "posix_apply cur ino n1 n2 (w, req, added, left, right, before) = (w', err, f1, f2)"
  shows "(err \<noteq> None \<longrightarrow> w' = w \<and> (\<not> added \<or> right \<noteq> None \<and> left = right)) \<and>
         (err = None \<longrightarrow> updated w ino own (lk_heap w req) A (P0 @ lf @ R) C w')"
proof -
  consider (nolck) "right \<noteq> None \<and> left = right \<and> n2 = None \<or>
        \<not> added \<and> fl_type (lk_heap w req) \<noteq> F_UNLCK \<and> n1 = None"
    | (idle) "\<not> added" "fl_type (lk_heap w req) = F_UNLCK"
    | (app) "\<not> (right \<noteq> None \<and> left = right \<and> n2 = None)"
        "\<not> added \<longrightarrow> fl_type (lk_heap w req) \<noteq> F_UNLCK \<and> n1 \<noteq> None"
    by blast
  then show ?thesis
  proof cases
    case nolck
    then show ?thesis using res by (auto simp: posix_apply_core Let_def split: if_splits)
  next
    case idle
    then have "right = None" using unl by auto
    then have "updated w ino own (lk_heap w req) A (P0 @ lf @ R) C w"
      using idle st ex by (intro updated_nothing) simp_all
    then show ?thesis
      using idle res \<open>right = None\<close> by (auto simp: posix_apply_core Let_def split: if_splits)
  next
    case app
    define wa where "wa = apply_core cur ino n1 n2 (w, req, added, left, right, before)"
    have w': "w' = wa \<and> err = None"
      using res app by (auto simp: posix_apply_core Let_def wa_def split: if_splits)
    have inv: "scan_inv (lk_heap w) own req added P0 lf rq R" using st by (simp add: scan_state_def)
    then have se: "fl_start (lk_heap w req) \<le> fl_end (lk_heap w req)"
      and sR: "sorted_wrt (\<lambda>a b. apart (lk_heap w a) (lk_heap w b)) R"
      and vR: "\<forall>a\<in>set R. valid_lock (lk_heap w a)"
      and rq: "rq = (if added \<and> fl_type (lk_heap w req) \<noteq> F_UNLCK then [req] else [])"
      unfolding scan_inv_def by (auto simp: sorted_wrt_append)
    obtain n where n: "\<not> added \<longrightarrow> n1 = Some n" using app by auto
    show ?thesis
    proof (cases "right \<noteq> None \<and> left = right")
      case True
      then obtain r R' where r: "right = Some r" "left = Some r" "R = r # R'" "lf = []" "rq = []"
        "fl_start (lk_heap w r) \<le> fl_end (lk_heap w req)" "fl_end (lk_heap w req) < fl_end (lk_heap w r)"
        "fl_type (lk_heap w r) \<noteq> fl_type (lk_heap w req)" "fl_start (lk_heap w r) < fl_start (lk_heap w req)"
        using ex by (auto simp: scan_exit_def)
      obtain m where m: "n2 = Some m" using app True by auto
      have ap: "applied w ino req A P0 [r] R C wa"
        unfolding wa_def r m
        using st[unfolded r] r rq n m fresh app(2) by (intro apply_core_split) (auto split: if_splits)
      have "updated w ino own (lk_heap w req) A (P0 @ lf @ R) C wa"
        by (rule updated_applied[OF st ap _ po]) (simp_all add: r)
      then show ?thesis using w' by simp
    next
      case False
      then have lf: "lf = opt_list left" using ex by (auto simp: scan_exit_def)
      have ap: "applied w ino req A P0 lf R C wa"
        unfolding wa_def using ex False n fresh app(2)
        by (intro apply_core_trim[OF st lf]) (auto simp: scan_exit_def)
      have "\<forall>r\<in>set R. fl_start (lk_heap w req) \<le> fl_start (lk_heap w r)"
        by (rule exit_starts[OF ex _ sR vR se]) (use False in auto)
      then have "updated w ino own (lk_heap w req) A (P0 @ lf @ R) C wa"
        by (intro updated_applied[OF st ap _ po]) simp_all
      then show ?thesis using w' by simp
    qed
  qed
qed


section \<open>The locks of a file as a map\<close>

fun grouped :: "'a list \<Rightarrow> bool" where
  "grouped [] \<longleftrightarrow> True"
| "grouped (x # xs) \<longleftrightarrow> (x \<in> set xs \<longrightarrow> hd xs = x) \<and> grouped xs"

definition posix_part :: "(nat \<Rightarrow> file_lock) \<Rightarrow> nat list \<Rightarrow> bool" where
  "posix_part h q \<longleftrightarrow>
     (\<forall>a\<in>set q. valid_lock (h a)) \<and> grouped (map (\<lambda>a. fl_owner (h a)) q) \<and>
     sorted_wrt (\<lambda>a b. fl_owner (h a) = fl_owner (h b) \<longrightarrow> apart (h a) (h b)) q"

text \<open>POSIX locks come last, one group per owner, each group ordered by address.\<close>

definition inode_wf :: "(nat \<Rightarrow> file_lock) \<Rightarrow> nat list \<Rightarrow> bool" where
  "inode_wf h l \<longleftrightarrow> distinct l \<and> posix_part h (dropWhile (\<lambda>a. \<not> IS_POSIX (h a)) l)"

definition covers :: "file_lock \<Rightarrow> nat \<Rightarrow> int \<Rightarrow> bool" where
  "covers f own b \<longleftrightarrow> IS_POSIX f \<and> fl_owner f = own \<and> fl_start f \<le> b \<and> b \<le> fl_end f"

definition range_map :: "(nat \<Rightarrow> file_lock) \<Rightarrow> nat list \<Rightarrow> nat \<Rightarrow> int \<Rightarrow> u8" where
  "range_map h l own b =
     (case List.find (\<lambda>a. covers (h a) own b) l of None \<Rightarrow> F_UNLCK | Some a \<Rightarrow> fl_type (h a))"

lemma grouped_appendD: "grouped (xs @ ys) \<Longrightarrow> grouped xs \<and> grouped ys"
proof (induction xs)
  case (Cons x xs)
  then have "grouped (xs @ ys)" "x \<in> set xs \<longrightarrow> hd (xs @ ys) = x" by simp_all
  moreover have "xs \<noteq> [] \<longrightarrow> hd (xs @ ys) = hd xs" by simp
  ultimately show ?case using Cons.IH by (metis grouped.simps(2) list.set(1) empty_iff)
qed simp

lemma grouped_disjoint:
  "grouped xs \<Longrightarrow> grouped ys \<Longrightarrow> set xs \<inter> set ys = {} \<Longrightarrow> grouped (xs @ ys)"
proof (induction xs)
  case (Cons x xs)
  then have "grouped (xs @ ys)" "x \<notin> set ys" "x \<in> set xs \<longrightarrow> hd xs = x" by simp_all
  moreover have "xs \<noteq> [] \<longrightarrow> hd (xs @ ys) = hd xs" by simp
  ultimately show ?case
    by (metis Un_iff append_Cons grouped.simps(2) list.set(1) empty_iff set_append)
qed simp

lemma grouped_shared: "grouped (xs @ ys) \<Longrightarrow> x \<in> set xs \<Longrightarrow> x \<in> set ys \<Longrightarrow> hd ys = x"
proof (induction xs)
  case (Cons z xs)
  show ?case
  proof (cases "x \<in> set xs")
    case True with Cons show ?thesis by simp
  next
    case False
    then have "hd (xs @ ys) = x" using Cons.prems by simp
    with False show ?thesis by (cases xs) auto
  qed
qed simp

lemma grouped_same: "\<forall>x\<in>set xs. x = c \<Longrightarrow> grouped xs"
proof (induction xs)
  case (Cons x xs)
  then have "grouped xs" "x = c" by simp_all
  moreover have "xs \<noteq> [] \<longrightarrow> hd xs = c" using Cons.prems by (metis hd_in_set list.set_intros(2))
  ultimately show ?case by (metis empty_iff grouped.simps(2) list.set(1))
qed simp

lemma inode_wf_alt:
  "inode_wf h l \<longleftrightarrow>
     distinct l \<and> (\<exists>N Q. l = N @ Q \<and> (\<forall>a\<in>set N. \<not> IS_POSIX (h a)) \<and> posix_part h Q)"
proof
  assume "inode_wf h l"
  then show "distinct l \<and> (\<exists>N Q. l = N @ Q \<and> (\<forall>a\<in>set N. \<not> IS_POSIX (h a)) \<and> posix_part h Q)"
    unfolding inode_wf_def
    by (metis (no_types, lifting) set_takeWhileD takeWhile_dropWhile_id)
next
  assume "distinct l \<and> (\<exists>N Q. l = N @ Q \<and> (\<forall>a\<in>set N. \<not> IS_POSIX (h a)) \<and> posix_part h Q)"
  then obtain N Q where "distinct l" "l = N @ Q" "\<forall>a\<in>set N. \<not> IS_POSIX (h a)" "posix_part h Q" by blast
  moreover from this have "dropWhile (\<lambda>a. \<not> IS_POSIX (h a)) l = Q"
    by (cases Q) (auto simp: posix_part_def valid_lock_def dropWhile_append2)
  ultimately show "inode_wf h l" by (simp add: inode_wf_def)
qed

lemma covers_core: "core f = core g \<Longrightarrow> covers f own b = covers g own b"
  by (simp add: covers_def core_def IS_POSIX_def)

lemma find_none: "(\<And>x. x \<in> set xs \<Longrightarrow> \<not> P x) \<Longrightarrow> List.find P xs = None"
  by (simp add: find_None_iff)

lemma find_cong': "(\<And>x. x \<in> set xs \<Longrightarrow> P x = Q x) \<Longrightarrow> List.find P xs = List.find Q xs"
  by (induction xs) auto

text \<open>The owner's group inside a well-formed list.\<close>

lemma inode_wf_split:
  fixes own :: nat
  assumes wf: "inode_wf h l"
  defines "A \<equiv> takeWhile (\<lambda>a. \<not> IS_POSIX (h a) \<or> fl_owner (h a) \<noteq> own) l"
  obtains B C where "l = A @ B @ C" "owner_list h own B"
    "\<forall>a\<in>set A. \<not> IS_POSIX (h a) \<or> fl_owner (h a) \<noteq> own"
    "\<forall>a\<in>set C. valid_lock (h a) \<and> fl_owner (h a) \<noteq> own" "B = [] \<Longrightarrow> C = []"
proof -
  obtain N Q where l: "l = N @ Q" and N: "\<forall>a\<in>set N. \<not> IS_POSIX (h a)" and Q: "posix_part h Q"
    using wf unfolding inode_wf_alt by blast
  define A' where "A' = takeWhile (\<lambda>a. fl_owner (h a) \<noteq> own) Q"
  define R where "R = dropWhile (\<lambda>a. fl_owner (h a) \<noteq> own) Q"
  define B where "B = takeWhile (\<lambda>a. fl_owner (h a) = own) R"
  define C where "C = dropWhile (\<lambda>a. fl_owner (h a) = own) R"
  have QR: "Q = A' @ R" "R = B @ C" by (simp_all add: A'_def R_def B_def C_def)
  have v: "\<forall>a\<in>set Q. valid_lock (h a)" and g: "grouped (map (\<lambda>a. fl_owner (h a)) (A' @ B @ C))"
    and s: "sorted_wrt (\<lambda>a b. fl_owner (h a) = fl_owner (h b) \<longrightarrow> apart (h a) (h b)) (A' @ B @ C)"
    using Q QR by (auto simp: posix_part_def)
  have "A = N @ A'"
  proof -
    have "takeWhile (\<lambda>a. \<not> IS_POSIX (h a) \<or> fl_owner (h a) \<noteq> own) Q = A'"
      unfolding A'_def using v by (intro takeWhile_cong refl) (auto simp: valid_lock_def)
    then show ?thesis unfolding A_def l using N by simp
  qed
  then have eq: "l = A @ B @ C" using l QR by simp
  have "R \<noteq> [] \<longrightarrow> fl_owner (h (hd R)) = own"
    using hd_dropWhile[of "\<lambda>a. fl_owner (h a) \<noteq> own" Q] unfolding R_def by blast
  then have start: "B = [] \<and> C \<noteq> [] \<longrightarrow> fl_owner (h (hd C)) = own" using QR(2) by auto
  have Bo: "\<forall>a\<in>set B. fl_owner (h a) = own" unfolding B_def by (auto dest: set_takeWhileD)
  have "owner_list h own B"
    unfolding owner_list_def
  proof
    show "\<forall>a\<in>set B. valid_lock (h a) \<and> fl_owner (h a) = own" using v Bo QR by auto
    have "sorted_wrt (\<lambda>a b. fl_owner (h a) = fl_owner (h b) \<longrightarrow> apart (h a) (h b)) B"
      using s by (auto simp: sorted_wrt_append)
    then show "sorted_wrt (\<lambda>a b. apart (h a) (h b)) B"
      by (rule sorted_wrt_mono_rel[rotated]) (use Bo in simp)
  qed
  moreover have "fl_owner (h a) \<noteq> own" if a: "a \<in> set C" for a
  proof
    assume o: "fl_owner (h a) = own"
    have "C \<noteq> []" using a by auto
    then have hC: "fl_owner (h (hd C)) \<noteq> own" using hd_dropWhile[of "\<lambda>a. fl_owner (h a) = own" R]
      unfolding C_def by blast
    have "B \<noteq> []" using start \<open>C \<noteq> []\<close> hC by auto
    then have "own \<in> set (map (\<lambda>a. fl_owner (h a)) B)" using Bo by (cases B) auto
    moreover have "own \<in> set (map (\<lambda>a. fl_owner (h a)) C)" using a o by auto
    moreover have "grouped (map (\<lambda>a. fl_owner (h a)) B @ map (\<lambda>a. fl_owner (h a)) C)"
      using grouped_appendD[of "map (\<lambda>a. fl_owner (h a)) A'"] g by auto
    ultimately have "hd (map (\<lambda>a. fl_owner (h a)) C) = own" by (rule grouped_shared[rotated 1])
    then show False using hC \<open>C \<noteq> []\<close> by (simp add: hd_map)
  qed
  then have "\<forall>a\<in>set C. valid_lock (h a) \<and> fl_owner (h a) \<noteq> own" using v QR by auto
  moreover have "C = []" if "B = []"
    using that start calculation(2) by (cases C) auto
  moreover have "\<forall>a\<in>set A. \<not> IS_POSIX (h a) \<or> fl_owner (h a) \<noteq> own"
    unfolding A_def by (auto dest: set_takeWhileD)
  ultimately show thesis using that[OF eq] by blast
qed


lemma range_map_own:
  assumes A: "\<forall>a\<in>set A. \<not> IS_POSIX (h a) \<or> fl_owner (h a) \<noteq> own" and B: "owner_list h own B"
    and C: "\<forall>a\<in>set C. fl_owner (h a) \<noteq> own"
  shows "range_map h (A @ B @ C) own b = t \<longleftrightarrow>
    (if t = F_UNLCK then \<forall>u. (b, u) \<notin> lock_bytes h B else (b, t) \<in> lock_bytes h B)"
proof -
  have v: "\<forall>a\<in>set B. valid_lock (h a) \<and> fl_owner (h a) = own"
    and s: "sorted_wrt (\<lambda>a b. apart (h a) (h b)) B"
    using B by (auto simp: owner_list_def)
  have "List.find (\<lambda>a. covers (h a) own b) A = None" "List.find (\<lambda>a. covers (h a) own b) C = None"
    using A C by (auto intro!: find_none simp: covers_def)
  then have f: "List.find (\<lambda>a. covers (h a) own b) (A @ B @ C) = List.find (\<lambda>a. covers (h a) own b) B"
    by (simp add: find_append split: option.split)
  show ?thesis
  proof (cases "List.find (\<lambda>a. covers (h a) own b) B")
    case None
    then have "\<not> covers (h a) own b" if "a \<in> set B" for a using that by (auto simp: find_None_iff)
    then have "(b, u) \<notin> lock_bytes h B" for u
      using v by (auto simp: lock_bytes_def covers_def valid_lock_def)
    then show ?thesis using None f by (auto simp: range_map_def)
  next
    case (Some a)
    then have a: "a \<in> set B" "covers (h a) own b" by (auto simp: find_Some_iff)
    then have "(b, fl_type (h a)) \<in> lock_bytes h B" by (auto simp: lock_bytes_def covers_def)
    moreover have "u = fl_type (h a)" if "(b, u) \<in> lock_bytes h B" for u
      using lock_bytes_unique[OF s _ a(1) _ _ that] v a(2) by (auto simp: covers_def)
    moreover have "fl_type (h a) \<noteq> F_UNLCK" using v a(1) valid_not_unlck by auto
    ultimately have iff: "(b, u) \<in> lock_bytes h B \<longleftrightarrow> u = fl_type (h a)" and "fl_type (h a) \<noteq> F_UNLCK" for u
      by blast+
    moreover have "range_map h (A @ B @ C) own b = fl_type (h a)" using Some f by (simp add: range_map_def)
    ultimately show ?thesis by (simp add: iff) blast
  qed
qed

lemma range_map_other:
  assumes "\<forall>a\<in>set S. fl_owner (h' a) = own" "\<forall>a\<in>set B. fl_owner (h a) = own"
    "\<forall>a\<in>set (A @ C). core (h' a) = core (h a)" "x \<noteq> own"
  shows "range_map h' (A @ S @ C) x b = range_map h (A @ B @ C) x b"
proof -
  have n: "List.find (\<lambda>a. covers (h' a) x b) S = None" "List.find (\<lambda>a. covers (h a) x b) B = None"
    using assms(1,2,4) by (auto simp: find_None_iff covers_def)
  have f: "List.find (\<lambda>a. covers (h' a) x b) xs = List.find (\<lambda>a. covers (h a) x b) xs"
    if "set xs \<subseteq> set (A @ C)" for xs
    by (rule find_cong') (use assms(3) that covers_core in blast)
  have e: "List.find (\<lambda>a. covers (h' a) x b) (A @ S @ C) = List.find (\<lambda>a. covers (h a) x b) (A @ C)"
    "List.find (\<lambda>a. covers (h a) x b) (A @ B @ C) = List.find (\<lambda>a. covers (h a) x b) (A @ C)"
    using f[of A] f[of C] n by (simp_all add: find_append split: option.split)
  show ?thesis
  proof (cases "List.find (\<lambda>a. covers (h a) x b) (A @ C)")
    case (Some a)
    then have "a \<in> set (A @ C)" unfolding find_Some_iff by (metis nth_mem)
    then have "fl_type (h' a) = fl_type (h a)" using assms(3) core_eqD(3) by blast
    then show ?thesis unfolding range_map_def e Some by simp
  qed (simp add: range_map_def e)
qed

lemma range_map_updated:
  assumes A: "\<forall>a\<in>set A. \<not> IS_POSIX (lk_heap w a) \<or> fl_owner (lk_heap w a) \<noteq> own"
    and B: "owner_list (lk_heap w) own B" and C: "\<forall>a\<in>set C. fl_owner (lk_heap w a) \<noteq> own"
    and up: "updated w ino own r A B C w'"
  shows "range_map (lk_heap w') (i_flock w' ino) x b =
    (if x = own \<and> fl_start r \<le> b \<and> b \<le> fl_end r then fl_type r
     else range_map (lk_heap w) (A @ B @ C) x b)"
proof -
  let ?h = "lk_heap w" and ?h' = "lk_heap w'"
  obtain S where l: "i_flock w' ino = A @ S @ C" and S: "owner_list ?h' own S"
    and bs: "lock_bytes ?h' S = {(b, t). (b, t) \<in> overridden ?h r B \<and> t \<noteq> F_UNLCK}"
    and c: "\<forall>a\<in>set (A @ C). core (?h' a) = core (?h a)"
    using up unfolding updated_def by auto
  show ?thesis
  proof (cases "x = own")
    case False
    then show ?thesis
      unfolding l using range_map_other[OF _ _ c False] S B by (auto simp: owner_list_def)
  next
    case True
    have A': "\<forall>a\<in>set A. \<not> IS_POSIX (?h' a) \<or> fl_owner (?h' a) \<noteq> own"
      and C': "\<forall>a\<in>set C. fl_owner (?h' a) \<noteq> own"
      using A C c by (auto simp: core_def IS_POSIX_def)
    define t where "t = (if fl_start r \<le> b \<and> b \<le> fl_end r then fl_type r else range_map ?h (A @ B @ C) own b)"
    note own = range_map_own[OF A B C, of b]
    have "range_map ?h' (A @ S @ C) own b = t"
      unfolding range_map_own[OF A' S C', of b t] bs
      using own[of t] by (auto simp: overridden_def t_def split: if_splits)
    then show ?thesis unfolding l t_def using True by simp
  qed
qed

lemma drop_posix:
  assumes "\<forall>a\<in>set B. valid_lock (h a)" "\<forall>a\<in>set C. valid_lock (h a)"
  shows "dropWhile (\<lambda>a. \<not> IS_POSIX (h a)) (A @ B @ C) = dropWhile (\<lambda>a. \<not> IS_POSIX (h a)) A @ B @ C"
proof -
  have "dropWhile (\<lambda>a. \<not> IS_POSIX (h a)) (B @ C) = B @ C"
    using assms by (cases B; cases C) (auto simp: valid_lock_def)
  then show ?thesis by (induction A) auto
qed

lemma posix_part_replace:
  assumes old: "posix_part h (A @ B @ C)" and c: "\<And>a. a \<in> set A \<or> a \<in> set C \<Longrightarrow> core (h' a) = core (h a)"
    and S: "owner_list h' own S" and B: "\<forall>a\<in>set B. fl_owner (h a) = own" "B = [] \<Longrightarrow> C = []"
    and AC: "\<forall>a\<in>set A \<union> set C. fl_owner (h a) \<noteq> own"
  shows "posix_part h' (A @ S @ C)"
proof -
  let ?o = "\<lambda>h a. fl_owner (h a)"
  have v: "\<forall>a\<in>set (A @ B @ C). valid_lock (h a)" and g: "grouped (map (?o h) A @ map (?o h) (B @ C))"
    and s: "sorted_wrt (\<lambda>a b. ?o h a = ?o h b \<longrightarrow> apart (h a) (h b)) (A @ B @ C)"
    using old by (auto simp: posix_part_def)
  have oS: "\<forall>a\<in>set S. valid_lock (h' a) \<and> ?o h' a = own" and sS: "sorted_wrt (\<lambda>a b. apart (h' a) (h' b)) S"
    using S by (auto simp: owner_list_def)
  have o: "?o h' a = ?o h a" if "a \<in> set A \<or> a \<in> set C" for a using core_eqD(1)[OF c[OF that]] .
  have m: "map (?o h') A = map (?o h) A" "map (?o h') C = map (?o h) C" using o by auto
  have "set (map (?o h) A) \<inter> set (map (?o h) C) = {}"
  proof (cases B)
    case (Cons x B')
    then have "hd (map (?o h) (B @ C)) = own" using B by simp
    then show ?thesis using grouped_shared[OF g] AC by fastforce
  qed (use B in simp)
  moreover have "grouped (map (?o h) A)" "grouped (map (?o h) C)"
    using grouped_appendD[OF g] grouped_appendD[of "map (?o h) B" "map (?o h) C"] by auto
  moreover have "grouped (map (?o h') S)" using oS by (intro grouped_same[of _ own]) auto
  moreover have "set (map (?o h') S) \<inter> set (map (?o h) C) = {}"
    "set (map (?o h) A) \<inter> set (map (?o h') S) = {}" using oS AC by fastforce+
  ultimately have "grouped (map (?o h) A @ map (?o h') S @ map (?o h) C)"
    by (intro grouped_disjoint) auto
  then have "grouped (map (?o h') (A @ S @ C))" by (simp add: m)
  moreover have "sorted_wrt (\<lambda>a b. ?o h a = ?o h b \<longrightarrow> apart (h a) (h b)) (A @ C)"
    using s by (simp add: sorted_wrt_append)
  then have "sorted_wrt (\<lambda>a b. ?o h' a = ?o h' b \<longrightarrow> apart (h' a) (h' b)) (A @ C)"
    by (rule sorted_wrt_mono_rel[rotated]) (simp add: o apart_core[OF c c])
  moreover have "valid_lock (h' a)" if "a \<in> set A \<or> a \<in> set C" for a
    unfolding valid_core[OF c[OF that]] using v that by auto
  moreover have "sorted_wrt (\<lambda>a b. ?o h' a = ?o h' b \<longrightarrow> apart (h' a) (h' b)) S"
    using sS by (rule sorted_wrt_mono_rel[rotated]) simp
  moreover have "?o h' a \<noteq> own" if "a \<in> set A \<or> a \<in> set C" for a using AC o that by auto
  ultimately show ?thesis
    using oS unfolding posix_part_def sorted_wrt_append by auto
qed

lemma inode_wf_updated:
  assumes wf: "inode_wf (lk_heap w) (A @ B @ C)"
    and A: "\<forall>a\<in>set A. \<not> IS_POSIX (lk_heap w a) \<or> fl_owner (lk_heap w a) \<noteq> own"
    and B: "owner_list (lk_heap w) own B"
    and C: "\<forall>a\<in>set C. valid_lock (lk_heap w a) \<and> fl_owner (lk_heap w a) \<noteq> own" "B = [] \<Longrightarrow> C = []"
    and up: "updated w ino own r A B C w'"
  shows "inode_wf (lk_heap w') (i_flock w' ino)"
proof -
  let ?h = "lk_heap w" and ?h' = "lk_heap w'" and ?N = "\<lambda>h a. \<not> IS_POSIX (h a)" and ?o = "\<lambda>h a. fl_owner (h a)"
  obtain S where l: "i_flock w' ino = A @ S @ C" and d: "distinct (A @ S @ C)" and S: "owner_list ?h' own S"
    and c: "\<forall>a\<in>set (A @ C). core (?h' a) = core (?h a)"
    using up unfolding updated_def by auto
  define A' where "A' = dropWhile (?N ?h) A"
  have A'A: "set A' \<subseteq> set A" unfolding A'_def by (auto dest: set_dropWhileD)
  have cA: "core (?h' a) = core (?h a)" if "a \<in> set A' \<or> a \<in> set C" for a using c A'A that by auto
  have "dropWhile (?N ?h) (A @ B @ C) = A' @ B @ C"
    using drop_posix[of B ?h C A] B C by (auto simp: A'_def owner_list_def)
  then have old: "posix_part ?h (A' @ B @ C)" using wf by (simp add: inode_wf_def)
  have AP: "\<forall>a\<in>set A'. fl_owner (?h a) \<noteq> own"
    using old A A'A by (auto simp: posix_part_def valid_lock_def)
  have "dropWhile (?N ?h') A = A'"
    unfolding A'_def using c by (intro dropWhile_cong refl) (auto simp: core_def IS_POSIX_def)
  moreover have vC: "\<forall>a\<in>set C. valid_lock (?h' a)" using C(1) cA valid_core by blast
  ultimately have new: "dropWhile (?N ?h') (A @ S @ C) = A' @ S @ C"
    using drop_posix[of S ?h' C A] S by (auto simp: owner_list_def)
  have "posix_part ?h' (A' @ S @ C)"
    using AP B C by (intro posix_part_replace[OF old cA S]) (auto simp: owner_list_def)
  then show ?thesis unfolding l inode_wf_def new using d by simp
qed


section \<open>The system call path\<close>

definition same_lock :: "file_lock \<Rightarrow> file_lock \<Rightarrow> bool" where
  "same_lock f g \<longleftrightarrow>
     fl_owner g = fl_owner f \<and> fl_flags g = fl_flags f \<and> fl_type g = fl_type f \<and>
     fl_start g = fl_start f \<and> fl_end g = fl_end f \<and> (local_lock f \<longrightarrow> local_lock g)"

lemma same_lock_core: "core g = core f \<Longrightarrow> same_lock f g"
  by (simp add: core_def same_lock_def local_lock_def)

lemma same_lock_free: "same_lock (lk_heap w a) (lk_heap (free_unused w x) a)"
  by (auto simp: free_unused_def locks_free_lock_def locks_release_private_def Let_def same_lock_def
      local_lock_def split: option.split)

lemma same_lock_trans: "same_lock f g \<Longrightarrow> same_lock g k \<Longrightarrow> same_lock f k"
  by (auto simp: same_lock_def)

lemma range_map_same:
  assumes "\<And>a. a \<in> set l \<Longrightarrow> same_lock (h a) (h' a)"
  shows "range_map h' l own b = range_map h l own b"
proof -
  have e: "List.find (\<lambda>a. covers (h' a) own b) l = List.find (\<lambda>a. covers (h a) own b) l"
    by (rule find_cong') (use assms in \<open>auto simp: covers_def same_lock_def IS_POSIX_def\<close>)
  show ?thesis
  proof (cases "List.find (\<lambda>a. covers (h a) own b) l")
    case (Some a)
    then have "a \<in> set l" unfolding find_Some_iff by (metis nth_mem)
    then show ?thesis using assms[of a] by (simp add: range_map_def e Some same_lock_def)
  qed (simp add: range_map_def e)
qed

lemma posix_part_same:
  assumes "\<And>a. a \<in> set q \<Longrightarrow> same_lock (h a) (h' a)" "posix_part h q"
  shows "posix_part h' q"
proof -
  have m: "map (\<lambda>a. fl_owner (h' a)) q = map (\<lambda>a. fl_owner (h a)) q"
    using assms(1) by (auto simp: same_lock_def)
  have "grouped (map (\<lambda>a. fl_owner (h' a)) q)"
    unfolding m using assms(2) by (simp add: posix_part_def)
  moreover have "sorted_wrt (\<lambda>a b. fl_owner (h' a) = fl_owner (h' b) \<longrightarrow> apart (h' a) (h' b)) q"
    by (rule sorted_wrt_mono_rel[of q "\<lambda>a b. fl_owner (h a) = fl_owner (h b) \<longrightarrow> apart (h a) (h b)"])
      (use assms in \<open>auto simp: posix_part_def same_lock_def apart_def\<close>)
  ultimately show ?thesis
    using assms by (auto simp: posix_part_def valid_lock_def same_lock_def IS_POSIX_def)
qed

lemma inode_wf_same:
  assumes "\<And>a. a \<in> set l \<Longrightarrow> same_lock (h a) (h' a)" "inode_wf h l"
  shows "inode_wf h' l"
proof -
  have "dropWhile (\<lambda>a. \<not> IS_POSIX (h' a)) l = dropWhile (\<lambda>a. \<not> IS_POSIX (h a)) l"
    by (rule dropWhile_cong[OF refl]) (use assms in \<open>auto simp: same_lock_def IS_POSIX_def\<close>)
  then show ?thesis
    using assms posix_part_same[of "dropWhile (\<lambda>a. \<not> IS_POSIX (h a)) l" h h']
    by (auto simp: inode_wf_def dest: set_dropWhileD)
qed

definition request_ok :: "file_lock \<Rightarrow> bool" where
  "request_ok r \<longleftrightarrow> IS_POSIX r \<and> local_lock r \<and>
     (fl_type r = F_RDLCK \<or> fl_type r = F_WRLCK \<or> fl_type r = F_UNLCK) \<and>
     0 \<le> fl_start r \<and> fl_start r \<le> fl_end r \<and> fl_end r \<le> OFFSET_MAX"

definition fresh_for :: "lock_world \<Rightarrow> nat \<Rightarrow> nat \<Rightarrow> nat option \<Rightarrow> nat option \<Rightarrow> bool" where
  "fresh_for w ino request n1 n2 \<longleftrightarrow>
     request \<notin> set (i_flock w ino) \<and>
     (\<forall>n\<in>set_option n1 \<union> set_option n2. n \<noteq> request \<and> n \<notin> set (i_flock w ino)) \<and>
     set_option n1 \<inter> set_option n2 = {}"

lemma posix_owner_update:
  assumes l: "i_flock w ino = A @ B @ C" and d: "distinct (i_flock w ino)"
    and B: "owner_list (lk_heap w) own B" and C: "\<forall>a\<in>set C. fl_owner (lk_heap w a) \<noteq> own"
    and r: "request_ok (lk_heap w req)" "fl_owner (lk_heap w req) = own"
    and fr: "fresh_for w ino req n1 n2"
    and res: "posix_apply cur ino n1 n2 (posix_scan_owner w ino req False None (length A) (B @ C)) =
      (w', err, f1, f2)"
  shows "(err \<noteq> None \<longrightarrow> w' = w) \<and> (err = None \<longrightarrow> updated w ino own (lk_heap w req) A B C w')"
proof -
  let ?s = "posix_scan_owner w ino req False None (length A) (B @ C)"
  obtain w1 req1 added left right before where s: "?s = (w1, req1, added, left, right, before)"
    by (cases ?s) auto
  have "scan_state w ino own A C (length A) req False [] [] [] B"
    using l d B C r fr by (auto simp: scan_state_def scan_inv_def owner_list_def request_ok_def fresh_for_def)
  then have "scan_result w ino own A C req False ([] @ [] @ B) ([] @ [] @ [] @ B) ?s"
    by (rule scan_ihD[OF posix_scan_owner_spec]) (simp_all add: ahead_def)
  then obtain P0 lf rq R where st: "scan_state w1 ino own A C before req1 added P0 lf rq R"
    and k: "scan_keeps w ino req B B w1 req1 (P0 @ lf @ R) (P0 @ lf @ rq @ R)"
    and ex: "scan_exit (lk_heap w1) req1 left right lf rq R"
    and unl: "fl_type (lk_heap w1 req1) = F_UNLCK \<and> right \<noteq> None \<longrightarrow> added"
    and u: "\<not> added \<or> right \<noteq> None \<and> left = right \<longrightarrow> \<not> False \<and> w1 = w \<and> req1 = req"
    unfolding s scan_result_def prod.case append_Nil by blast
  have po: "IS_POSIX (lk_heap w1 req1)" if "fl_type (lk_heap w1 req1) \<noteq> F_UNLCK"
  proof (cases added)
    case False then show ?thesis using u r by (auto simp: request_ok_def)
  next
    case True
    then have "rq = [req1]" and "\<forall>a\<in>set rq. valid_lock (lk_heap w1 a)"
      using st that unfolding scan_state_def scan_inv_def by auto
    then show ?thesis by (simp add: valid_lock_def)
  qed
  have sub: "set (P0 @ lf @ rq @ R) \<subseteq> set B" and rr: "req1 = req \<or> req1 \<in> set B"
    and oth: "\<forall>i. i \<noteq> ino \<longrightarrow> i_flock w1 i = i_flock w i"
    and keep: "\<forall>a. a \<notin> set B \<and> a \<noteq> req \<longrightarrow> core (lk_heap w1 a) = core (lk_heap w a)"
    and ov: "overridden (lk_heap w1) (lk_heap w1 req1) (P0 @ lf @ R) = overridden (lk_heap w) (lk_heap w req) B"
    using k unfolding scan_keeps_def by blast+
  have l1: "i_flock w1 ino = A @ P0 @ lf @ rq @ R @ C" using st by (simp add: scan_state_def)
  have fresh: "n \<noteq> req1 \<and> n \<notin> set (i_flock w1 ino)" if "n \<in> set_option n1 \<union> set_option n2" for n
    using fr that sub rr unfolding l1 l fresh_for_def by auto
  have AP: "(err \<noteq> None \<longrightarrow> w' = w1 \<and> (\<not> added \<or> right \<noteq> None \<and> left = right)) \<and>
      (err = None \<longrightarrow> updated w1 ino own (lk_heap w1 req1) A (P0 @ lf @ R) C w')"
    using fr res unfolding s
    by (intro posix_apply_spec[OF st ex unl po fresh]) (auto simp: fresh_for_def)
  moreover have "updated w ino own (lk_heap w req) A B C w'"
    if up: "updated w1 ino own (lk_heap w1 req1) A (P0 @ lf @ R) C w'"
  proof -
    have "core (lk_heap w1 a) = core (lk_heap w a)" if "a \<in> set (A @ C)" for a
      using keep that d fr unfolding l fresh_for_def by auto
    moreover have "(i_flock w1)(ino := x) = (i_flock w)(ino := x)" for x using oth by auto
    ultimately show ?thesis using up unfolding updated_def ov by auto
  qed
  ultimately show ?thesis using u by auto
qed


lemma insert_block_core:
  "core (lk_heap (locks_insert_block w b x) a) = core (lk_heap w a)"
  "i_flock (locks_insert_block w b x) = i_flock w"
  by (simp_all add: locks_insert_block_def Let_def core_def)

lemma free_unused_list [simp]: "i_flock (free_unused w x) = i_flock w"
  by (rule core_free_unused(2))

lemma same_lock_free2:
  "core (lk_heap w' a) = core (lk_heap w a) \<Longrightarrow>
   same_lock (lk_heap w a) (lk_heap (free_unused (free_unused w' x) y) a)"
  by (meson same_lock_core same_lock_free same_lock_trans)

text \<open>What one call does to the map and to the shape of the list; a call that fails changes neither.\<close>

text \<open>What a request does to the map: its range changes to its type, unless it failed or only asked.\<close>

definition map_result :: "lock_world \<Rightarrow> nat \<Rightarrow> nat \<Rightarrow> lock_world \<Rightarrow> errno option \<Rightarrow> bool" where
  "map_result w ino request w' err \<longleftrightarrow> inode_wf (lk_heap w') (i_flock w' ino) \<and>
    (\<forall>x b. range_map (lk_heap w') (i_flock w' ino) x b =
      (if err = None \<and> \<not> has_flag (lk_heap w request) FL_ACCESS \<and> x = fl_owner (lk_heap w request) \<and>
          fl_start (lk_heap w request) \<le> b \<and> b \<le> fl_end (lk_heap w request)
       then fl_type (lk_heap w request) else range_map (lk_heap w) (i_flock w ino) x b))"

lemma map_result_unchanged:
  assumes wf: "inode_wf (lk_heap w) (i_flock w ino)"
    and "err \<noteq> None \<or> has_flag (lk_heap w request) FL_ACCESS"
    and v: "\<And>a. core (lk_heap v a) = core (lk_heap w a)" "i_flock v = i_flock w"
  shows "map_result w ino request (free_unused (free_unused v f1) f2) err"
proof -
  let ?w = "free_unused (free_unused v f1) f2"
  have s: "same_lock (lk_heap w a) (lk_heap ?w a)" for a by (rule same_lock_free2) (rule v(1))
  show ?thesis using inode_wf_same[OF s wf] range_map_same[OF s] assms by (auto simp: map_result_def)
qed

lemma map_result_update:
  assumes wf: "inode_wf (lk_heap w) (i_flock w ino)" and r: "request_ok (lk_heap w request)"
    and fr: "fresh_for w ino request m1 m2" and access: "\<not> has_flag (lk_heap w request) FL_ACCESS"
    and before: "before = length (takeWhile (\<lambda>a. \<not> IS_POSIX (lk_heap w a) \<or>
      \<not> posix_same_owner (lk_heap w request) (lk_heap w a)) (i_flock w ino))"
    and ap: "posix_apply cur ino m1 m2
        (posix_scan_owner w ino request False None before (drop before (i_flock w ino))) = (v, e, f1, f2)"
  shows "map_result w ino request (free_unused (free_unused v f1) f2) e"
proof -
  let ?r = "lk_heap w request" and ?own = "fl_owner (lk_heap w request)" and ?w = "free_unused (free_unused v f1) f2"
  define A where "A = takeWhile (\<lambda>a. \<not> IS_POSIX (lk_heap w a) \<or> fl_owner (lk_heap w a) \<noteq> ?own) (i_flock w ino)"
  obtain B C where l: "i_flock w ino = A @ B @ C" and B: "owner_list (lk_heap w) ?own B"
    and A: "\<forall>a\<in>set A. \<not> IS_POSIX (lk_heap w a) \<or> fl_owner (lk_heap w a) \<noteq> ?own"
    and C: "\<forall>a\<in>set C. valid_lock (lk_heap w a) \<and> fl_owner (lk_heap w a) \<noteq> ?own" "B = [] \<Longrightarrow> C = []"
    using inode_wf_split[OF wf, of ?own] unfolding A_def by blast
  have own: "posix_same_owner ?r f \<longleftrightarrow> fl_owner f = ?own" for f
    using r by (auto simp: request_ok_def same_owner_local)
  have "before = length A" unfolding before own A_def by simp
  then have ap': "posix_apply cur ino m1 m2
      (posix_scan_owner w ino request False None (length A) (B @ C)) = (v, e, f1, f2)"
    using ap l by simp
  have d: "distinct (i_flock w ino)" and C': "\<forall>a\<in>set C. fl_owner (lk_heap w a) \<noteq> ?own"
    using wf C by (auto simp: inode_wf_def)
  have U: "(e \<noteq> None \<longrightarrow> v = w) \<and> (e = None \<longrightarrow> updated w ino ?own ?r A B C v)"
    by (rule posix_owner_update[OF l d B C' r refl fr ap'])
  show ?thesis
  proof (cases "e = None")
    case False
    then show ?thesis using U map_result_unchanged[OF wf, of e request v f1 f2] by simp
  next
    case True
    then have up: "updated w ino ?own ?r A B C v" using U by simp
    have s: "same_lock (lk_heap v a) (lk_heap ?w a)" for a by (rule same_lock_free2) simp
    have "inode_wf (lk_heap ?w) (i_flock v ino)"
      by (rule inode_wf_same[OF s inode_wf_updated[OF wf[unfolded l] A B C up]])
    then show ?thesis
      using range_map_updated[OF A B C' up] range_map_same[OF s] True access l by (auto simp: map_result_def)
  qed
qed

lemma posix_lock_file_map_result:
  assumes wf: "inode_wf (lk_heap w) (i_flock w ino)" and r: "request_ok (lk_heap w request)"
    and fr: "fresh_for w ino request n1 n2"
    and res: "posix_lock_file w cur ino request n1 n2 = (w', err, conf)"
  shows "map_result w ino request w' err"
proof -
  let ?r = "lk_heap w request"
  define need where "need \<longleftrightarrow> \<not> has_flag ?r FL_ACCESS \<and>
      (fl_type ?r \<noteq> F_UNLCK \<or> fl_start ?r \<noteq> 0 \<or> fl_end ?r \<noteq> OFFSET_MAX)"
  define m1 where "m1 = (if need then n1 else None)"
  define m2 where "m2 = (if need then n2 else None)"
  define cf where "cf = (if fl_type ?r \<noteq> F_UNLCK then first_conflict w ino ?r else None)"
  define before where "before = length (takeWhile (\<lambda>a. \<not> IS_POSIX (lk_heap w a) \<or>
      \<not> posix_same_owner ?r (lk_heap w a)) (i_flock w ino))"
  define ap where "ap = posix_apply cur ino m1 m2
      (posix_scan_owner w ino request False None before (drop before (i_flock w ino)))"
  have E: "posix_lock_file w cur ino request n1 n2 =
     (case cf of
        Some fl \<Rightarrow>
          let (v, error) =
                (if \<not> has_flag ?r FL_SLEEP then (w, EAGAIN)
                 else if posix_locks_deadlock w request fl then (w, EDEADLK)
                 else (locks_insert_block w fl request, FILE_LOCK_DEFERRED))
          in (free_unused (free_unused v m1) m2, Some error,
              Some (locks_copy_lock_u locks_init_lock (lk_heap w fl)))
      | None \<Rightarrow>
          if has_flag ?r FL_ACCESS then (free_unused (free_unused w m1) m2, None, None)
          else let (w, error, f1, f2) = ap in (free_unused (free_unused w f1) f2, error, None))"
    unfolding posix_lock_file_def posix_lock_file_u_def m1_def m2_def need_def cf_def ap_def before_def Let_def
    by (rule refl)
  have frm: "fresh_for w ino request m1 m2" using fr by (auto simp: fresh_for_def m1_def m2_def)
  show ?thesis
  proof (cases cf)
    case (Some fl)
    then obtain v e where "w' = free_unused (free_unused v m1) m2" "err = Some e" "v = w \<or> v = locks_insert_block w fl request"
      using res unfolding E by (auto split: if_splits)
    then show ?thesis using map_result_unchanged[OF wf, of err request v m1 m2] insert_block_core by auto
  next
    case None
    show ?thesis
    proof (cases "has_flag ?r FL_ACCESS")
      case True
      then show ?thesis using res None map_result_unchanged[OF wf, of err request w m1 m2] unfolding E by auto
    next
      case False
      obtain v f1 f2 where "ap = (v, err, f1, f2)" "w' = free_unused (free_unused v f1) f2"
        using res None False unfolding E by (auto split: prod.splits)
      then show ?thesis using map_result_update[OF wf r frm False before_def] by (simp add: ap_def)
    qed
  qed
qed

lemmas posix_lock_file_map = posix_lock_file_map_result[unfolded map_result_def]


section \<open>Conflicts in terms of the map\<close>

lemma range_map_Some:
  "range_map h l x b \<noteq> F_UNLCK \<Longrightarrow> \<exists>a\<in>set l. covers (h a) x b \<and> fl_type (h a) = range_map h l x b"
proof -
  assume n: "range_map h l x b \<noteq> F_UNLCK"
  then obtain a where a: "List.find (\<lambda>a. covers (h a) x b) l = Some a"
    by (auto simp: range_map_def split: option.splits)
  then have "a \<in> set l \<and> covers (h a) x b" unfolding find_Some_iff by (metis nth_mem)
  then show ?thesis using a by (auto simp: range_map_def)
qed

lemma range_map_covers:
  assumes wf: "inode_wf h l" and a: "a \<in> set l" "covers (h a) x b"
  shows "range_map h l x b = fl_type (h a) \<and> fl_type (h a) \<noteq> F_UNLCK"
proof -
  define A where "A = takeWhile (\<lambda>a. \<not> IS_POSIX (h a) \<or> fl_owner (h a) \<noteq> x) l"
  obtain B C where l: "l = A @ B @ C" and B: "owner_list h x B"
    and A: "\<forall>a\<in>set A. \<not> IS_POSIX (h a) \<or> fl_owner (h a) \<noteq> x"
    and C: "\<forall>a\<in>set C. valid_lock (h a) \<and> fl_owner (h a) \<noteq> x" and "B = [] \<Longrightarrow> C = []"
    using inode_wf_split[OF wf, of x] unfolding A_def by blast
  have aB: "a \<in> set B" using a A C l by (auto simp: covers_def)
  then have "(b, fl_type (h a)) \<in> lock_bytes h B" using a by (auto simp: lock_bytes_def covers_def)
  moreover have "fl_type (h a) \<noteq> F_UNLCK" using aB B valid_not_unlck by (auto simp: owner_list_def)
  ultimately show ?thesis using range_map_own[OF A B, of C b "fl_type (h a)"] C l by auto
qed

lemma inode_wf_valid:
  assumes "inode_wf h l" "a \<in> set l" "IS_POSIX (h a)"
  shows "valid_lock (h a)"
proof -
  obtain N Q where "l = N @ Q" "\<forall>a\<in>set N. \<not> IS_POSIX (h a)" "posix_part h Q"
    using assms(1) unfolding inode_wf_alt by blast
  then show ?thesis using assms(2,3) by (auto simp: posix_part_def)
qed

text \<open>Another owner holds a byte of the request in a mode the request cannot share.\<close>

definition blocked_byte :: "(nat \<Rightarrow> int \<Rightarrow> u8) \<Rightarrow> file_lock \<Rightarrow> bool" where
  "blocked_byte m r \<longleftrightarrow>
     (\<exists>x b. x \<noteq> fl_owner r \<and> fl_start r \<le> b \<and> b \<le> fl_end r \<and>
            (m x b = F_WRLCK \<or> fl_type r = F_WRLCK \<and> m x b \<noteq> F_UNLCK))"

lemma first_conflict_iff:
  assumes wf: "inode_wf (lk_heap w) (i_flock w ino)" and r: "local_lock r" "fl_start r \<le> fl_end r"
  shows "first_conflict w ino r \<noteq> None \<longleftrightarrow> blocked_byte (range_map (lk_heap w) (i_flock w ino)) r"
proof
  let ?h = "lk_heap w" and ?l = "i_flock w ino"
  assume "first_conflict w ino r \<noteq> None"
  then obtain a where a: "a \<in> set ?l" "IS_POSIX (?h a)" "posix_locks_conflict r (?h a)"
    by (auto simp: first_conflict_def find_None_iff)
  then have v: "valid_lock (?h a)"
    using inode_wf_valid[OF wf] by simp
  let ?b = "max (fl_start r) (fl_start (?h a))"
  have c: "fl_owner (?h a) \<noteq> fl_owner r" "fl_type (?h a) = F_WRLCK \<or> fl_type r = F_WRLCK"
    "fl_end r \<ge> fl_start (?h a)" "fl_end (?h a) \<ge> fl_start r"
    using a(3) r(1)
    by (auto simp: posix_locks_conflict_def locks_conflict_def locks_overlap_def same_owner_local split: if_splits)
  have "covers (?h a) (fl_owner (?h a)) ?b" using a(2) c v by (auto simp: covers_def valid_lock_def)
  from range_map_covers[OF wf a(1) this] show "blocked_byte (range_map ?h ?l) r"
    unfolding blocked_byte_def using c r(2)
    by (intro exI[of _ "fl_owner (?h a)"] exI[of _ ?b]) auto
next
  let ?h = "lk_heap w" and ?l = "i_flock w ino"
  assume "blocked_byte (range_map ?h ?l) r"
  then obtain x b where x: "x \<noteq> fl_owner r" "fl_start r \<le> b" "b \<le> fl_end r"
    "range_map ?h ?l x b = F_WRLCK \<or> fl_type r = F_WRLCK \<and> range_map ?h ?l x b \<noteq> F_UNLCK"
    by (auto simp: blocked_byte_def)
  then have "range_map ?h ?l x b \<noteq> F_UNLCK" by (auto simp: F_WRLCK_def F_UNLCK_def)
  then obtain a where a: "a \<in> set ?l" "covers (?h a) x b" "fl_type (?h a) = range_map ?h ?l x b"
    using range_map_Some by blast
  then have "IS_POSIX (?h a) \<and> posix_locks_conflict r (?h a)"
    using x r(1) by (auto simp: posix_locks_conflict_def locks_conflict_def locks_overlap_def covers_def same_owner_local)
  then show "first_conflict w ino r \<noteq> None" using a(1) by (auto simp: first_conflict_def find_None_iff)
qed


definition no_conflicts :: "(nat \<Rightarrow> file_lock) \<Rightarrow> nat list \<Rightarrow> bool" where
  "no_conflicts h l \<longleftrightarrow>
     (\<forall>a\<in>set l. \<forall>b\<in>set l. IS_POSIX (h a) \<longrightarrow> \<not> posix_locks_conflict (h a) (h b))"

lemma no_conflicts_map:
  assumes wf: "inode_wf h l"
  shows "no_conflicts h l \<longleftrightarrow>
    (\<forall>x y b. x \<noteq> y \<and> range_map h l x b = F_WRLCK \<longrightarrow> range_map h l y b = F_UNLCK)"
proof (intro iffI allI impI)
  fix x y b
  assume n: "no_conflicts h l" and x: "x \<noteq> y \<and> range_map h l x b = F_WRLCK"
  show "range_map h l y b = F_UNLCK"
  proof (rule ccontr)
    assume "range_map h l y b \<noteq> F_UNLCK"
    then obtain c where c: "c \<in> set l" "covers (h c) y b" using range_map_Some by blast
    have "range_map h l x b \<noteq> F_UNLCK" using x by (simp add: F_WRLCK_def F_UNLCK_def)
    then obtain a where a: "a \<in> set l" "covers (h a) x b" "fl_type (h a) = F_WRLCK"
      using range_map_Some[of h l x b] x by metis
    have "local_lock (h a)" using inode_wf_valid[OF wf a(1)] a(2) by (simp add: covers_def valid_lock_def)
    then have "posix_locks_conflict (h a) (h c)"
      using a c x by (auto simp: posix_locks_conflict_def locks_conflict_def locks_overlap_def covers_def same_owner_local)
    then show False using n a c by (auto simp: no_conflicts_def covers_def)
  qed
next
  assume m: "\<forall>x y b. x \<noteq> y \<and> range_map h l x b = F_WRLCK \<longrightarrow> range_map h l y b = F_UNLCK"
  show "no_conflicts h l"
    unfolding no_conflicts_def
  proof (intro ballI impI notI)
    fix a c assume ac: "a \<in> set l" "c \<in> set l" "IS_POSIX (h a)" "posix_locks_conflict (h a) (h c)"
    then have v: "valid_lock (h a)" "valid_lock (h c)"
      using inode_wf_valid[OF wf] by (auto simp: posix_locks_conflict_def split: if_splits)
    let ?b = "max (fl_start (h a)) (fl_start (h c))"
    have c: "fl_owner (h a) \<noteq> fl_owner (h c)" "fl_type (h c) = F_WRLCK \<or> fl_type (h a) = F_WRLCK"
      "fl_end (h a) \<ge> fl_start (h c)" "fl_end (h c) \<ge> fl_start (h a)"
      using ac(4) v(1)
      by (auto simp: posix_locks_conflict_def locks_conflict_def locks_overlap_def same_owner_local valid_lock_def split: if_splits)
    have "covers (h a) (fl_owner (h a)) ?b" "covers (h c) (fl_owner (h c)) ?b"
      using v c by (auto simp: covers_def valid_lock_def)
    from range_map_covers[OF wf ac(1) this(1)] range_map_covers[OF wf ac(2) this(2)]
    show False using m c(1,2) by metis
  qed
qed

fun wait_chain :: "lock_world \<Rightarrow> nat \<Rightarrow> nat \<Rightarrow> nat option" where
  "wait_chain w b 0 = Some b"
| "wait_chain w b (Suc n) =
     (case what_owner_is_waiting_for w b of None \<Rightarrow> None | Some c \<Rightarrow> wait_chain w c n)"

lemma deadlock_loop_iff:
  "deadlock_loop w c b i \<longleftrightarrow>
     (\<exists>n x. n + i \<le> MAX_DEADLK_ITERATIONS \<and> wait_chain w b (Suc n) = Some x \<and>
            posix_same_owner (lk_heap w c) (lk_heap w x))"
proof (induction w c b i rule: deadlock_loop.induct)
  case (1 w c b i)
  show ?case
  proof (cases "what_owner_is_waiting_for w b")
    case None
    then show ?thesis by (subst deadlock_loop.simps) simp
  next
    case (Some d)
    show ?thesis
    proof (cases "i > MAX_DEADLK_ITERATIONS \<or> posix_same_owner (lk_heap w c) (lk_heap w d)")
      case True
      moreover have "wait_chain w b (Suc 0) = Some d" using Some by simp
      ultimately show ?thesis using Some
        by (subst deadlock_loop.simps) (auto simp del: wait_chain.simps(2) intro: exI[of _ "0::nat"])
    next
      case False
      then have "deadlock_loop w c b i = deadlock_loop w c d (i + 1)"
        using Some by (subst deadlock_loop.simps) simp
      also have "\<dots> \<longleftrightarrow> (\<exists>n x. n + (i + 1) \<le> MAX_DEADLK_ITERATIONS \<and> wait_chain w d (Suc n) = Some x \<and>
            posix_same_owner (lk_heap w c) (lk_heap w x))"
        using "1.IH"[OF Some] False by simp
      also have "\<dots> \<longleftrightarrow> (\<exists>n x. n + i \<le> MAX_DEADLK_ITERATIONS \<and> wait_chain w d n = Some x \<and>
            posix_same_owner (lk_heap w c) (lk_heap w x))" (is "?L \<longleftrightarrow> ?R")
      proof
        assume ?R
        then obtain n x where n: "n + i \<le> MAX_DEADLK_ITERATIONS" "wait_chain w d n = Some x"
          "posix_same_owner (lk_heap w c) (lk_heap w x)" by blast
        then show ?L using False by (cases n) (auto simp del: wait_chain.simps(2))
      next
        assume ?L
        then obtain n x where "n + (i + 1) \<le> MAX_DEADLK_ITERATIONS" "wait_chain w d (Suc n) = Some x"
          "posix_same_owner (lk_heap w c) (lk_heap w x)" by blast
        then show ?R by (intro exI[of _ "Suc n"] exI[of _ x]) (simp del: wait_chain.simps(2))
      qed
      finally show ?thesis using Some by simp
    qed
  qed
qed


lemma posix_lock_file_conflict:
  assumes "posix_lock_file w cur ino request n1 n2 = (w', err, conf)" "fl_type (lk_heap w request) \<noteq> F_UNLCK"
    "first_conflict w ino (lk_heap w request) = Some fl"
  shows "err = Some (if \<not> has_flag (lk_heap w request) FL_SLEEP then EAGAIN
                     else if posix_locks_deadlock w request fl then EDEADLK else FILE_LOCK_DEFERRED)"
  using assms by (auto simp: posix_lock_file_def posix_lock_file_u_def Let_def split: if_splits)

lemma posix_apply_errors:
  assumes "posix_apply cur ino n1 n2 scan = (w', err, f1, f2)"
    "scan = (w, req, added, left, right, before)" "\<not> added \<longrightarrow> fl_type (lk_heap w req) \<noteq> F_UNLCK"
  shows "err \<in> {None, Some ENOLCK} \<and> (err = Some ENOLCK \<longrightarrow> n1 = None \<or> n2 = None)"
  using assms by (auto simp: posix_apply_core Let_def split: if_splits)

lemma scan_not_added:
  "posix_scan_owner w ino req added left before xs = (w', req', False, left', right', before') \<Longrightarrow>
   w' = w \<and> req' = req \<and> \<not> added"
proof (induction xs arbitrary: w req added left before)
  case (Cons fl rest)
  from Cons.prems show ?case
    by (simp only: posix_scan_owner.simps Let_def split: if_split_asm)
      ((drule Cons.IH)?; simp)+
qed simp

lemma posix_lock_file_granted:
  assumes "posix_lock_file w cur ino request n1 n2 = (w', err, conf)" "fl_type (lk_heap w request) \<noteq> F_UNLCK"
    "first_conflict w ino (lk_heap w request) = None"
  shows "err \<in> {None, Some ENOLCK} \<and> (err = Some ENOLCK \<longrightarrow> n1 = None \<or> n2 = None)"
proof (cases "has_flag (lk_heap w request) FL_ACCESS")
  case True
  then show ?thesis using assms by (simp add: posix_lock_file_def posix_lock_file_u_def Let_def)
next
  case False
  define before where "before = length (takeWhile (\<lambda>a. \<not> IS_POSIX (lk_heap w a) \<or>
      \<not> posix_same_owner (lk_heap w request) (lk_heap w a)) (i_flock w ino))"
  define scan where "scan = posix_scan_owner w ino request False None before (drop before (i_flock w ino))"
  obtain v req added left right before' where s: "scan = (v, req, added, left, right, before')"
    by (cases scan) auto
  obtain v' e f1 f2 where ap: "posix_apply cur ino n1 n2 scan = (v', e, f1, f2)" by (metis prod_cases4)
  have "err = e"
    using assms False ap by (simp add: posix_lock_file_def posix_lock_file_u_def Let_def scan_def before_def)
  moreover have "\<not> added \<longrightarrow> fl_type (lk_heap v req) \<noteq> F_UNLCK"
  proof
    assume "\<not> added"
    then have "posix_scan_owner w ino request False None before (drop before (i_flock w ino)) =
        (v, req, False, left, right, before')" using s by (simp add: scan_def)
    from scan_not_added[OF this] show "fl_type (lk_heap v req) \<noteq> F_UNLCK" using assms(2) by simp
  qed
  ultimately show ?thesis using posix_apply_errors[OF ap s] by simp
qed

section \<open>Properties\<close>

text \<open>The abstract operation: one owner's bytes in a range get a new type.\<close>

definition map_update :: "(nat \<Rightarrow> int \<Rightarrow> u8) \<Rightarrow> file_lock \<Rightarrow> nat \<Rightarrow> int \<Rightarrow> u8" where
  "map_update m r =
     (\<lambda>x b. if x = fl_owner r \<and> fl_start r \<le> b \<and> b \<le> fl_end r then fl_type r else m x b)"

definition demo_lock :: "nat \<Rightarrow> u8 \<Rightarrow> int \<Rightarrow> int \<Rightarrow> file_lock" where
  "demo_lock own type s e = locks_init_lock
     \<lparr>fl_owner := own, fl_flags := FL_POSIX, fl_type := type, fl_start := s, fl_end := e\<rparr>"

text \<open>Owner 3 holds a read lock on bytes 0 to 9 of file 2 and owner 4 one on bytes 5 to 20; the
  request at address 20 is supplied by the caller.\<close>

definition demo_locks :: "file_lock \<Rightarrow> lock_world" where
  "demo_locks req =
     \<lparr>lk_heap = (\<lambda>_. locks_init_lock)
        (10 := demo_lock 3 F_RDLCK 0 9, 11 := demo_lock 4 F_RDLCK 5 20, 20 := req),
      i_flock = (\<lambda>_. [])(2 := [10, 11]), file_lock_list = [10, 11], blocked_list = [],
      lk_events = [], lk_bug = False\<rparr>"

text \<open>
  C1: applying a POSIX lock or unlock implements one update of the map from owners and bytes to
  lock types.  Whatever splitting, merging, replacing or deleting of lock structures the call
  does, afterwards the requesting owner holds exactly the requested type on exactly the requested
  bytes, every other byte of that owner and every byte of every other owner is as before, and the
  list again has its shape: POSIX locks last, grouped by owner, each group sorted, disjoint and
  merged as far as possible.  A call that fails for any reason, allocation failure included, or
  that only tests (\<open>FL_ACCESS\<close>), leaves the map unchanged.
\<close>

theorem posix_lock_refines_map:
  assumes "inode_wf (lk_heap w) (i_flock w ino)" "request_ok (lk_heap w request)"
    "fresh_for w ino request n1 n2"
    "posix_lock_file w cur ino request n1 n2 = (w', err, conf)"
  shows "inode_wf (lk_heap w') (i_flock w' ino) \<and>
    range_map (lk_heap w') (i_flock w' ino) =
      (if err = None \<and> \<not> has_flag (lk_heap w request) FL_ACCESS
       then map_update (range_map (lk_heap w) (i_flock w ino)) (lk_heap w request)
       else range_map (lk_heap w) (i_flock w ino))"
  using posix_lock_file_map[OF assms] by (auto simp: map_update_def fun_eq_iff)

text \<open>An unlock of bytes 3 to 5 splits the lock of owner 3 in two.\<close>

theorem posix_lock_refines_map_witness:
  "let w = demo_locks (demo_lock 3 F_UNLCK 3 5);
       (w', err, conf) = posix_lock_file w 7 2 20 (Some 30) (Some 31)
   in err = None \<and> i_flock w' 2 = [31, 10, 11] \<and>
      range_map (lk_heap w') (i_flock w' 2) 3 4 = F_UNLCK \<and>
      range_map (lk_heap w') (i_flock w' 2) 3 6 = F_RDLCK \<and> inode_wf (lk_heap w') (i_flock w' 2)"
proof -
  define w where "w = demo_locks (demo_lock 3 F_UNLCK 3 5)"
  obtain w' err conf where p: "posix_lock_file w 7 2 20 (Some 30) (Some 31) = (w', err, conf)"
    by (metis prod_cases3)
  have "fst (snd (posix_lock_file w 7 2 20 (Some 30) (Some 31))) = None"
    "i_flock (fst (posix_lock_file w 7 2 20 (Some 30) (Some 31))) 2 = [31, 10, 11]"
    unfolding w_def by code_simp+
  then have e: "err = None" "i_flock w' 2 = [31, 10, 11]" using p by simp_all
  have "inode_wf (lk_heap w) (i_flock w 2)" "request_ok (lk_heap w 20)"
    "fresh_for w 2 20 (Some 30) (Some 31)" "\<not> has_flag (lk_heap w 20) FL_ACCESS"
    "fl_owner (lk_heap w 20) = 3 \<and> fl_start (lk_heap w 20) = 3 \<and> fl_end (lk_heap w 20) = 5 \<and>
     fl_type (lk_heap w 20) = F_UNLCK"
    "range_map (lk_heap w) (i_flock w 2) 3 6 = F_RDLCK"
    unfolding w_def by code_simp+
  with posix_lock_refines_map[OF _ _ _ p] e show ?thesis
    by (simp add: map_update_def w_def[symmetric] p)
qed

text \<open>
  C3: mutual exclusion.  A file on which no two POSIX locks of different owners conflict stays
  so under every lock request, granted or refused: no byte is ever write-locked by one owner
  while another owner holds a lock on it.
\<close>

theorem posix_locks_exclusive:
  assumes "inode_wf (lk_heap w) (i_flock w ino)" "request_ok (lk_heap w request)"
    "fresh_for w ino request n1 n2" "no_conflicts (lk_heap w) (i_flock w ino)"
    "posix_lock_file w cur ino request n1 n2 = (w', err, conf)"
  shows "no_conflicts (lk_heap w') (i_flock w' ino)"
proof -
  let ?r = "lk_heap w request" and ?m = "range_map (lk_heap w) (i_flock w ino)"
  let ?m' = "range_map (lk_heap w') (i_flock w' ino)"
  have wf': "inode_wf (lk_heap w') (i_flock w' ino)"
    and m': "?m' x b = (if err = None \<and> \<not> has_flag ?r FL_ACCESS \<and> x = fl_owner ?r \<and>
          fl_start ?r \<le> b \<and> b \<le> fl_end ?r then fl_type ?r else ?m x b)" for x b
    using posix_lock_file_map[OF assms(1-3,5)] by auto
  have old: "x \<noteq> y \<Longrightarrow> ?m x b = F_WRLCK \<Longrightarrow> ?m y b = F_UNLCK" for x y b
    using assms(4) no_conflicts_map[OF assms(1)] by blast
  have nb: "\<not> blocked_byte ?m ?r" if "err = None" "fl_type ?r \<noteq> F_UNLCK"
  proof -
    have "first_conflict w ino ?r = None"
      using posix_lock_file_conflict[OF assms(5)] that by (cases "first_conflict w ino ?r") auto
    then show ?thesis
      using first_conflict_iff[OF assms(1), of ?r] assms(2) by (simp add: request_ok_def)
  qed
  have nb': "?m z b \<noteq> F_WRLCK \<and> (fl_type ?r = F_WRLCK \<longrightarrow> ?m z b = F_UNLCK)"
    if "err = None" "fl_type ?r \<noteq> F_UNLCK" "z \<noteq> fl_owner ?r" "fl_start ?r \<le> b" "b \<le> fl_end ?r" for z b
    using nb[OF that(1,2)] that unfolding blocked_byte_def by blast
  have "?m' y b = F_UNLCK" if xy: "x \<noteq> y" "?m' x b = F_WRLCK" for x y b
  proof (rule ccontr)
    assume "?m' y b \<noteq> F_UNLCK"
    with xy show False
      using old[of x y b] old[of y x b] nb'[of y b] nb'[of x b] unfolding m'
      by (auto simp: F_WRLCK_def F_UNLCK_def split: if_splits)
  qed
  then show ?thesis unfolding no_conflicts_map[OF wf'] by blast
qed


text \<open>Owner 4 converts bytes 12 to 30 to a write lock; the list keeps free of conflicts.\<close>

theorem posix_locks_exclusive_witness:
  "let w = demo_locks (demo_lock 4 F_WRLCK 12 30);
       (w', err, conf) = posix_lock_file w 7 2 20 (Some 30) (Some 31)
   in err = None \<and> i_flock w' 2 = [10, 11, 30] \<and> no_conflicts (lk_heap w') (i_flock w' 2)"
proof -
  define w where "w = demo_locks (demo_lock 4 F_WRLCK 12 30)"
  obtain w' err conf where p: "posix_lock_file w 7 2 20 (Some 30) (Some 31) = (w', err, conf)"
    by (metis prod_cases3)
  have "fst (snd (posix_lock_file w 7 2 20 (Some 30) (Some 31))) = None"
    "i_flock (fst (posix_lock_file w 7 2 20 (Some 30) (Some 31))) 2 = [10, 11, 30]"
    unfolding w_def by code_simp+
  then have e: "err = None" "i_flock w' 2 = [10, 11, 30]" using p by simp_all
  have "inode_wf (lk_heap w) (i_flock w 2)" "request_ok (lk_heap w 20)"
    "fresh_for w 2 20 (Some 30) (Some 31)" "no_conflicts (lk_heap w) (i_flock w 2)"
    unfolding w_def by code_simp+
  with posix_locks_exclusive[OF _ _ _ _ p] e show ?thesis
    by (simp add: w_def[symmetric] p)
qed

text \<open>
  C24: a lock request is refused or queued exactly when another owner holds one of its bytes in a
  mode that cannot be shared: \<open>EAGAIN\<close> for a request that must not sleep, \<open>EDEADLK\<close> when the
  deadlock check fires, and otherwise it is queued (\<open>FILE_LOCK_DEFERRED\<close>).  In every other case
  it is granted, or fails only for lack of memory (\<open>ENOLCK\<close>).  The test call behind \<open>F_GETLK\<close>
  reports a conflict in exactly the same cases.
\<close>

theorem posix_lock_error_iff:
  assumes "inode_wf (lk_heap w) (i_flock w ino)" "request_ok (lk_heap w request)"
    "fl_type (lk_heap w request) \<noteq> F_UNLCK"
    "posix_lock_file w cur ino request n1 n2 = (w', err, conf)"
  shows "(blocked_byte (range_map (lk_heap w) (i_flock w ino)) (lk_heap w request) \<longleftrightarrow>
          err \<in> {Some EAGAIN, Some EDEADLK, Some FILE_LOCK_DEFERRED}) \<and>
    (err = Some EAGAIN \<longrightarrow> \<not> has_flag (lk_heap w request) FL_SLEEP) \<and>
    (err = Some EDEADLK \<or> err = Some FILE_LOCK_DEFERRED \<longrightarrow> has_flag (lk_heap w request) FL_SLEEP) \<and>
    (err = Some ENOLCK \<longrightarrow> n1 = None \<or> n2 = None) \<and>
    err \<in> {None, Some EAGAIN, Some EDEADLK, Some FILE_LOCK_DEFERRED, Some ENOLCK} \<and>
    (blocked_byte (range_map (lk_heap w) (i_flock w ino)) (lk_heap w request) \<longleftrightarrow>
          fl_type (posix_test_lock w ino (lk_heap w request)) \<noteq> F_UNLCK)"
proof -
  let ?r = "lk_heap w request" and ?m = "range_map (lk_heap w) (i_flock w ino)"
  have b: "blocked_byte ?m ?r \<longleftrightarrow> first_conflict w ino ?r \<noteq> None"
    using first_conflict_iff[OF assms(1), of ?r] assms(2) by (simp add: request_ok_def)
  show ?thesis
  proof (cases "first_conflict w ino ?r")
    case None
    then have "err \<in> {None, Some ENOLCK} \<and> (err = Some ENOLCK \<longrightarrow> n1 = None \<or> n2 = None)"
      by (rule posix_lock_file_granted[OF assms(4,3)])
    then show ?thesis using b None by (auto simp: posix_test_lock_def)
  next
    case (Some a)
    have "fl_type (posix_test_lock w ino ?r) = fl_type (lk_heap w a)"
      using Some by (auto simp: posix_test_lock_def locks_copy_lock_u_def Let_def split: option.split)
    moreover have "a \<in> set (i_flock w ino) \<and> IS_POSIX (lk_heap w a)"
      using Some unfolding first_conflict_def find_Some_iff by (metis nth_mem)
    then have "fl_type (lk_heap w a) \<noteq> F_UNLCK"
      using inode_wf_valid[OF assms(1)] valid_not_unlck by blast
    ultimately show ?thesis
      using b Some posix_lock_file_conflict[OF assms(4,3) Some] by auto
  qed
qed


theorem posix_lock_error_iff_witness:
  "let w = demo_locks (demo_lock 3 F_WRLCK 8 12);
       (w', err, conf) = posix_lock_file w 7 2 20 (Some 30) (Some 31)
   in err = Some EAGAIN \<and> blocked_byte (range_map (lk_heap w) (i_flock w 2)) (lk_heap w 20)"
proof -
  define w where "w = demo_locks (demo_lock 3 F_WRLCK 8 12)"
  obtain w' err conf where p: "posix_lock_file w 7 2 20 (Some 30) (Some 31) = (w', err, conf)"
    by (metis prod_cases3)
  have "fst (snd (posix_lock_file w 7 2 20 (Some 30) (Some 31))) = Some EAGAIN"
    unfolding w_def by code_simp
  then have e: "err = Some EAGAIN" using p by simp
  have "inode_wf (lk_heap w) (i_flock w 2)" "request_ok (lk_heap w 20)" "fl_type (lk_heap w 20) \<noteq> F_UNLCK"
    unfolding w_def by code_simp+
  with posix_lock_error_iff[OF _ _ _ p] e show ?thesis
    by (simp add: w_def[symmetric] p)
qed

text \<open>
  C36: deadlock detection is sound and, up to its bound, complete.  It reports a deadlock exactly
  when following the chain lock, lock its owner waits for, lock that lock's owner waits for, and
  so on, reaches a lock of the requesting owner within \<open>MAX_DEADLK_ITERATIONS + 1\<close> steps; it
  returns on every chain, cyclic ones included.
\<close>

theorem posix_locks_deadlock_iff:
  "posix_locks_deadlock w caller_fl block_fl \<longleftrightarrow>
     (\<exists>n x. 1 \<le> n \<and> n \<le> MAX_DEADLK_ITERATIONS + 1 \<and> wait_chain w block_fl n = Some x \<and>
            posix_same_owner (lk_heap w caller_fl) (lk_heap w x))"
  unfolding posix_locks_deadlock_def deadlock_loop_iff
proof (intro iffI; elim exE conjE)
  fix n x
  assume "n + 0 \<le> MAX_DEADLK_ITERATIONS" "wait_chain w block_fl (Suc n) = Some x"
    "posix_same_owner (lk_heap w caller_fl) (lk_heap w x)"
  then show "\<exists>n x. 1 \<le> n \<and> n \<le> MAX_DEADLK_ITERATIONS + 1 \<and> wait_chain w block_fl n = Some x \<and>
      posix_same_owner (lk_heap w caller_fl) (lk_heap w x)"
    by (intro exI[of _ "Suc n"] exI[of _ x]) (simp del: wait_chain.simps)
next
  fix n x
  assume "1 \<le> n" "n \<le> MAX_DEADLK_ITERATIONS + 1" "wait_chain w block_fl n = Some x"
    "posix_same_owner (lk_heap w caller_fl) (lk_heap w x)"
  then show "\<exists>n x. n + 0 \<le> MAX_DEADLK_ITERATIONS \<and> wait_chain w block_fl (Suc n) = Some x \<and>
      posix_same_owner (lk_heap w caller_fl) (lk_heap w x)"
    by (intro exI[of _ "n - 1"] exI[of _ x]) (simp del: wait_chain.simps)
qed


end
