(* ===== verification/Lock_Syscalls.thy ===== *)
theory Lock_Syscalls
  imports Lock_Map
begin

text \<open>
  The entry points of \<open>fs/locks.c\<close>: conversion between \<open>struct flock\<close> and lock structures,
  \<open>flock\<close> locks, the calls that sleep until a lock is granted, mandatory locking, and the
  removal of locks when a file is closed.  What other tasks do while a call sleeps is an
  argument: each element of the list of events is one sleep, a change of the world together
  with what \<open>wait_event_interruptible\<close> returns.  A call that is still asleep when the list
  ends has the result \<open>None\<close>.
\<close>

section \<open>Files and user structures\<close>

record filp =
  f_id :: nat
  f_inode :: nat
  f_pos :: int
  f_mode :: u32
  f_nonblock :: bool
  i_size :: int

record flock =
  l_type :: int
  l_whence :: int
  l_start :: int
  l_len :: int
  l_pid :: u32

record task =
  t_files :: nat
  t_tgid :: u32

definition FMODE_READ :: u32 where "FMODE_READ = 1"
definition FMODE_WRITE :: u32 where "FMODE_WRITE = 2"

definition LOCK_SH :: u32 where "LOCK_SH = 1"
definition LOCK_EX :: u32 where "LOCK_EX = 2"
definition LOCK_NB :: u32 where "LOCK_NB = 4"
definition LOCK_UN :: u32 where "LOCK_UN = 8"
definition LOCK_MAND :: u32 where "LOCK_MAND = 32"
definition LOCK_READ :: u32 where "LOCK_READ = 64"
definition LOCK_WRITE :: u32 where "LOCK_WRITE = 128"
definition LOCK_RW :: u32 where "LOCK_RW = 192"

definition F_SETLKW :: int where "F_SETLKW = 7"
definition F_SETLKW64 :: int where "F_SETLKW64 = 14"

definition off_t :: "int \<Rightarrow> int" where "off_t x = sint (word_of_int x :: u32)"
definition loff_t :: "int \<Rightarrow> int" where "loff_t x = sint (word_of_int x :: u64)"

section \<open>Conversion to and from lock structures\<close>

definition flock_base :: "filp \<Rightarrow> int \<Rightarrow> int option" where
  "flock_base f whence =
     (if whence = 0 then Some 0
      else if whence = 1 then Some (f_pos f)
      else if whence = 2 then Some (i_size f)
      else None)"

definition flock_to_posix_lock :: "task \<Rightarrow> filp \<Rightarrow> file_lock \<Rightarrow> flock \<Rightarrow> errno + file_lock" where
  "flock_to_posix_lock cur f fl l =
     (case flock_base f (l_whence l) of
        None \<Rightarrow> Inl EINVAL
      | Some base \<Rightarrow>
          let start = off_t (off_t base + l_start l) in
          if start < 0 then Inl EINVAL
          else
            let (start, fin) =
                  (if l_len l > 0 then (start, off_t (start + l_len l - 1))
                   else if l_len l < 0 then (off_t (start + l_len l), off_t (start - 1))
                   else (start, OFFSET_MAX))
            in if l_len l < 0 \<and> start < 0 then Inl EINVAL
               else if fin < start then Inl EOVERFLOW
               else
                 let fl = fl\<lparr>fl_end := fin, fl_start := start, fl_owner := t_files cur,
                             fl_pid := t_tgid cur, fl_file := Some (f_id f), fl_flags := FL_POSIX,
                             fl_lmops := None\<rparr>;
                     (fl, error) = assign_type fl (l_type l)
                 in case error of Some e \<Rightarrow> Inl e | None \<Rightarrow> Inr fl)"

definition flock64_to_posix_lock :: "task \<Rightarrow> filp \<Rightarrow> file_lock \<Rightarrow> flock \<Rightarrow> errno + file_lock" where
  "flock64_to_posix_lock cur f fl l =
     (case flock_base f (l_whence l) of
        None \<Rightarrow> Inl EINVAL
      | Some base \<Rightarrow>
          let start = loff_t (base + l_start l) in
          if start < 0 then Inl EINVAL
          else
            let (start, fin) =
                  (if l_len l > 0 then (start, loff_t (start + l_len l - 1))
                   else if l_len l < 0 then (loff_t (start + l_len l), loff_t (start - 1))
                   else (start, OFFSET_MAX))
            in if l_len l < 0 \<and> start < 0 then Inl EINVAL
               else if fin < start then Inl EOVERFLOW
               else
                 let fl = fl\<lparr>fl_end := fin, fl_start := start, fl_owner := t_files cur,
                             fl_pid := t_tgid cur, fl_file := Some (f_id f), fl_flags := FL_POSIX,
                             fl_lmops := None\<rparr>
                 in if l_type l = uint F_RDLCK \<or> l_type l = uint F_WRLCK \<or> l_type l = uint F_UNLCK
                    then Inr (fl\<lparr>fl_type := word_of_int (l_type l)\<rparr>)
                    else Inl EINVAL)"

definition posix_lock_to_flock :: "flock \<Rightarrow> file_lock \<Rightarrow> errno + flock" where
  "posix_lock_to_flock l fl =
     (if fl_start fl > OFFT_OFFSET_MAX then Inl EOVERFLOW
      else if fl_end fl \<noteq> OFFSET_MAX \<and> fl_end fl > OFFT_OFFSET_MAX then Inl EOVERFLOW
      else Inr (l\<lparr>l_pid := fl_pid fl, l_start := off_t (fl_start fl),
                  l_len := (if fl_end fl = OFFSET_MAX then 0 else off_t (fl_end fl - fl_start fl + 1)),
                  l_whence := 0, l_type := uint (fl_type fl)\<rparr>))"

definition posix_lock_to_flock64 :: "flock \<Rightarrow> file_lock \<Rightarrow> flock" where
  "posix_lock_to_flock64 l fl =
     l\<lparr>l_pid := fl_pid fl, l_start := fl_start fl,
       l_len := (if fl_end fl = OFFSET_MAX then 0 else loff_t (fl_end fl - fl_start fl + 1)),
       l_whence := 0, l_type := uint (fl_type fl)\<rparr>"

section \<open>BSD locks\<close>

definition flock_translate_cmd :: "u32 \<Rightarrow> errno + u8" where
  "flock_translate_cmd cmd =
     (if cmd AND LOCK_MAND \<noteq> 0 then Inr (ucast (cmd AND (LOCK_MAND OR LOCK_RW)))
      else if cmd = LOCK_SH then Inr F_RDLCK
      else if cmd = LOCK_EX then Inr F_WRLCK
      else if cmd = LOCK_UN then Inr F_UNLCK
      else Inl EINVAL)"

definition flock_make_lock ::
  "lock_world \<Rightarrow> task \<Rightarrow> filp \<Rightarrow> u32 \<Rightarrow> nat option \<Rightarrow> errno + (lock_world \<times> nat)" where
  "flock_make_lock w cur f cmd alloc =
     (case flock_translate_cmd cmd of
        Inl e \<Rightarrow> Inl e
      | Inr type \<Rightarrow>
          case alloc of
            None \<Rightarrow> Inl ENOMEM
          | Some fl \<Rightarrow>
              Inr (lk_upd w fl (\<lambda>x. x\<lparr>fl_file := Some (f_id f), fl_pid := t_tgid cur,
                     fl_flags := FL_FLOCK, fl_type := type, fl_end := OFFSET_MAX\<rparr>), fl))"

definition flock_locks_conflict :: "file_lock \<Rightarrow> file_lock \<Rightarrow> bool" where
  "flock_locks_conflict caller_fl sys_fl =
     (if \<not> IS_FLOCK sys_fl \<or> fl_file caller_fl = fl_file sys_fl then False
      else if fl_type caller_fl AND ucast LOCK_MAND \<noteq> 0 \<or> fl_type sys_fl AND ucast LOCK_MAND \<noteq> 0 then False
      else locks_conflict caller_fl sys_fl)"

text \<open>The first loop of \<open>flock_lock_file\<close>: the position of the lock this file already holds.\<close>

fun flock_find_own :: "(nat \<Rightarrow> file_lock) \<Rightarrow> nat \<Rightarrow> nat \<Rightarrow> nat list \<Rightarrow> nat option" where
  "flock_find_own h fid before [] = None"
| "flock_find_own h fid before (fl # rest) =
     (if IS_POSIX (h fl) then None
      else if IS_LEASE (h fl) then flock_find_own h fid (Suc before) rest
      else if Some fid \<noteq> fl_file (h fl) then flock_find_own h fid (Suc before) rest
      else Some before)"

text \<open>The second loop: the conflicting lock, if any, and the position it stops at.\<close>

fun flock_find_conflict ::
  "(nat \<Rightarrow> file_lock) \<Rightarrow> file_lock \<Rightarrow> nat \<Rightarrow> nat list \<Rightarrow> nat option \<times> nat" where
  "flock_find_conflict h r before [] = (None, before)"
| "flock_find_conflict h r before (fl # rest) =
     (if IS_POSIX (h fl) then (None, before)
      else if IS_LEASE (h fl) then flock_find_conflict h r (Suc before) rest
      else if \<not> flock_locks_conflict r (h fl) then flock_find_conflict h r (Suc before) rest
      else (Some fl, before))"

definition flock_insert ::
  "lock_world \<Rightarrow> u32 \<Rightarrow> nat \<Rightarrow> nat \<Rightarrow> nat option \<Rightarrow> lock_world \<times> errno option \<times> nat option" where
  "flock_insert w cur ino request new_fl =
     (let r = lk_heap w request in
      case flock_find_conflict (lk_heap w) r 0 (i_flock w ino) of
        (Some fl, _) \<Rightarrow>
          if \<not> has_flag r FL_SLEEP then (w, Some EAGAIN, new_fl)
          else (locks_insert_block w fl request, Some FILE_LOCK_DEFERRED, new_fl)
      | (None, before) \<Rightarrow>
          if has_flag r FL_ACCESS then (w, None, new_fl)
          else case new_fl of
            None \<Rightarrow> (w, None, None)
          | Some n \<Rightarrow>
              (locks_insert_lock (lk_upd w n (\<lambda>x. locks_copy_lock x r)) cur ino before n, None, None))"

text \<open>\<open>resched\<close> is what other tasks do during \<open>cond_resched\<close>, which gives up the kernel lock.\<close>

definition flock_lock_file ::
  "(lock_world \<Rightarrow> lock_world) \<Rightarrow> lock_world \<Rightarrow> u32 \<Rightarrow> filp \<Rightarrow> nat \<Rightarrow> nat option
   \<Rightarrow> lock_world \<times> errno option" where
  "flock_lock_file resched w cur f request alloc =
     (let ino = f_inode f; r = lk_heap w request in
      if has_flag r FL_ACCESS
      then let (w, error, new_fl) = flock_insert w cur ino request None in (free_unused w new_fl, error)
      else if fl_type r \<noteq> F_UNLCK \<and> alloc = None then (w, Some ENOMEM)
      else
        let new_fl = (if fl_type r \<noteq> F_UNLCK then alloc else None) in
        case flock_find_own (lk_heap w) (f_id f) 0 (i_flock w ino) of
          Some before \<Rightarrow>
            if fl_type r = fl_type (lk_heap w (i_flock w ino ! before)) then (free_unused w new_fl, None)
            else let w = locks_delete_lock w ino before in
              if fl_type r = F_UNLCK then (w, None)
              else let (w, error, new_fl) = flock_insert (resched w) cur ino request new_fl
                   in (free_unused w new_fl, error)
        | None \<Rightarrow>
            if fl_type r = F_UNLCK then (w, if has_flag r FL_EXISTS then Some ENOENT else None)
            else let (w, error, new_fl) = flock_insert w cur ino request new_fl
                 in (free_unused w new_fl, error))"

section \<open>Calls that sleep\<close>

type_synonym sleep = "lock_world \<Rightarrow> lock_world \<times> errno option"

text \<open>The loop all sleeping calls share: \<open>try i\<close> is the \<open>i\<close>-th attempt.\<close>

fun lock_wait ::
  "(nat \<Rightarrow> lock_world \<Rightarrow> lock_world \<times> errno option) \<Rightarrow> nat \<Rightarrow> nat \<Rightarrow> lock_world \<Rightarrow> sleep list
   \<Rightarrow> (lock_world \<times> errno option) option" where
  "lock_wait attempt fl i w evs =
     (let (w, error) = attempt i w in
      if error \<noteq> Some FILE_LOCK_DEFERRED then Some (w, error)
      else case evs of
        [] \<Rightarrow> None
      | ev # evs \<Rightarrow>
          let (w, error) = ev w in
          if error = None then lock_wait attempt fl (Suc i) w evs
          else Some (locks_delete_block_u w fl, error))"

definition posix_lock_file_wait ::
  "lock_world \<Rightarrow> u32 \<Rightarrow> filp \<Rightarrow> nat \<Rightarrow> (nat \<Rightarrow> nat option \<times> nat option) \<Rightarrow> sleep list
   \<Rightarrow> (lock_world \<times> errno option) option" where
  "posix_lock_file_wait w cur f fl allocs evs =
     lock_wait (\<lambda>i w. let (w, error, _) = posix_lock_file w cur (f_inode f) fl (fst (allocs i)) (snd (allocs i))
                      in (w, error)) fl 0 w evs"

definition flock_lock_file_wait ::
  "(lock_world \<Rightarrow> lock_world) \<Rightarrow> lock_world \<Rightarrow> u32 \<Rightarrow> filp \<Rightarrow> nat \<Rightarrow> (nat \<Rightarrow> nat option) \<Rightarrow> sleep list
   \<Rightarrow> (lock_world \<times> errno option) option" where
  "flock_lock_file_wait resched w cur f fl allocs evs =
     lock_wait (\<lambda>i w. flock_lock_file resched w cur f fl (allocs i)) fl 0 w evs"

text \<open>\<open>hook\<close> is the file system's own \<open>lock\<close> method, if it has one.\<close>

type_synonym lock_hook = "(nat \<Rightarrow> lock_world \<Rightarrow> lock_world \<times> errno option) option"

definition vfs_lock_file ::
  "lock_hook \<Rightarrow> lock_world \<Rightarrow> u32 \<Rightarrow> filp \<Rightarrow> nat \<Rightarrow> nat option \<times> nat option \<Rightarrow> lock_world \<times> errno option" where
  "vfs_lock_file hook w cur f fl allocs =
     (case hook of
        Some lock \<Rightarrow> lock fl w
      | None \<Rightarrow> let (w, error, _) = posix_lock_file w cur (f_inode f) fl (fst allocs) (snd allocs)
                in (w, error))"

definition vfs_test_lock :: "(file_lock \<Rightarrow> file_lock \<times> errno option) option \<Rightarrow> lock_world \<Rightarrow> filp
   \<Rightarrow> file_lock \<Rightarrow> file_lock \<times> errno option" where
  "vfs_test_lock hook w f fl =
     (case hook of Some lock \<Rightarrow> lock fl | None \<Rightarrow> (posix_test_lock w (f_inode f) fl, None))"

definition do_lock_file_wait ::
  "lock_hook \<Rightarrow> errno option \<Rightarrow> lock_world \<Rightarrow> u32 \<Rightarrow> filp \<Rightarrow> nat \<Rightarrow> (nat \<Rightarrow> nat option \<times> nat option)
   \<Rightarrow> sleep list \<Rightarrow> (lock_world \<times> errno option) option" where
  "do_lock_file_wait hook security w cur f fl allocs evs =
     (case security of
        Some e \<Rightarrow> Some (w, Some e)
      | None \<Rightarrow> lock_wait (\<lambda>i w. vfs_lock_file hook w cur f fl (allocs i)) fl 0 w evs)"


section \<open>System calls\<close>

definition sys_flock ::
  "lock_hook \<Rightarrow> (u8 \<Rightarrow> errno option) \<Rightarrow> (lock_world \<Rightarrow> lock_world) \<Rightarrow> lock_world \<Rightarrow> task \<Rightarrow> filp option \<Rightarrow> u32
   \<Rightarrow> nat option \<Rightarrow> (nat \<Rightarrow> nat option) \<Rightarrow> sleep list \<Rightarrow> (lock_world \<times> errno option) option" where
  "sys_flock hook security resched w cur fd cmd alloc allocs evs =
     (case fd of
        None \<Rightarrow> Some (w, Some EBADF)
      | Some f \<Rightarrow>
          let can_sleep = (cmd AND LOCK_NB = 0); cmd = cmd AND NOT LOCK_NB; unlock = (cmd = LOCK_UN) in
          if \<not> unlock \<and> cmd AND LOCK_MAND = 0 \<and> f_mode f AND (FMODE_READ OR FMODE_WRITE) = 0
          then Some (w, Some EBADF)
          else case flock_make_lock w cur f cmd alloc of
            Inl e \<Rightarrow> Some (w, Some e)
          | Inr (w, lock) \<Rightarrow>
              let w = (if can_sleep then lk_upd w lock (\<lambda>x. x\<lparr>fl_flags := fl_flags x OR FL_SLEEP\<rparr>) else w) in
              map_option (\<lambda>(w, error). (locks_free_lock w lock, error))
                (case security (fl_type (lk_heap w lock)) of
                   Some e \<Rightarrow> Some (w, Some e)
                 | None \<Rightarrow>
                     (case hook of
                        Some op \<Rightarrow> Some (op lock w)
                      | None \<Rightarrow> flock_lock_file_wait resched w (t_tgid cur) f lock allocs evs)))"

text \<open>\<open>conv\<close> and \<open>report\<close> are the conversions of the 32-bit or the 64-bit variant; \<open>None\<close> for the
  user structure is a fault of \<open>copy_from_user\<close>, \<open>copied\<close> is false when \<open>copy_to_user\<close> faults.\<close>

definition getlk_common ::
  "(task \<Rightarrow> filp \<Rightarrow> file_lock \<Rightarrow> flock \<Rightarrow> errno + file_lock) \<Rightarrow> (flock \<Rightarrow> file_lock \<Rightarrow> errno + flock)
   \<Rightarrow> (file_lock \<Rightarrow> file_lock \<times> errno option) option \<Rightarrow> lock_world \<Rightarrow> task \<Rightarrow> filp \<Rightarrow> flock option \<Rightarrow> bool
   \<Rightarrow> errno + flock" where
  "getlk_common conv report hook w cur f user copied =
     (case user of
        None \<Rightarrow> Inl EFAULT
      | Some l \<Rightarrow>
          if l_type l \<noteq> uint F_RDLCK \<and> l_type l \<noteq> uint F_WRLCK then Inl EINVAL
          else case conv cur f locks_init_lock l of
            Inl e \<Rightarrow> Inl e
          | Inr file_lock \<Rightarrow>
              (case vfs_test_lock hook w f file_lock of
                 (file_lock, Some e) \<Rightarrow> Inl e
               | (file_lock, None) \<Rightarrow>
                   let l = l\<lparr>l_type := uint (fl_type file_lock)\<rparr> in
                   (case (if fl_type file_lock \<noteq> F_UNLCK then report l file_lock else Inr l) of
                      Inl e \<Rightarrow> Inl e
                    | Inr l \<Rightarrow> if copied then Inr l else Inl EFAULT)))"

definition fcntl_getlk ::
  "(file_lock \<Rightarrow> file_lock \<times> errno option) option \<Rightarrow> lock_world \<Rightarrow> task \<Rightarrow> filp \<Rightarrow> flock option \<Rightarrow> bool
   \<Rightarrow> errno + flock" where
  "fcntl_getlk = getlk_common flock_to_posix_lock posix_lock_to_flock"

definition fcntl_getlk64 ::
  "(file_lock \<Rightarrow> file_lock \<times> errno option) option \<Rightarrow> lock_world \<Rightarrow> task \<Rightarrow> filp \<Rightarrow> flock option \<Rightarrow> bool
   \<Rightarrow> errno + flock" where
  "fcntl_getlk64 = getlk_common flock64_to_posix_lock (\<lambda>l fl. Inr (posix_lock_to_flock64 l fl))"

text \<open>One pass from the label \<open>again\<close>: convert, check the open mode, apply and wait.\<close>

definition setlk_round ::
  "(task \<Rightarrow> filp \<Rightarrow> file_lock \<Rightarrow> flock \<Rightarrow> errno + file_lock) \<Rightarrow> bool \<Rightarrow> lock_hook \<Rightarrow> (u8 \<Rightarrow> errno option)
   \<Rightarrow> lock_world \<Rightarrow> task \<Rightarrow> filp \<Rightarrow> flock \<Rightarrow> nat \<Rightarrow> (nat \<Rightarrow> nat option \<times> nat option) \<Rightarrow> sleep list
   \<Rightarrow> (lock_world \<times> errno option) option" where
  "setlk_round conv wait hook security w cur f l file_lock allocs evs =
     (case conv cur f (lk_heap w file_lock) l of
        Inl e \<Rightarrow> Some (w, Some e)
      | Inr fl \<Rightarrow>
          let fl = (if wait then fl\<lparr>fl_flags := fl_flags fl OR FL_SLEEP\<rparr> else fl);
              w = lk_upd w file_lock (\<lambda>_. fl) in
          if l_type l = uint F_RDLCK \<and> f_mode f AND FMODE_READ = 0 then Some (w, Some EBADF)
          else if l_type l = uint F_WRLCK \<and> f_mode f AND FMODE_WRITE = 0 then Some (w, Some EBADF)
          else if l_type l \<noteq> uint F_RDLCK \<and> l_type l \<noteq> uint F_WRLCK \<and> l_type l \<noteq> uint F_UNLCK
          then Some (w, Some EINVAL)
          else do_lock_file_wait hook (security (fl_type fl)) w (t_tgid cur) f file_lock allocs evs)"

text \<open>\<open>reopened\<close>: the descriptor no longer refers to this file when the lock was granted, so the
  lock just taken is given up again with a second pass.\<close>

definition setlk_common ::
  "(task \<Rightarrow> filp \<Rightarrow> file_lock \<Rightarrow> flock \<Rightarrow> errno + file_lock) \<Rightarrow> bool \<Rightarrow> lock_hook \<Rightarrow> (u8 \<Rightarrow> errno option)
   \<Rightarrow> bool \<Rightarrow> lock_world \<Rightarrow> task \<Rightarrow> filp \<Rightarrow> flock option \<Rightarrow> nat option \<Rightarrow> bool
   \<Rightarrow> (nat \<Rightarrow> nat option \<times> nat option) \<Rightarrow> (nat \<Rightarrow> nat option \<times> nat option) \<Rightarrow> sleep list \<Rightarrow> sleep list
   \<Rightarrow> (lock_world \<times> errno option) option" where
  "setlk_common conv wait hook security mand_mapped w cur f user alloc reopened allocs allocs2 evs evs2 =
     (case alloc of
        None \<Rightarrow> Some (w, Some ENOLCK)
      | Some file_lock \<Rightarrow>
          map_option (\<lambda>(w, error). (locks_free_lock w file_lock, error))
            (case user of
               None \<Rightarrow> Some (w, Some EFAULT)
             | Some l \<Rightarrow>
                 if mand_mapped then Some (w, Some EAGAIN)
                 else case setlk_round conv wait hook security w cur f l file_lock allocs evs of
                   None \<Rightarrow> None
                 | Some (w, error) \<Rightarrow>
                     if error = None \<and> reopened \<and> l_type l \<noteq> uint F_UNLCK
                     then setlk_round conv wait hook security w cur f (l\<lparr>l_type := uint F_UNLCK\<rparr>)
                            file_lock allocs2 evs2
                     else Some (w, error)))"

definition fcntl_setlk ::
  "lock_hook \<Rightarrow> (u8 \<Rightarrow> errno option) \<Rightarrow> bool \<Rightarrow> lock_world \<Rightarrow> task \<Rightarrow> filp \<Rightarrow> int \<Rightarrow> flock option \<Rightarrow> nat option
   \<Rightarrow> bool \<Rightarrow> (nat \<Rightarrow> nat option \<times> nat option) \<Rightarrow> (nat \<Rightarrow> nat option \<times> nat option) \<Rightarrow> sleep list \<Rightarrow> sleep list
   \<Rightarrow> (lock_world \<times> errno option) option" where
  "fcntl_setlk hook security mand_mapped w cur f cmd =
     setlk_common flock_to_posix_lock (cmd = F_SETLKW) hook security mand_mapped w cur f"

definition fcntl_setlk64 ::
  "lock_hook \<Rightarrow> (u8 \<Rightarrow> errno option) \<Rightarrow> bool \<Rightarrow> lock_world \<Rightarrow> task \<Rightarrow> filp \<Rightarrow> int \<Rightarrow> flock option \<Rightarrow> nat option
   \<Rightarrow> bool \<Rightarrow> (nat \<Rightarrow> nat option \<times> nat option) \<Rightarrow> (nat \<Rightarrow> nat option \<times> nat option) \<Rightarrow> sleep list \<Rightarrow> sleep list
   \<Rightarrow> (lock_world \<times> errno option) option" where
  "fcntl_setlk64 hook security mand_mapped w cur f cmd =
     setlk_common flock64_to_posix_lock (cmd = F_SETLKW64) hook security mand_mapped w cur f"

section \<open>Closing a file\<close>

definition close_request :: "u32 \<Rightarrow> filp \<Rightarrow> nat \<Rightarrow> file_lock" where
  "close_request tgid f owner =
     locks_init_lock\<lparr>fl_type := F_UNLCK, fl_flags := FL_POSIX OR FL_CLOSE, fl_start := 0,
       fl_end := OFFSET_MAX, fl_owner := owner, fl_pid := tgid, fl_file := Some (f_id f), fl_lmops := None\<rparr>"

text \<open>\<open>lock\<close> is the address of the structure on the stack.\<close>

definition locks_remove_posix ::
  "lock_hook \<Rightarrow> lock_world \<Rightarrow> u32 \<Rightarrow> filp \<Rightarrow> nat \<Rightarrow> nat \<Rightarrow> nat option \<times> nat option \<Rightarrow> lock_world" where
  "locks_remove_posix hook w tgid f owner lock allocs =
     (if i_flock w (f_inode f) = [] then w
      else fst (vfs_lock_file hook (lk_upd w lock (\<lambda>_. close_request tgid f owner)) tgid f lock allocs))"

definition posix_unblock_lock :: "lock_world \<Rightarrow> nat \<Rightarrow> lock_world \<times> errno option" where
  "posix_unblock_lock w waiter =
     (if fl_next (lk_heap w waiter) \<noteq> None then (locks_delete_block_u w waiter, None)
      else (w, Some ENOENT))"

definition vfs_cancel_lock :: "lock_hook \<Rightarrow> lock_world \<Rightarrow> nat \<Rightarrow> lock_world \<times> errno option" where
  "vfs_cancel_lock hook w fl = (case hook of Some lock \<Rightarrow> lock fl w | None \<Rightarrow> (w, None))"

section \<open>Mandatory locks and share modes\<close>

fun locks_mandatory_locked :: "(nat \<Rightarrow> file_lock) \<Rightarrow> nat \<Rightarrow> nat list \<Rightarrow> errno option" where
  "locks_mandatory_locked h owner [] = None"
| "locks_mandatory_locked h owner (fl # rest) =
     (if \<not> IS_POSIX (h fl) then locks_mandatory_locked h owner rest
      else if fl_owner (h fl) \<noteq> owner then Some EAGAIN
      else locks_mandatory_locked h owner rest)"

text \<open>\<open>size_t\<close> is unsigned and 32 bits wide, so \<open>offset + count - 1\<close> is computed as \<open>loff_t\<close>.  Each
  sleep also says whether the inode is still marked for mandatory locking afterwards.\<close>

definition mandatory_request :: "task \<Rightarrow> filp option \<Rightarrow> bool \<Rightarrow> int \<Rightarrow> u32 \<Rightarrow> file_lock" where
  "mandatory_request cur f write offset count =
     locks_init_lock\<lparr>fl_owner := t_files cur, fl_pid := t_tgid cur, fl_file := map_option f_id f,
       fl_flags := (case f of
           Some f \<Rightarrow> if \<not> f_nonblock f then FL_POSIX OR FL_ACCESS OR FL_SLEEP else FL_POSIX OR FL_ACCESS
         | None \<Rightarrow> FL_POSIX OR FL_ACCESS),
       fl_type := (if write then F_WRLCK else F_RDLCK),
       fl_start := offset, fl_end := loff_t (offset + uint count - 1)\<rparr>"

fun mandatory_loop ::
  "lock_world \<Rightarrow> u32 \<Rightarrow> nat \<Rightarrow> nat \<Rightarrow> (lock_world \<Rightarrow> lock_world \<times> errno option \<times> bool) list
   \<Rightarrow> (lock_world \<times> errno option) option" where
  "mandatory_loop w tgid ino fl evs =
     (let (w, error, _) = posix_lock_file_u w tgid ino fl None None in
      if error \<noteq> Some FILE_LOCK_DEFERRED then Some (w, error)
      else case evs of
        [] \<Rightarrow> None
      | ev # evs \<Rightarrow>
          let (w, error, mand) = ev w in
          if error = None \<and> mand then mandatory_loop w tgid ino fl evs
          else Some (locks_delete_block_u w fl, error))"

definition locks_mandatory_area ::
  "lock_world \<Rightarrow> task \<Rightarrow> bool \<Rightarrow> nat \<Rightarrow> filp option \<Rightarrow> int \<Rightarrow> u32 \<Rightarrow> nat
   \<Rightarrow> (lock_world \<Rightarrow> lock_world \<times> errno option \<times> bool) list \<Rightarrow> (lock_world \<times> errno option) option" where
  "locks_mandatory_area w cur write ino f offset count fl evs =
     mandatory_loop (lk_upd w fl (\<lambda>_. mandatory_request cur f write offset count)) (t_tgid cur) ino fl evs"

fun lock_may_read :: "(nat \<Rightarrow> file_lock) \<Rightarrow> int \<Rightarrow> u32 \<Rightarrow> nat list \<Rightarrow> bool" where
  "lock_may_read h start len [] = True"
| "lock_may_read h start len (a # rest) =
     (let fl = h a in
      if IS_POSIX fl then
        if fl_type fl = F_RDLCK then lock_may_read h start len rest
        else if fl_end fl < start \<or> fl_start fl > loff_t (start + uint len) then lock_may_read h start len rest
        else False
      else if IS_FLOCK fl then
        if fl_type fl AND ucast LOCK_MAND = 0 then lock_may_read h start len rest
        else if fl_type fl AND ucast LOCK_READ \<noteq> 0 then lock_may_read h start len rest
        else False
      else lock_may_read h start len rest)"

fun lock_may_write :: "(nat \<Rightarrow> file_lock) \<Rightarrow> int \<Rightarrow> u32 \<Rightarrow> nat list \<Rightarrow> bool" where
  "lock_may_write h start len [] = True"
| "lock_may_write h start len (a # rest) =
     (let fl = h a in
      if IS_POSIX fl then
        if fl_end fl < start \<or> fl_start fl > loff_t (start + uint len) then lock_may_write h start len rest
        else False
      else if IS_FLOCK fl then
        if fl_type fl AND ucast LOCK_MAND = 0 then lock_may_write h start len rest
        else if fl_type fl AND ucast LOCK_WRITE \<noteq> 0 then lock_may_write h start len rest
        else False
      else lock_may_write h start len rest)"

section \<open>Lemmas\<close>

lemma loff_t_mod: "loff_t x = (x + 2 ^ 63) mod 2 ^ 64 - 2 ^ 63"
  by (simp add: loff_t_def int_word_sint)

lemma loff_t_id: "- (2 ^ 63) \<le> x \<Longrightarrow> x < 2 ^ 63 \<Longrightarrow> loff_t x = x"
  unfolding loff_t_mod by (subst mod_pos_pos_trivial) auto

lemma loff_t_over: "2 ^ 63 \<le> x \<Longrightarrow> x < 2 ^ 64 \<Longrightarrow> loff_t x = x - 2 ^ 64"
proof -
  assume "2 ^ 63 \<le> x" "x < 2 ^ 64"
  moreover have "(x + 2 ^ 63) mod 2 ^ 64 = (x - 2 ^ 63) mod (2 ^ 64)"
    by (simp add: mod_eq_dvd_iff)
  ultimately show ?thesis unfolding loff_t_mod by simp
qed

text \<open>The requested range computed without overflow.\<close>

definition exact_range :: "filp \<Rightarrow> flock \<Rightarrow> errno + (int \<times> int)" where
  "exact_range f l =
     (case flock_base f (l_whence l) of
        None \<Rightarrow> Inl EINVAL
      | Some base \<Rightarrow>
          let s = base + l_start l;
              lo = (if l_len l < 0 then s + l_len l else s);
              hi = (if l_len l > 0 then s + l_len l - 1 else if l_len l < 0 then s - 1 else OFFSET_MAX)
          in if s < 0 \<or> s > OFFSET_MAX \<or> lo < 0 then Inl EINVAL
             else if hi > OFFSET_MAX then Inl EOVERFLOW
             else if l_type l \<noteq> uint F_RDLCK \<and> l_type l \<noteq> uint F_WRLCK \<and> l_type l \<noteq> uint F_UNLCK
             then Inl EINVAL
             else Inr (lo, hi))"

definition flock_in_range :: "filp \<Rightarrow> flock \<Rightarrow> bool" where
  "flock_in_range f l \<longleftrightarrow> 0 \<le> f_pos f \<and> f_pos f \<le> OFFSET_MAX \<and> 0 \<le> i_size f \<and> i_size f \<le> OFFSET_MAX \<and>
     - OFFSET_MAX - 1 \<le> l_start l \<and> l_start l \<le> OFFSET_MAX \<and>
     - OFFSET_MAX - 1 \<le> l_len l \<and> l_len l \<le> OFFSET_MAX"

lemma flock64_exact:
  assumes "flock_in_range f l"
  shows "map_sum id (\<lambda>fl. (fl_start fl, fl_end fl)) (flock64_to_posix_lock cur f fl l) = exact_range f l"
proof (cases "flock_base f (l_whence l)")
  case None
  then show ?thesis by (simp add: flock64_to_posix_lock_def exact_range_def)
next
  case (Some base)
  have b: "0 \<le> base" "base \<le> OFFSET_MAX"
    using assms Some by (auto simp: flock_base_def flock_in_range_def OFFSET_MAX_def split: if_splits)
  define s where "s = base + l_start l"
  have R: "- (2 ^ 63) \<le> l_len l" "l_len l < 2 ^ 63" "- (2 ^ 63) \<le> s" "s < 2 ^ 64"
    using assms b by (auto simp: flock_in_range_def s_def OFFSET_MAX_def)
  consider "s < 0" | "s > OFFSET_MAX" | (ok) "0 \<le> s" "s \<le> OFFSET_MAX" by linarith
  then show ?thesis
  proof cases
    case ok
    then have st: "loff_t s = s" by (intro loff_t_id) (auto simp: OFFSET_MAX_def)
    consider (pos) "l_len l > 0" | (neg) "l_len l < 0" | (zero) "l_len l = 0" by linarith
    then show ?thesis
    proof cases
      case pos
      have "loff_t (s + l_len l - 1) < s \<longleftrightarrow> s + l_len l - 1 > OFFSET_MAX"
        "s + l_len l - 1 \<le> OFFSET_MAX \<longrightarrow> loff_t (s + l_len l - 1) = s + l_len l - 1"
        using loff_t_id[of "s + l_len l - 1"] loff_t_over[of "s + l_len l - 1"] ok R pos
        by (cases "s + l_len l - 1 \<le> OFFSET_MAX"; auto simp: OFFSET_MAX_def)+
      then show ?thesis
        using pos ok st Some by (auto simp: flock64_to_posix_lock_def exact_range_def s_def[symmetric] Let_def)
    next
      case neg
      have "loff_t (s + l_len l) = s + l_len l" "loff_t (s - 1) = s - 1"
        using ok R neg by (auto intro!: loff_t_id simp: OFFSET_MAX_def)
      then show ?thesis
        using neg ok st Some by (auto simp: flock64_to_posix_lock_def exact_range_def s_def[symmetric] Let_def)
    next
      case zero
      then show ?thesis
        using ok st Some by (auto simp: flock64_to_posix_lock_def exact_range_def s_def[symmetric] Let_def)
    qed
  qed (use R Some loff_t_id[of s] loff_t_over[of s] in
      \<open>auto simp: flock64_to_posix_lock_def exact_range_def s_def[symmetric] Let_def OFFSET_MAX_def\<close>)
qed

lemma flock64_request_ok:
  assumes "flock_in_range f l" "flock64_to_posix_lock cur f fl l = Inr fl'"
  shows "request_ok fl' \<and> fl_owner fl' = t_files cur \<and> uint (fl_type fl') = l_type l"
proof -
  have "exact_range f l = Inr (fl_start fl', fl_end fl')"
    using flock64_exact[OF assms(1), of cur fl] assms(2) by simp
  then have "0 \<le> fl_start fl' \<and> fl_start fl' \<le> fl_end fl' \<and> fl_end fl' \<le> OFFSET_MAX"
    by (auto simp: exact_range_def Let_def split: option.splits if_splits)
  moreover have "IS_POSIX fl' \<and> local_lock fl' \<and> fl_owner fl' = t_files cur \<and>
      fl_type fl' = word_of_int (l_type l) \<and>
      (l_type l = uint F_RDLCK \<or> l_type l = uint F_WRLCK \<or> l_type l = uint F_UNLCK)"
    using assms(2) unfolding flock64_to_posix_lock_def Let_def
    by (auto simp: IS_POSIX_def local_lock_def FL_POSIX_def split: option.splits if_splits)
  ultimately show ?thesis by (auto simp: request_ok_def)
qed


text \<open>Unlocking up to the largest offset never meets a lock that reaches further.\<close>

lemma unlock_all_scan:
  assumes l: "i_flock w ino = A @ B @ C" and d: "distinct (i_flock w ino)"
    and B: "owner_list (lk_heap w) own B" and C: "\<forall>a\<in>set C. fl_owner (lk_heap w a) \<noteq> own"
    and r: "request_ok (lk_heap w req)" "fl_owner (lk_heap w req) = own" "req \<notin> set (i_flock w ino)"
    and un: "fl_type (lk_heap w req) = F_UNLCK" "fl_end (lk_heap w req) = OFFSET_MAX"
    and s: "posix_scan_owner w ino req False None (length A) (B @ C) = (w1, req1, added, left, right, before)"
  shows "right = None"
proof (rule ccontr)
  assume "right \<noteq> None"
  have "scan_state w ino own A C (length A) req False [] [] [] B"
    using l d B C r by (auto simp: scan_state_def scan_inv_def owner_list_def request_ok_def)
  then have "scan_result w ino own A C req False ([] @ [] @ B) ([] @ [] @ [] @ B)
      (w1, req1, added, left, right, before)"
    using scan_ihD[OF posix_scan_owner_spec, of w ino own A C "length A" req False "[]" "[]" "[]" B None] s
    by (simp add: ahead_def)
  then obtain P0 lf rq R where st: "scan_state w1 ino own A C before req1 added P0 lf rq R"
    and k: "scan_keeps w ino req B B w1 req1 (P0 @ lf @ R) (P0 @ lf @ rq @ R)"
    and ex: "scan_exit (lk_heap w1) req1 left right lf rq R"
    unfolding scan_result_def prod.case append_Nil by blast
  have v: "\<forall>a\<in>set (P0 @ lf @ R). valid_lock (lk_heap w1 a)"
    using st unfolding scan_state_def scan_inv_def by auto
  have "\<exists>x\<in>set R. fl_end (lk_heap w1 req1) < fl_end (lk_heap w1 x)"
    using ex \<open>right \<noteq> None\<close> by (auto simp: scan_exit_def)
  then obtain x where x: "x \<in> set R" "fl_end (lk_heap w1 req1) < fl_end (lk_heap w1 x)" by blast
  have "(OFFSET_MAX, F_UNLCK) \<in> overridden (lk_heap w) (lk_heap w req) B"
    using r un by (simp add: overridden_def request_ok_def)
  then have "(OFFSET_MAX, F_UNLCK) \<in> overridden (lk_heap w1) (lk_heap w1 req1) (P0 @ lf @ R)"
    using k by (simp add: scan_keeps_def)
  moreover have "(OFFSET_MAX, F_UNLCK) \<notin> lock_bytes (lk_heap w1) (P0 @ lf @ R)"
  proof
    assume "(OFFSET_MAX, F_UNLCK) \<in> lock_bytes (lk_heap w1) (P0 @ lf @ R)"
    then obtain a where "a \<in> set (P0 @ lf @ R)" "F_UNLCK = fl_type (lk_heap w1 a)"
      unfolding lock_bytes_def by blast
    then show False using v valid_not_unlck by metis
  qed
  ultimately have "OFFSET_MAX \<le> fl_end (lk_heap w1 req1)"
    by (auto simp: overridden_def split: if_splits)
  moreover have "fl_end (lk_heap w1 x) \<le> OFFSET_MAX" using v x(1) by (auto simp: valid_lock_def)
  ultimately show False using x(2) by linarith
qed

lemma unlock_all_succeeds:
  assumes wf: "inode_wf (lk_heap w) (i_flock w ino)" and r: "request_ok (lk_heap w request)"
    "request \<notin> set (i_flock w ino)"
    and un: "fl_type (lk_heap w request) = F_UNLCK" "fl_start (lk_heap w request) = 0"
      "fl_end (lk_heap w request) = OFFSET_MAX"
      "\<not> has_flag (lk_heap w request) FL_ACCESS" "\<not> has_flag (lk_heap w request) FL_EXISTS"
    and res: "posix_lock_file w cur ino request n1 n2 = (w', err, conf)"
  shows "err = None \<and> posix_lock_file w cur ino request None None = (w', err, conf)"
proof -
  let ?r = "lk_heap w request" and ?own = "fl_owner (lk_heap w request)"
  define A where "A = takeWhile (\<lambda>a. \<not> IS_POSIX (lk_heap w a) \<or> fl_owner (lk_heap w a) \<noteq> ?own) (i_flock w ino)"
  obtain B C where l: "i_flock w ino = A @ B @ C" and B: "owner_list (lk_heap w) ?own B"
    and A: "\<forall>a\<in>set A. \<not> IS_POSIX (lk_heap w a) \<or> fl_owner (lk_heap w a) \<noteq> ?own"
    and C: "\<forall>a\<in>set C. valid_lock (lk_heap w a) \<and> fl_owner (lk_heap w a) \<noteq> ?own" "B = [] \<Longrightarrow> C = []"
    using inode_wf_split[OF wf, of ?own] unfolding A_def by blast
  have own: "posix_same_owner ?r f \<longleftrightarrow> fl_owner f = ?own" for f
    using r by (auto simp: request_ok_def same_owner_local)
  obtain w1 req1 added left right before where s: "posix_scan_owner w ino request False None (length A) (B @ C) =
      (w1, req1, added, left, right, before)" by (metis prod_cases6)
  have right: "right = None"
    using unlock_all_scan[OF l _ B _ r(1) refl r(2) un(1,3) s] wf C by (simp add: inode_wf_def)
  have na: "lk_heap w1 req1 = ?r" if "\<not> added"
    using scan_not_added[of w ino request False None "length A" "B @ C" w1 req1 left right before] s that by simp
  obtain v e f1 f2 where ap: "posix_apply cur ino None None (w1, req1, added, left, right, before) = (v, e, f1, f2)"
    by (metis prod_cases4)
  have "e = None" using ap right na un by (auto simp: posix_apply_core Let_def split: if_splits)
  moreover have bf: "length (takeWhile (\<lambda>a. \<not> IS_POSIX (lk_heap w a) \<or>
      \<not> posix_same_owner ?r (lk_heap w a)) (i_flock w ino)) = length A" unfolding own A_def by simp
  have dr: "drop (length A) (i_flock w ino) = B @ C" using l by simp
  have "posix_lock_file w cur ino request m1 m2 = (free_unused (free_unused v f1) f2, e, None)" for m1 m2
    unfolding posix_lock_file_def posix_lock_file_u_def Let_def bf dr s using un ap by simp
  ultimately show ?thesis using res by simp
qed


lemma range_map_bounds:
  assumes "inode_wf h l" "b < 0 \<or> OFFSET_MAX < b"
  shows "range_map h l x b = F_UNLCK"
proof (rule ccontr)
  assume "range_map h l x b \<noteq> F_UNLCK"
  then obtain a where "a \<in> set l" "covers (h a) x b" using range_map_Some by blast
  then show False using inode_wf_valid[OF assms(1)] assms(2) by (fastforce simp: covers_def valid_lock_def)
qed

section \<open>Properties\<close>

text \<open>
  C25: closing a file releases every POSIX lock the closing owner holds on it, on all bytes, and
  touches nobody else's, even when no memory can be allocated: \<open>locks_remove_posix\<close> needs no new
  lock structure and cannot fail.
\<close>

theorem close_releases_locks:
  assumes "inode_wf (lk_heap w) (i_flock w (f_inode f))" "lock \<notin> set (i_flock w (f_inode f))"
  shows "inode_wf (lk_heap (locks_remove_posix None w tgid f owner lock allocs))
           (i_flock (locks_remove_posix None w tgid f owner lock allocs) (f_inode f)) \<and>
    range_map (lk_heap (locks_remove_posix None w tgid f owner lock allocs))
        (i_flock (locks_remove_posix None w tgid f owner lock allocs) (f_inode f)) =
      (\<lambda>x b. if x = owner then F_UNLCK else range_map (lk_heap w) (i_flock w (f_inode f)) x b)"
proof (cases "i_flock w (f_inode f) = []")
  case True
  then show ?thesis using assms by (auto simp: locks_remove_posix_def range_map_def fun_eq_iff)
next
  case False
  let ?ino = "f_inode f" and ?r = "close_request tgid f owner"
  define w0 where "w0 = lk_upd w lock (\<lambda>_. ?r)"
  have w0: "lk_heap w0 lock = ?r" "i_flock w0 = i_flock w" by (simp_all add: w0_def)
  have s: "same_lock (lk_heap w a) (lk_heap w0 a)" if "a \<in> set (i_flock w ?ino)" for a
    using that assms(2) by (auto simp: same_lock_def w0_def)
  have wf: "inode_wf (lk_heap w0) (i_flock w0 ?ino)" unfolding w0(2) by (rule inode_wf_same[OF s assms(1)])
  have m: "range_map (lk_heap w0) (i_flock w0 ?ino) x b = range_map (lk_heap w) (i_flock w ?ino) x b" for x b
    unfolding w0(2) by (rule range_map_same[OF s])
  have rf: "request_ok ?r" "fl_type ?r = F_UNLCK" "fl_start ?r = 0" "fl_end ?r = OFFSET_MAX" "fl_owner ?r = owner"
      "\<not> has_flag ?r FL_ACCESS" "\<not> has_flag ?r FL_EXISTS"
    by (simp_all add: close_request_def request_ok_def IS_POSIX_def local_lock_def has_flag_def
        FL_POSIX_def FL_CLOSE_def FL_ACCESS_def FL_EXISTS_def OFFSET_MAX_def)
  obtain w' err conf where p: "posix_lock_file w0 tgid ?ino lock (fst allocs) (snd allocs) = (w', err, conf)"
    by (metis prod_cases3)
  have ok: "err = None \<and> posix_lock_file w0 tgid ?ino lock None None = (w', err, conf)"
    using assms(2) rf by (intro unlock_all_succeeds[OF wf _ _ _ _ _ _ _ p]) (simp_all add: w0)
  have fr: "fresh_for w0 ?ino lock None None" using assms(2) by (simp add: fresh_for_def w0)
  have w': "locks_remove_posix None w tgid f owner lock allocs = w'"
    using False p by (simp add: locks_remove_posix_def vfs_lock_file_def w0_def)
  have M: "inode_wf (lk_heap w') (i_flock w' ?ino)"
    "range_map (lk_heap w') (i_flock w' ?ino) x b =
      (if x = owner \<and> 0 \<le> b \<and> b \<le> OFFSET_MAX then F_UNLCK else range_map (lk_heap w) (i_flock w ?ino) x b)" for x b
    using posix_lock_file_map[OF wf _ fr conjunct2[OF ok]] ok rf by (simp_all add: w0(1) m)
  have "range_map (lk_heap w') (i_flock w' ?ino) x b =
      (if x = owner then F_UNLCK else range_map (lk_heap w) (i_flock w ?ino) x b)" for x b
    unfolding M(2) using range_map_bounds[OF assms(1), of b x] by auto
  then show ?thesis unfolding w' using M(1) by (simp add: fun_eq_iff)
qed

definition demo_file :: filp where
  "demo_file = \<lparr>f_id = 5, f_inode = 2, f_pos = 0, f_mode = 3, f_nonblock = False, i_size = 100\<rparr>"

theorem close_releases_locks_witness:
  "inode_wf (lk_heap (demo_locks locks_init_lock)) (i_flock (demo_locks locks_init_lock) 2) \<and>
   range_map (lk_heap (demo_locks locks_init_lock)) (i_flock (demo_locks locks_init_lock) 2) 3 7 = F_RDLCK \<and>
   (let w' = locks_remove_posix None (demo_locks locks_init_lock) 9 demo_file 3 20 (None, None)
    in range_map (lk_heap w') (i_flock w' 2) 3 7 = F_UNLCK \<and>
       range_map (lk_heap w') (i_flock w' 2) 4 7 = F_RDLCK)"
proof -
  have 1: "inode_wf (lk_heap (demo_locks locks_init_lock)) (i_flock (demo_locks locks_init_lock) (f_inode demo_file))"
    "20 \<notin> set (i_flock (demo_locks locks_init_lock) (f_inode demo_file))" by code_simp+
  have 2: "range_map (lk_heap (demo_locks locks_init_lock)) (i_flock (demo_locks locks_init_lock) 2) 3 7 = F_RDLCK"
    "range_map (lk_heap (demo_locks locks_init_lock)) (i_flock (demo_locks locks_init_lock) 2) 4 7 = F_RDLCK"
    by code_simp+
  have 3: "f_inode demo_file = 2" by (simp add: demo_file_def)
  show ?thesis
    using close_releases_locks[OF 1, of 9 3 "(None, None)"] 1 2 unfolding 3 by (simp add: Let_def)
qed

text \<open>
  C31: the conversion of a 64-bit \<open>struct flock\<close> is exact.  For every file position, file size,
  offset and length that fit \<open>loff_t\<close>, the wrapping arithmetic of \<open>flock64_to_posix_lock\<close> yields
  the range that unbounded arithmetic yields, or the error for a range that leaves 0 to
  \<open>OFFSET_MAX\<close>; a range it accepts makes a request the lock code can take.
\<close>

theorem flock64_to_posix_lock_exact:
  assumes "flock_in_range f l"
  shows "map_sum id (\<lambda>fl. (fl_start fl, fl_end fl)) (flock64_to_posix_lock cur f fl l) = exact_range f l \<and>
    (\<forall>fl'. flock64_to_posix_lock cur f fl l = Inr fl' \<longrightarrow>
       request_ok fl' \<and> fl_owner fl' = t_files cur \<and> uint (fl_type fl') = l_type l)"
  using flock64_exact[OF assms] flock64_request_ok[OF assms] by blast

definition demo_flock :: "int \<Rightarrow> int \<Rightarrow> int \<Rightarrow> int \<Rightarrow> flock" where
  "demo_flock type whence start len =
     \<lparr>l_type = type, l_whence = whence, l_start = start, l_len = len, l_pid = 0\<rparr>"

text \<open>The ten bytes before the end of a file of 100 bytes, and a range that wraps.\<close>

theorem flock64_to_posix_lock_exact_witness:
  "map_sum id (\<lambda>fl. (fl_start fl, fl_end fl))
     (flock64_to_posix_lock \<lparr>t_files = 1, t_tgid = 2\<rparr> demo_file locks_init_lock (demo_flock 1 2 0 (- 10))) = Inr (90, 99) \<and>
   map_sum id (\<lambda>fl. (fl_start fl, fl_end fl))
     (flock64_to_posix_lock \<lparr>t_files = 1, t_tgid = 2\<rparr> demo_file locks_init_lock (demo_flock 1 2 0 OFFSET_MAX)) = Inl EOVERFLOW"
proof -
  have 1: "flock_in_range demo_file (demo_flock 1 2 0 (- 10))" "flock_in_range demo_file (demo_flock 1 2 0 OFFSET_MAX)"
    by code_simp+
  have 2: "exact_range demo_file (demo_flock 1 2 0 (- 10)) = Inr (90, 99)"
    "exact_range demo_file (demo_flock 1 2 0 OFFSET_MAX) = Inl EOVERFLOW" by code_simp+
  show ?thesis
    using trans[OF conjunct1[OF flock64_to_posix_lock_exact[OF 1(1)]] 2(1)]
      trans[OF conjunct1[OF flock64_to_posix_lock_exact[OF 1(2)]] 2(2)] by (rule conjI)
qed

section \<open>Defects\<close>

text \<open>The 32-bit conversion truncates the file position to \<open>off_t\<close>: a lock of one byte at the current
  position of a file positioned at 4 GiB becomes a lock of byte 0.\<close>

lemma flock_to_posix_lock_truncates:
  "map_sum id (\<lambda>fl. (fl_start fl, fl_end fl))
     (flock_to_posix_lock \<lparr>t_files = 1, t_tgid = 2\<rparr> (demo_file\<lparr>f_pos := 2 ^ 32\<rparr>) locks_init_lock
        (demo_flock 1 1 0 1)) = Inr (0, 0) \<and>
   exact_range (demo_file\<lparr>f_pos := 2 ^ 32\<rparr>) (demo_flock 1 1 0 1) = Inr (2 ^ 32, 2 ^ 32)"
  by code_simp

text \<open>\<open>lock_may_read\<close> and \<open>lock_may_write\<close> refuse ten bytes from offset 0 because of a write lock that
  starts right behind them, at offset 10.\<close>

lemma lock_may_off_by_one:
  "let h = (\<lambda>_. demo_lock 3 F_WRLCK 10 19)
   in \<not> lock_may_read h 0 10 [1] \<and> \<not> lock_may_write h 0 10 [1] \<and>
      \<not> locks_overlap (h 1) (demo_lock 4 F_RDLCK 0 9)"
  by code_simp


end
