(* ===== verification/Leases.thy ===== *)
theory Leases
  imports Lock_Syscalls
begin

text \<open>
  File leases, after the lease half of \<open>fs/locks.c\<close>: taking, downgrading, timing out and
  breaking leases, and the removal of leases and BSD locks on the last close.  Leases stand in
  front of all other locks of an inode.  The signals sent to lease holders are events of the
  world; a break that sleeps takes a list of sleeps, each a change of the world together with the
  new time and what \<open>wait_event_interruptible_timeout\<close> returns.
\<close>

section \<open>Lease operations\<close>

definition lease_init :: "task \<Rightarrow> nat option \<Rightarrow> int \<Rightarrow> file_lock \<Rightarrow> errno + file_lock" where
  "lease_init cur fid type fl =
     (case assign_type fl type of
        (_, Some e) \<Rightarrow> Inl EINVAL
      | (fl, None) \<Rightarrow>
          Inr (fl\<lparr>fl_owner := t_files cur, fl_pid := t_tgid cur, fl_file := fid, fl_flags := FL_LEASE,
                  fl_start := 0, fl_end := OFFSET_MAX, fl_lmops := Some lease_manager_ops\<rparr>))"

definition lease_alloc ::
  "lock_world \<Rightarrow> task \<Rightarrow> nat option \<Rightarrow> int \<Rightarrow> nat option \<Rightarrow> lock_world \<times> (errno + nat)" where
  "lease_alloc w cur fid type alloc =
     (case alloc of
        None \<Rightarrow> (w, Inl ENOMEM)
      | Some fl \<Rightarrow>
          case lease_init cur fid type (lk_heap w fl) of
            Inl e \<Rightarrow> (locks_free_lock w fl, Inl e)
          | Inr x \<Rightarrow> (lk_upd w fl (\<lambda>_. x), Inr fl))"

definition lease_break_callback :: "lock_world \<Rightarrow> nat \<Rightarrow> lock_world" where
  "lease_break_callback w fl = w\<lparr>lk_events := lk_events w @ [Break_callback fl]\<rparr>"

definition lease_mylease_callback :: "file_lock \<Rightarrow> file_lock \<Rightarrow> bool" where
  "lease_mylease_callback fl try_fl \<longleftrightarrow> fl_file fl = fl_file try_fl"

definition lease_modify :: "lock_world \<Rightarrow> nat \<Rightarrow> nat \<Rightarrow> int \<Rightarrow> lock_world \<times> errno option" where
  "lease_modify w ino before arg =
     (let fl = i_flock w ino ! before in
      case assign_type (lk_heap w fl) arg of
        (_, Some e) \<Rightarrow> (w, Some e)
      | (x, None) \<Rightarrow>
          let w = locks_wake_up_blocks (lk_upd w fl (\<lambda>_. x)) fl
          in (if arg = uint F_UNLCK then locks_delete_lock w ino before else w, None))"

definition time_before :: "u32 \<Rightarrow> u32 \<Rightarrow> bool" where
  "time_before a b \<longleftrightarrow> sint (a - b) < 0"

fun time_out_scan :: "lock_world \<Rightarrow> nat \<Rightarrow> u32 \<Rightarrow> nat \<Rightarrow> nat list \<Rightarrow> lock_world" where
  "time_out_scan w ino jiffies before [] = w"
| "time_out_scan w ino jiffies before (fl # rest) =
     (let f = lk_heap w fl in
      if IS_LEASE f \<and> fl_type f AND F_INPROGRESS \<noteq> 0 then
        if fl_break_time f = 0 \<or> time_before jiffies (fl_break_time f)
        then time_out_scan w ino jiffies (Suc before) rest
        else
          let (w, _) = lease_modify w ino before (uint (fl_type f AND NOT F_INPROGRESS));
              l = i_flock w ino
          in time_out_scan w ino jiffies
               (if before < length l \<and> l ! before = fl then Suc before else before) rest
      else w)"

definition time_out_leases :: "lock_world \<Rightarrow> nat \<Rightarrow> u32 \<Rightarrow> lock_world" where
  "time_out_leases w ino jiffies = time_out_scan w ino jiffies 0 (i_flock w ino)"

text \<open>The leases at the head of the list, which is where \<open>for (fl = flock; fl && IS_LEASE(fl); ...)\<close>
  stops.\<close>

definition leases_of :: "lock_world \<Rightarrow> nat \<Rightarrow> nat list" where
  "leases_of w ino = takeWhile (\<lambda>a. IS_LEASE (lk_heap w a)) (i_flock w ino)"

section \<open>Breaking a lease\<close>

definition break_mark :: "u8 \<Rightarrow> u32 \<Rightarrow> lock_world \<Rightarrow> nat \<Rightarrow> lock_world" where
  "break_mark future break_time w fl =
     (if fl_type (lk_heap w fl) \<noteq> future
      then lease_break_callback
             (lk_upd w fl (\<lambda>x. x\<lparr>fl_type := future, fl_break_time := break_time\<rparr>)) fl
      else w)"

type_synonym lease_sleep = "lock_world \<Rightarrow> lock_world \<times> u32 \<times> (errno + nat)"

fun break_wait ::
  "lock_world \<Rightarrow> nat \<Rightarrow> nat \<Rightarrow> nat \<Rightarrow> lease_sleep list \<Rightarrow> (lock_world \<times> errno option) option" where
  "break_wait w ino flock new_fl [] = None"
| "break_wait w ino flock new_fl (ev # evs) =
     (let w = locks_insert_block w flock new_fl; (w, jiffies, result) = ev w;
          w = locks_delete_block_u w new_fl
      in case result of
           Inl e \<Rightarrow> Some (w, Some e)
         | Inr left \<Rightarrow>
             let w = (if left = 0 then time_out_leases w ino jiffies else w) in
             case List.find (\<lambda>a. fl_type (lk_heap w a) AND F_INPROGRESS \<noteq> 0) (leases_of w ino) of
               Some flock \<Rightarrow> break_wait w ino flock new_fl evs
             | None \<Rightarrow> Some (w, None))"

definition free_new :: "errno + nat \<Rightarrow> lock_world \<Rightarrow> lock_world" where
  "free_new new_fl w = (case new_fl of Inl _ \<Rightarrow> w | Inr a \<Rightarrow> locks_free_lock w a)"

definition lease_future :: "bool \<Rightarrow> u8 \<Rightarrow> u8 option" where
  "lease_future want_write type =
     (if want_write then Some (F_UNLCK OR F_INPROGRESS)
      else if type AND F_INPROGRESS \<noteq> 0 then Some type
      else if type AND F_WRLCK \<noteq> 0 then Some (F_RDLCK OR F_INPROGRESS)
      else None)"

definition break_deadline :: "u32 \<Rightarrow> int \<Rightarrow> u32 \<Rightarrow> u32" where
  "break_deadline jiffies lease_break_time HZ =
     (if lease_break_time > 0
      then let t = jiffies + word_of_int lease_break_time * HZ in if t = 0 then t + 1 else t
      else 0)"

definition O_ACCMODE :: u32 where "O_ACCMODE = 3"
definition O_NONBLOCK :: u32 where "O_NONBLOCK = 2048"

definition break_lease_u ::
  "lock_world \<Rightarrow> task \<Rightarrow> u32 \<Rightarrow> int \<Rightarrow> u32 \<Rightarrow> nat \<Rightarrow> u32 \<Rightarrow> nat option \<Rightarrow> lease_sleep list
   \<Rightarrow> (lock_world \<times> errno option) option" where
  "break_lease_u w cur jiffies lease_break_time HZ ino mode alloc evs =
     (let want_write = (mode AND O_ACCMODE \<noteq> 0);
          nonblock = (mode AND O_NONBLOCK \<noteq> 0);
          (w, new_fl) = lease_alloc w cur None (if want_write then uint F_WRLCK else uint F_RDLCK) alloc;
          w = time_out_leases w ino jiffies;
          done = (\<lambda>w error. Some (free_new new_fl w, error))
      in case leases_of w ino of
           [] \<Rightarrow> done w None
         | flock # _ \<Rightarrow>
             let have = (\<exists>a\<in>set (leases_of w ino). fl_owner (lk_heap w a) = t_files cur) in
             case lease_future want_write (fl_type (lk_heap w flock)) of
               None \<Rightarrow> done w None
             | Some future \<Rightarrow>
                 (case (new_fl, have \<or> nonblock) of
                    (Inl e, False) \<Rightarrow> done w (Some e)
                  | (_, stop) \<Rightarrow>
                      let w = fold (\<lambda>a w. break_mark future (break_deadline jiffies lease_break_time HZ) w a)
                                (leases_of w ino) w
                      in if stop then done w (Some EAGAIN)
                         else case new_fl of
                           Inl e \<Rightarrow> done w (Some e)
                         | Inr n \<Rightarrow>
                             map_option (\<lambda>(w, error). (free_new new_fl w, error)) (break_wait w ino flock n evs)))"

definition lease_get_mtime :: "lock_world \<Rightarrow> nat \<Rightarrow> 'a \<Rightarrow> 'a \<Rightarrow> 'a" where
  "lease_get_mtime w ino now mtime =
     (case leases_of w ino of
        flock # _ \<Rightarrow> if fl_type (lk_heap w flock) AND F_WRLCK \<noteq> 0 then now else mtime
      | [] \<Rightarrow> mtime)"

definition fcntl_getlease :: "lock_world \<Rightarrow> u32 \<Rightarrow> filp \<Rightarrow> lock_world \<times> u8" where
  "fcntl_getlease w jiffies f =
     (let w = time_out_leases w (f_inode f) jiffies in
      (w, case List.find (\<lambda>a. fl_file (lk_heap w a) = Some (f_id f)) (leases_of w (f_inode f)) of
            Some fl \<Rightarrow> fl_type (lk_heap w fl) AND NOT F_INPROGRESS
          | None \<Rightarrow> F_UNLCK))"

section \<open>Setting a lease\<close>

text \<open>What \<open>generic_setlease\<close> reads of the inode, the dentry and the credentials.\<close>

record lease_env =
  le_owner :: bool
  le_isreg :: bool
  le_security :: "errno option"
  le_writecount :: int
  le_dcount :: int
  le_icount :: int
  le_enable :: bool

fun lease_scan ::
  "(nat \<Rightarrow> file_lock) \<Rightarrow> file_lock \<Rightarrow> nat \<Rightarrow> nat list \<Rightarrow> nat option \<times> nat \<times> nat \<Rightarrow> nat option \<times> nat \<times> nat \<times> nat" where
  "lease_scan h lease before [] (my, rd_count, wr_count) = (my, rd_count, wr_count, before)"
| "lease_scan h lease before (fl # rest) (my, rd_count, wr_count) =
     (if \<not> IS_LEASE (h fl) then (my, rd_count, wr_count, before)
      else lease_scan h lease (Suc before) rest
        (if lease_mylease_callback (h fl) lease then (Some before, rd_count, wr_count)
         else if fl_type (h fl) = F_INPROGRESS OR F_UNLCK then (my, rd_count, Suc wr_count)
         else (my, Suc rd_count, wr_count)))"

text \<open>The result is the world, the error and the lock \<open>*flp\<close> points to afterwards.\<close>

definition generic_setlease ::
  "lock_world \<Rightarrow> lease_env \<Rightarrow> u32 \<Rightarrow> u32 \<Rightarrow> filp \<Rightarrow> int \<Rightarrow> nat \<Rightarrow> nat option
   \<Rightarrow> lock_world \<times> errno option \<times> nat" where
  "generic_setlease w env tgid jiffies f arg lease alloc =
     (let ino = f_inode f in
      if \<not> le_owner env then (w, Some EACCES, lease)
      else if \<not> le_isreg env then (w, Some EINVAL, lease)
      else case le_security env of
        Some e \<Rightarrow> (w, Some e, lease)
      | None \<Rightarrow>
          let w = time_out_leases w ino jiffies;
              w = (if fl_lmops (lk_heap w lease) \<noteq> Some lease_manager_ops then w\<lparr>lk_bug := True\<rparr> else w)
          in if arg \<noteq> uint F_UNLCK \<and> alloc = None then (w, Some ENOMEM, lease)
             else
               let new_fl = (if arg \<noteq> uint F_UNLCK then alloc else None);
                   out = (\<lambda>w error flp. (free_unused w new_fl, error, flp))
               in if arg = uint F_RDLCK \<and> le_writecount env > 0 then out w (Some EAGAIN) lease
                  else if arg = uint F_WRLCK \<and> (le_dcount env > 1 \<or> le_icount env > 1)
                  then out w (Some EAGAIN) lease
                  else
                    case lease_scan (lk_heap w) (lk_heap w lease) 0 (i_flock w ino) (None, 0, 0) of
                      (my_before, rd_count, wr_count, before) \<Rightarrow>
                        if arg = uint F_RDLCK \<and> wr_count > 0 \<or>
                           arg = uint F_WRLCK \<and> rd_count + wr_count > 0
                        then out w (Some EAGAIN) lease
                        else case my_before of
                          Some b \<Rightarrow>
                            let flp = i_flock w ino ! b; (w, error) = lease_modify w ino b arg
                            in out w error flp
                        | None \<Rightarrow>
                            if arg = uint F_UNLCK then out w None lease
                            else if \<not> le_enable env then out w (Some EINVAL) lease
                            else case new_fl of
                              None \<Rightarrow> (w, None, lease)
                            | Some n \<Rightarrow>
                                (locks_insert_lock
                                   (lk_upd w n (\<lambda>x. locks_copy_lock x (lk_heap w lease))) tgid ino before n,
                                 None, n))"

definition vfs_setlease ::
  "(lock_world \<Rightarrow> int \<Rightarrow> nat \<Rightarrow> lock_world \<times> errno option \<times> nat) option
   \<Rightarrow> lock_world \<Rightarrow> lease_env \<Rightarrow> u32 \<Rightarrow> u32 \<Rightarrow> filp \<Rightarrow> int \<Rightarrow> nat \<Rightarrow> nat option
   \<Rightarrow> lock_world \<times> errno option \<times> nat" where
  "vfs_setlease hook w env tgid jiffies f arg lease alloc =
     (case hook of
        Some setlease \<Rightarrow> setlease w arg lease
      | None \<Rightarrow> generic_setlease w env tgid jiffies f arg lease alloc)"

text \<open>\<open>fasync\<close> and \<open>setown\<close> are what \<open>fasync_helper\<close> and \<open>__f_setown\<close> return.\<close>

definition fcntl_setlease ::
  "(lock_world \<Rightarrow> int \<Rightarrow> nat \<Rightarrow> lock_world \<times> errno option \<times> nat) option
   \<Rightarrow> lock_world \<Rightarrow> lease_env \<Rightarrow> task \<Rightarrow> u32 \<Rightarrow> filp \<Rightarrow> int \<Rightarrow> nat \<Rightarrow> nat option \<Rightarrow> errno option \<Rightarrow> errno option
   \<Rightarrow> lock_world \<times> errno option" where
  "fcntl_setlease hook w env cur jiffies f arg fl alloc fasync setown =
     (case lease_init cur (Some (f_id f)) arg locks_init_lock of
        Inl e \<Rightarrow> (w, Some e)
      | Inr x \<Rightarrow>
          case vfs_setlease hook (lk_upd w fl (\<lambda>_. x)) env (t_tgid cur) jiffies f arg fl alloc of
            (w, error, flp) \<Rightarrow>
              if error \<noteq> None \<or> arg = uint F_UNLCK then (w, error)
              else case fasync of
                Some e \<Rightarrow>
                  (time_out_leases
                     (lk_upd w flp (\<lambda>x. x\<lparr>fl_type := F_UNLCK OR F_INPROGRESS, fl_break_time := jiffies - 10\<rparr>))
                     (f_inode f) jiffies, Some e)
              | None \<Rightarrow> (lk_upd w flp (\<lambda>x. x\<lparr>fl_fasync := True\<rparr>), setown))"

section \<open>The last close\<close>

fun remove_flock_scan :: "lock_world \<Rightarrow> nat \<Rightarrow> nat \<Rightarrow> nat \<Rightarrow> nat list \<Rightarrow> lock_world" where
  "remove_flock_scan w ino fid before [] = w"
| "remove_flock_scan w ino fid before (fl # rest) =
     (let f = lk_heap w fl in
      if fl_file f = Some fid then
        if IS_FLOCK f then remove_flock_scan (locks_delete_lock w ino before) ino fid before rest
        else if IS_LEASE f then remove_flock_scan (fst (lease_modify w ino before (uint F_UNLCK))) ino fid before rest
        else remove_flock_scan (w\<lparr>lk_bug := True\<rparr>) ino fid (Suc before) rest
      else remove_flock_scan w ino fid (Suc before) rest)"

definition locks_remove_flock :: "(lock_world \<Rightarrow> lock_world) option \<Rightarrow> lock_world \<Rightarrow> filp \<Rightarrow> lock_world" where
  "locks_remove_flock hook w f =
     (if i_flock w (f_inode f) = [] then w
      else let w = (case hook of Some flock \<Rightarrow> flock w | None \<Rightarrow> w)
           in remove_flock_scan w (f_inode f) (f_id f) 0 (i_flock w (f_inode f)))"

section \<open>What the lease operations keep\<close>

text \<open>The kind of a lock and the file it belongs to never change.\<close>

definition kind :: "file_lock \<Rightarrow> u8 \<times> nat option" where
  "kind fl = (fl_flags fl, fl_file fl)"

lemma kind_delete_block [simp]: "kind (lk_heap (locks_delete_block_u w x) a) = kind (lk_heap w a)"
  by (simp add: locks_delete_block_u_def kind_def Let_def)

lemma kind_wake_up [simp]: "kind (lk_heap (locks_wake_up_blocks w b) a) = kind (lk_heap w a)"
  by (induction w b rule: locks_wake_up_blocks.induct)
    (subst locks_wake_up_blocks.simps, auto split: list.split)

lemma kind_free [simp]: "kind (lk_heap (locks_free_lock w x) a) = kind (lk_heap w a)"
  by (simp add: locks_free_lock_def locks_release_private_def kind_def Let_def)

lemma kind_free_unused [simp]: "kind (lk_heap (free_unused w x) a) = kind (lk_heap w a)"
  by (simp add: free_unused_def split: option.split)

lemma kind_delete_lock [simp]: "kind (lk_heap (locks_delete_lock w ino pos) a) = kind (lk_heap w a)"
  by (simp add: locks_delete_lock_def Let_def) (simp add: kind_def)

lemma kind_lease_modify [simp]: "kind (lk_heap (fst (lease_modify w ino pos arg)) a) = kind (lk_heap w a)"
  by (auto simp: lease_modify_def assign_type_def Let_def) (auto simp: kind_def)

lemma kind_time_out [simp]: "kind (lk_heap (time_out_leases w ino j) a) = kind (lk_heap w a)"
proof -
  have "kind (lk_heap (time_out_scan w ino j before l) a) = kind (lk_heap w a)" for before l
  proof (induction l arbitrary: w before)
    case (Cons fl l)
    then show ?case by (simp add: Let_def case_prod_unfold)
  qed simp
  then show ?thesis by (simp add: time_out_leases_def)
qed

lemma kind_IS: "kind f = kind g \<Longrightarrow> IS_LEASE f = IS_LEASE g \<and> IS_FLOCK f = IS_FLOCK g \<and> fl_file f = fl_file g"
  by (simp add: kind_def IS_LEASE_def IS_FLOCK_def)

lemma lease_modify_list:
  assumes "i_flock w ino = A @ fl # B" "pos = length A"
  shows "i_flock (fst (lease_modify w ino pos arg)) = i_flock w \<or>
         i_flock (fst (lease_modify w ino pos arg)) = (i_flock w)(ino := A @ B)"
    and "arg = uint F_UNLCK \<Longrightarrow> i_flock (fst (lease_modify w ino pos arg)) = (i_flock w)(ino := A @ B)"
proof -
  have d: "i_flock (locks_delete_lock (locks_wake_up_blocks (lk_upd w fl g) fl) ino pos) = (i_flock w)(ino := A @ B)" for g
    using locks_delete_lock_list[of "locks_wake_up_blocks (lk_upd w fl g) fl" ino A fl B pos] assms by simp
  show "i_flock (fst (lease_modify w ino pos arg)) = i_flock w \<or>
         i_flock (fst (lease_modify w ino pos arg)) = (i_flock w)(ino := A @ B)"
    using d assms by (auto simp: lease_modify_def assign_type_def Let_def nth_append)
  show "arg = uint F_UNLCK \<Longrightarrow> i_flock (fst (lease_modify w ino pos arg)) = (i_flock w)(ino := A @ B)"
    using d assms by (auto simp: lease_modify_def assign_type_def Let_def nth_append)
qed

section \<open>Scanning the leases\<close>

lemma lease_scan_end:
  "lease_scan h lease before l acc = (my', r', w', before') \<Longrightarrow>
   before' = before + length (takeWhile (\<lambda>a. IS_LEASE (h a)) l)"
  by (induction h lease before l acc rule: lease_scan.induct) (auto split: if_splits)

lemma lease_scan_my:
  "lease_scan h lease before l (my, r, w) = (my', r', w', before') \<Longrightarrow>
   my' = my \<or> (\<exists>k. my' = Some k \<and> k < before')"
proof (induction l arbitrary: before my r w)
  case (Cons fl l)
  show ?case
  proof (cases "IS_LEASE (h fl)")
    case True
    have "before < before'" using lease_scan_end[OF Cons.prems] True by simp
    then show ?thesis using Cons.prems True
      by (auto split: if_splits dest!: Cons.IH)
  qed (use Cons.prems in simp)
qed simp

lemma lease_scan_counts:
  "lease_scan h lease before l (my, r, w) = (my', r', w', before') \<Longrightarrow>
   r + w \<le> r' + w' \<and>
   (r' + w' = r + w \<longrightarrow> (\<forall>a\<in>set (takeWhile (\<lambda>a. IS_LEASE (h a)) l). fl_file (h a) = fl_file lease))"
proof (induction l arbitrary: before my r w)
  case (Cons fl l)
  show ?case
  proof (cases "IS_LEASE (h fl)")
    case True
    then show ?thesis using Cons.prems
      by (auto simp: lease_mylease_callback_def split: if_splits dest!: Cons.IH)
  qed (use Cons.prems in simp)
qed simp


lemma time_out_subset:
  assumes "i_flock w ino = A @ l" "before = length A" "distinct (i_flock w ino)"
  shows "set (i_flock (time_out_scan w ino j before l) ino) \<subseteq> set (i_flock w ino) \<and>
         distinct (i_flock (time_out_scan w ino j before l) ino)"
  using assms
proof (induction l arbitrary: w A before)
  case (Cons fl l)
  let ?w' = "fst (lease_modify w ino before (uint (fl_type (lk_heap w fl) AND NOT F_INPROGRESS)))"
  consider (same) "i_flock ?w' = i_flock w" | (del) "i_flock ?w' = (i_flock w)(ino := A @ l)"
    using lease_modify_list(1)[OF Cons.prems(1,2)] by blast
  then have step: "set (i_flock (time_out_scan ?w' ino j
      (if before < length (i_flock ?w' ino) \<and> i_flock ?w' ino ! before = fl then Suc before else before) l) ino)
        \<subseteq> set (i_flock w ino) \<and>
      distinct (i_flock (time_out_scan ?w' ino j
      (if before < length (i_flock ?w' ino) \<and> i_flock ?w' ino ! before = fl then Suc before else before) l) ino)"
  proof cases
    case same
    then show ?thesis
      using Cons.IH[of ?w' "A @ [fl]" "Suc before"] Cons.prems by (auto simp: nth_append)
  next
    case del
    have "\<not> (before < length (A @ l) \<and> (A @ l) ! before = fl)"
      using Cons.prems by (auto simp: nth_append)
    then show ?thesis
      using Cons.IH[of ?w' A before] Cons.prems del by auto
  qed
  have skip: "set (i_flock (time_out_scan w ino j (Suc before) l) ino) \<subseteq> set (i_flock w ino) \<and>
      distinct (i_flock (time_out_scan w ino j (Suc before) l) ino)"
    using Cons.IH[of w "A @ [fl]" "Suc before"] Cons.prems by auto
  show ?case
    using step skip Cons.prems(3) by (simp add: Let_def case_prod_unfold)
qed simp

lemma leases_kind:
  "(\<And>a. kind (lk_heap w' a) = kind (lk_heap w a)) \<Longrightarrow> i_flock w' = i_flock w \<Longrightarrow> leases_of w' ino = leases_of w ino"
  unfolding leases_of_def by (auto intro!: takeWhile_cong dest: kind_IS)

lemma leases_after_insert:
  assumes l': "i_flock w' ino = leases_of w ino @ n # dropWhile (\<lambda>a. IS_LEASE (lk_heap w a)) (i_flock w ino)"
    and nin: "n \<notin> set (i_flock w ino)" and k: "\<And>a. a \<noteq> n \<Longrightarrow> kind (lk_heap w' a) = kind (lk_heap w a)"
  shows "set (leases_of w' ino) \<subseteq> insert n (set (leases_of w ino))"
proof -
  define R where "R = dropWhile (\<lambda>a. IS_LEASE (lk_heap w a)) (i_flock w ino)"
  have l: "i_flock w ino = leases_of w ino @ R" by (simp add: leases_of_def R_def)
  have L: "IS_LEASE (lk_heap w' a)" if "a \<in> set (leases_of w ino)" for a
  proof -
    have "a \<noteq> n" using that nin l by auto
    moreover have "IS_LEASE (lk_heap w a)" using that unfolding leases_of_def by (auto dest: set_takeWhileD)
    ultimately show ?thesis using kind_IS[OF k] by blast
  qed
  have R: "takeWhile (\<lambda>a. IS_LEASE (lk_heap w' a)) R = []"
  proof (cases R)
    case (Cons x R')
    then have "\<not> IS_LEASE (lk_heap w x)" using hd_dropWhile[of "\<lambda>a. IS_LEASE (lk_heap w a)"] unfolding R_def
      by (metis list.sel(1) list.distinct(1))
    moreover have "x \<noteq> n" using nin l Cons by auto
    ultimately show ?thesis using Cons kind_IS[OF k] by simp
  qed simp
  have "leases_of w' ino = leases_of w ino @ takeWhile (\<lambda>a. IS_LEASE (lk_heap w' a)) (n # R)"
    unfolding leases_of_def[of w'] l' R_def [symmetric] by (rule takeWhile_append2) (rule L)
  then show ?thesis using R by auto
qed

section \<open>Properties\<close>

text \<open>
  C28: a write lease is exclusive.  When \<open>generic_setlease\<close> grants an \<open>F_WRLCK\<close> lease, every lease
  on the inode afterwards belongs to the file the lease was requested for.
\<close>

theorem write_lease_exclusive:
  assumes res: "generic_setlease w env tgid jiffies f (uint F_WRLCK) lease alloc = (w', None, flp)"
    and d: "distinct (i_flock w (f_inode f))"
    and fr: "\<And>n. alloc = Some n \<Longrightarrow> n \<noteq> lease \<and> n \<notin> set (i_flock w (f_inode f))"
  shows "\<forall>a\<in>set (leases_of w' (f_inode f)). fl_file (lk_heap w' a) = fl_file (lk_heap w lease)"
proof -
  let ?ino = "f_inode f"
  define w0 where "w0 = time_out_leases w ?ino jiffies"
  define w1 where "w1 = (if fl_lmops (lk_heap w0 lease) \<noteq> Some lease_manager_ops then w0\<lparr>lk_bug := True\<rparr> else w0)"
  have k1: "kind (lk_heap w1 a) = kind (lk_heap w a)" for a by (simp add: w1_def w0_def)
  have sub: "set (i_flock w1 ?ino) \<subseteq> set (i_flock w ?ino)"
    using time_out_subset[of w ?ino "[]"] d by (simp add: w1_def w0_def time_out_leases_def)
  obtain my rd_c wr_c before where sc: "lease_scan (lk_heap w1) (lk_heap w1 lease) 0 (i_flock w1 ?ino) (None, 0, 0) =
      (my, rd_c, wr_c, before)" by (metis prod_cases4)
  obtain n where n: "alloc = Some n" "rd_c + wr_c = 0"
    and cases: "(my = None \<and> w' = locks_insert_lock (lk_upd w1 n (\<lambda>x. locks_copy_lock x (lk_heap w1 lease))) tgid ?ino before n) \<or>
      (\<exists>b. my = Some b \<and> snd (lease_modify w1 ?ino b (uint F_WRLCK)) = None \<and>
         w' = free_unused (fst (lease_modify w1 ?ino b (uint F_WRLCK))) (Some n))"
    using res sc unfolding generic_setlease_def Let_def w0_def[symmetric] w1_def[symmetric]
    by (auto simp: F_WRLCK_def F_UNLCK_def F_RDLCK_def case_prod_unfold split: if_splits option.splits)
  have mine: "\<forall>a\<in>set (leases_of w1 ?ino). fl_file (lk_heap w1 a) = fl_file (lk_heap w lease)"
    using lease_scan_counts[OF sc] n(2) kind_IS[OF k1[of lease]] by (simp add: leases_of_def)
  from cases show ?thesis
  proof (elim disjE conjE exE)
    fix b assume b: "my = Some b" "w' = free_unused (fst (lease_modify w1 ?ino b (uint F_WRLCK))) (Some n)"
    have k: "kind (lk_heap w' a) = kind (lk_heap w1 a)" for a by (simp add: b)
    have "i_flock w' = i_flock w1"
      unfolding b by (simp add: lease_modify_def assign_type_def Let_def F_WRLCK_def F_UNLCK_def)
    then show ?thesis using leases_kind[OF k] mine k kind_IS by metis
  next
    assume w': "w' = locks_insert_lock (lk_upd w1 n (\<lambda>x. locks_copy_lock x (lk_heap w1 lease))) tgid ?ino before n"
    define R where "R = dropWhile (\<lambda>a. IS_LEASE (lk_heap w1 a)) (i_flock w1 ?ino)"
    have l1: "i_flock w1 ?ino = leases_of w1 ?ino @ R" by (simp add: leases_of_def R_def)
    have "before = length (leases_of w1 ?ino)" using lease_scan_end[OF sc] by (simp add: leases_of_def)
    then have l': "i_flock w' ?ino = leases_of w1 ?ino @ n # R"
      unfolding w' using locks_insert_lock_list[of _ ?ino "leases_of w1 ?ino" R] l1 by simp
    have nin: "n \<notin> set (i_flock w1 ?ino)" using fr[OF n(1)] sub by auto
    have k: "kind (lk_heap w' a) = kind (lk_heap w1 a)" if "a \<noteq> n" for a
      unfolding w' using that by (simp add: locks_insert_lock_def Let_def)
    have fn: "fl_file (lk_heap w' n) = fl_file (lk_heap w lease)"
      using kind_IS[OF k1[of lease]] unfolding w'
      by (simp add: locks_insert_lock_def Let_def locks_copy_lock_def locks_copy_private_def split: option.split)
    have "set (leases_of w' ?ino) \<subseteq> insert n (set (leases_of w1 ?ino))"
      by (rule leases_after_insert [OF l' [unfolded R_def] nin k])
    moreover have "fl_file (lk_heap w' a) = fl_file (lk_heap w lease)" if "a \<in> set (leases_of w1 ?ino)" for a
    proof -
      have "a \<noteq> n" using that nin l1 by auto
      then show ?thesis using kind_IS[OF k] mine that by metis
    qed
    ultimately show ?thesis using fn by blast
  qed
qed


definition demo_env :: lease_env where
  "demo_env = \<lparr>le_owner = True, le_isreg = True, le_security = None, le_writecount = 0, le_dcount = 1,
     le_icount = 1, le_enable = True\<rparr>"

definition demo_lease :: file_lock where
  "demo_lease = locks_init_lock\<lparr>fl_flags := FL_LEASE, fl_type := F_WRLCK, fl_file := Some 5,
     fl_end := OFFSET_MAX, fl_lmops := Some lease_manager_ops\<rparr>"

theorem write_lease_exclusive_witness:
  "let (w', error, flp) = generic_setlease (demo_locks demo_lease) demo_env 7 1000 demo_file (uint F_WRLCK) 20 (Some 30)
   in error = None \<and> leases_of w' 2 = [30] \<and>
      (\<forall>a\<in>set (leases_of w' 2). fl_file (lk_heap w' a) = fl_file (lk_heap (demo_locks demo_lease) 20))"
proof -
  obtain w' error flp where p: "generic_setlease (demo_locks demo_lease) demo_env 7 1000 demo_file (uint F_WRLCK) 20
      (Some 30) = (w', error, flp)" by (metis prod_cases3)
  have "fst (snd (generic_setlease (demo_locks demo_lease) demo_env 7 1000 demo_file (uint F_WRLCK) 20 (Some 30))) = None"
    "leases_of (fst (generic_setlease (demo_locks demo_lease) demo_env 7 1000 demo_file (uint F_WRLCK) 20 (Some 30))) 2 = [30]"
    by code_simp+
  then have e: "error = None" "leases_of w' 2 = [30]" using p by simp_all
  have i: "f_inode demo_file = 2" by (simp add: demo_file_def)
  have "distinct (i_flock (demo_locks demo_lease) (f_inode demo_file))"
    "(30::nat) \<noteq> 20 \<and> 30 \<notin> set (i_flock (demo_locks demo_lease) (f_inode demo_file))" by code_simp+
  then have "\<forall>a\<in>set (leases_of w' (f_inode demo_file)).
      fl_file (lk_heap w' a) = fl_file (lk_heap (demo_locks demo_lease) 20)"
    using write_lease_exclusive[OF p[unfolded e(1)]] by simp
  then show ?thesis using e unfolding p i by simp
qed

text \<open>
  C37: the last close of a file removes exactly its BSD locks and leases from the inode's list and
  keeps every other lock, in order.
\<close>

theorem locks_remove_flock_exact:
  "i_flock (locks_remove_flock None w f) (f_inode f) =
     filter (\<lambda>a. \<not> (fl_file (lk_heap w a) = Some (f_id f) \<and> (IS_FLOCK (lk_heap w a) \<or> IS_LEASE (lk_heap w a))))
       (i_flock w (f_inode f))"
proof -
  have "i_flock (remove_flock_scan w ino fid before l) ino =
      A @ filter (\<lambda>a. \<not> (fl_file (lk_heap w a) = Some fid \<and> (IS_FLOCK (lk_heap w a) \<or> IS_LEASE (lk_heap w a)))) l"
    if "i_flock w ino = A @ l" "before = length A" for ino fid before A l
    using that
  proof (induction l arbitrary: w A before)
    case (Cons fl l)
    have cong: "filter (\<lambda>a. \<not> (fl_file (lk_heap v a) = Some fid \<and> (IS_FLOCK (lk_heap v a) \<or> IS_LEASE (lk_heap v a)))) l =
        filter (\<lambda>a. \<not> (fl_file (lk_heap w a) = Some fid \<and> (IS_FLOCK (lk_heap w a) \<or> IS_LEASE (lk_heap w a)))) l"
      if "\<And>a. kind (lk_heap v a) = kind (lk_heap w a)" for v
      by (rule filter_cong[OF refl]) (use kind_IS[OF that] in simp)
    let ?d = "locks_delete_lock w ino before" and ?m = "fst (lease_modify w ino before (uint F_UNLCK))"
    have "i_flock ?d ino = A @ l" "i_flock ?m ino = A @ l"
      using locks_delete_lock_list[OF Cons.prems] lease_modify_list(2)[OF Cons.prems refl] by simp_all
    then show ?case
      using Cons.IH[of ?d A before] Cons.IH[of ?m A before] Cons.IH[of "w\<lparr>lk_bug := True\<rparr>" "A @ [fl]" "Suc before"]
        Cons.IH[of w "A @ [fl]" "Suc before"] Cons.prems cong[of ?d] cong[of ?m]
      by (simp add: Let_def)
  qed simp
  from this[of "f_inode f" "[]" "i_flock w (f_inode f)" 0 "f_id f"] show ?thesis
    by (auto simp: locks_remove_flock_def)
qed

section \<open>A defect\<close>

text \<open>When \<open>fasync_helper\<close> fails, \<open>fcntl_setlease\<close> marks the new lease as expired at \<open>jiffies - 10\<close> and
  times leases out; at jiffy 10 that is the value 0, which means no deadline, and the lease stays.\<close>

lemma setlease_undo_fails:
  "let after = (\<lambda>jiffies. fcntl_setlease None (demo_locks demo_lease) demo_env \<lparr>t_files = 1, t_tgid = 7\<rparr> jiffies
                 demo_file (uint F_WRLCK) 20 (Some 30) (Some ENOMEM) None)
   in snd (after 11) = Some ENOMEM \<and> leases_of (fst (after 11)) 2 = [] \<and>
      snd (after 10) = Some ENOMEM \<and> leases_of (fst (after 10)) 2 = [30]"
  by code_simp


end
