(* ===== verification/Resource_Tree.thy ===== *)
theory Resource_Tree
  imports Kernel_Prelude "HOL-Library.Multiset"
begin

text \<open>
  The tree of I/O and memory resources (\<open>kernel/resource.c\<close>, \<open>include/linux/ioport.h\<close>): requesting
  and releasing a range, inserting a range above existing ones, expanding, adjusting and allocating.

  A resource is a node with the list of its children, so the pointers \<open>parent\<close>, \<open>sibling\<close> and
  \<open>child\<close> are the shape of the tree; \<open>r_id\<close> is the address of the structure, where identity
  matters.  \<open>resource_size_t\<close> is 32 bits and wraps.  A pointer to a child of a node is its position in
  the list of children.
\<close>

section \<open>Data\<close>

definition IORESOURCE_IO :: u32 where "IORESOURCE_IO = 0x00000100"
definition IORESOURCE_MEM :: u32 where "IORESOURCE_MEM = 0x00000200"
definition IORESOURCE_SIZEALIGN :: u32 where "IORESOURCE_SIZEALIGN = 0x00040000"
definition IORESOURCE_STARTALIGN :: u32 where "IORESOURCE_STARTALIGN = 0x00080000"
definition IORESOURCE_MUXED :: u32 where "IORESOURCE_MUXED = 0x00400000"
definition IORESOURCE_EXCLUSIVE :: u32 where "IORESOURCE_EXCLUSIVE = 0x08000000"
definition IORESOURCE_BUSY :: u32 where "IORESOURCE_BUSY = 0x80000000"

datatype resource =
  Res (r_id: nat) (r_start: u32) (r_end: u32) (r_name: string) (r_flags: u32) (r_child: "resource list")

definition set_child :: "resource \<Rightarrow> resource list \<Rightarrow> resource" where
  "set_child r cs = Res (r_id r) (r_start r) (r_end r) (r_name r) (r_flags r) cs"

definition set_range :: "resource \<Rightarrow> u32 \<Rightarrow> u32 \<Rightarrow> resource" where
  "set_range r s e = Res (r_id r) s e (r_name r) (r_flags r) (r_child r)"

definition resource_size :: "resource \<Rightarrow> u32" where
  "resource_size res = r_end res - r_start res + 1"

definition resource_alignment :: "resource \<Rightarrow> u32" where
  "resource_alignment res =
     (let f = r_flags res AND (IORESOURCE_SIZEALIGN OR IORESOURCE_STARTALIGN) in
      if f = IORESOURCE_SIZEALIGN then resource_size res
      else if f = IORESOURCE_STARTALIGN then r_start res else 0)"

section \<open>Requesting and releasing\<close>

text \<open>The pointer \<open>__request_resource\<close> returns: null, the root itself, or one of its children.\<close>

datatype req_result = Requested resource | Clash_root | Clash_child nat

fun request_scan :: "u32 \<Rightarrow> u32 \<Rightarrow> nat \<Rightarrow> resource list \<Rightarrow> nat + nat" where
  "request_scan start fin p [] = Inr p"
| "request_scan start fin p (tmp # rest) =
     (if r_start tmp > fin then Inr p
      else if r_end tmp < start then request_scan start fin (Suc p) rest
      else Inl p)"

definition request_resource_u :: "resource \<Rightarrow> resource \<Rightarrow> req_result" where
  "request_resource_u root new =
     (let start = r_start new; fin = r_end new in
      if fin < start then Clash_root
      else if start < r_start root then Clash_root
      else if fin > r_end root then Clash_root
      else case request_scan start fin 0 (r_child root) of
          Inr p \<Rightarrow> Requested (set_child root (take p (r_child root) @ new # drop p (r_child root)))
        | Inl p \<Rightarrow> Clash_child p)"

fun nodes :: "resource \<Rightarrow> resource list" where
  "nodes (Res i s e n f cs) = Res i s e n f cs # concat (map nodes cs)"

fun put_res :: "resource \<Rightarrow> resource \<Rightarrow> resource" where
  "put_res r (Res i s e n f cs) = (if i = r_id r then r else Res i s e n f (map (put_res r) cs))"

definition find_res :: "nat \<Rightarrow> resource \<Rightarrow> resource option" where
  "find_res i t = List.find (\<lambda>n. r_id n = i) (nodes t)"

definition parent_of :: "nat \<Rightarrow> resource \<Rightarrow> resource option" where
  "parent_of i t = List.find (\<lambda>n. i \<in> set (map r_id (r_child n))) (nodes t)"

definition request_resource_conflict :: "resource \<Rightarrow> resource \<Rightarrow> req_result" where
  "request_resource_conflict root new = request_resource_u root new"

definition request_resource :: "resource \<Rightarrow> resource \<Rightarrow> errno + resource" where
  "request_resource root new =
     (case request_resource_conflict root new of Requested t \<Rightarrow> Inr t | _ \<Rightarrow> Inl EBUSY)"

fun release_scan :: "nat \<Rightarrow> nat \<Rightarrow> resource list \<Rightarrow> nat option" where
  "release_scan old p [] = None"
| "release_scan old p (tmp # rest) = (if r_id tmp = old then Some p else release_scan old (Suc p) rest)"

text \<open>\<open>None\<close>: the resource has no parent, and the code follows a null pointer.\<close>

definition release_resource_u :: "resource \<Rightarrow> nat \<Rightarrow> (errno + resource) option" where
  "release_resource_u t old =
     (case parent_of old t of
        None \<Rightarrow> None
      | Some par \<Rightarrow>
          Some (case release_scan old 0 (r_child par) of
                  None \<Rightarrow> Inl EINVAL
                | Some p \<Rightarrow> Inr (put_res (set_child par (take p (r_child par) @ drop (Suc p) (r_child par))) t)))"

definition release_resource :: "resource \<Rightarrow> nat \<Rightarrow> (errno + resource) option" where
  "release_resource t old = release_resource_u t old"

text \<open>
  The node left behind and the structures taken off, each made a range of its size starting at zero.
\<close>

fun release_child_resources_u :: "resource \<Rightarrow> resource \<times> resource list" where
  "release_child_resources_u (Res i s e n f cs) =
     (Res i s e n f [],
      concat (map (\<lambda>tmp. case release_child_resources_u tmp of
                             (tmp, l) \<Rightarrow> l @ [set_range tmp 0 (resource_size tmp - 1)]) cs))"

definition release_child_resources :: "resource \<Rightarrow> resource \<times> resource list" where
  "release_child_resources r = release_child_resources_u r"

section \<open>Inserting\<close>

text \<open>
  The run of siblings from \<open>first\<close> on that overlap the new range: it becomes the list of children, or
  its first member that sticks out is the conflict.
\<close>

fun adopt_run :: "resource \<Rightarrow> resource list \<Rightarrow> resource + (resource list \<times> resource list)" where
  "adopt_run new [] = Inr ([], [])"
| "adopt_run new (nxt # rest) =
     (if r_start nxt < r_start new \<or> r_end nxt > r_end new then Inl nxt
      else case rest of
          [] \<Rightarrow> Inr ([nxt], [])
        | sibling # _ \<Rightarrow>
            if r_start sibling > r_end new then Inr ([nxt], rest)
            else case adopt_run new rest of
                Inl c \<Rightarrow> Inl c
              | Inr (run, behind) \<Rightarrow> Inr (nxt # run, behind))"

lemma request_scan_Inl:
  "request_scan s e p cs = Inl q \<Longrightarrow> p \<le> q \<and> q < p + length cs"
  by (induction s e p cs rule: request_scan.induct) (auto split: if_splits)

lemma request_resource_u_child:
  "request_resource_u root new = Clash_child p \<Longrightarrow> p < length (r_child root)"
  by (auto simp: request_resource_u_def Let_def split: if_splits sum.splits dest: request_scan_Inl)

lemma size_child: "c \<in> set (r_child r) \<Longrightarrow> size c < size r"
  by (cases r) (auto simp: less_Suc_eq_le intro: size_list_estimation')

lemma size_nth_child: "p < length (r_child r) \<Longrightarrow> size (r_child r ! p) < size r"
  by (rule size_child) (rule nth_mem)

datatype ins_result = Inserted resource | Insert_clash_root | Insert_clash resource

function insert_resource_u :: "resource \<Rightarrow> resource \<Rightarrow> ins_result" where
  "insert_resource_u parent new =
     (case request_resource_u parent new of
        Requested t \<Rightarrow> Inserted t
      | Clash_root \<Rightarrow> Insert_clash_root
      | Clash_child p \<Rightarrow>
          let first = r_child parent ! p in
          if (r_start first > r_start new \<or> r_end first < r_end new) \<or>
             (r_start first = r_start new \<and> r_end first = r_end new)
          then case adopt_run new (drop p (r_child parent)) of
              Inl c \<Rightarrow> Insert_clash c
            | Inr (run, behind) \<Rightarrow>
                Inserted (set_child parent (take p (r_child parent) @ set_child new run # behind))
          else case insert_resource_u first new of
              Inserted t \<Rightarrow> Inserted (set_child parent ((r_child parent)[p := t]))
            | Insert_clash_root \<Rightarrow> Insert_clash first
            | Insert_clash c \<Rightarrow> Insert_clash c)"
  by pat_completeness auto

termination
proof (relation "measure (\<lambda>(p, n). size p)", goal_cases)
  case 1
  show ?case by (rule wf_measure)
next
  case (2 parent new p first)
  then show ?case by (simp only: in_measure case_prod_conv size_nth_child request_resource_u_child)
qed

declare insert_resource_u.simps [simp del] adopt_run.simps(2) [simp del]

lemma adopt_run_Inl:
  "adopt_run new cs = Inl c \<Longrightarrow> r_start c < r_start new \<or> r_end c > r_end new"
proof (induction new cs rule: adopt_run.induct)
  case (2 new nxt rest)
  then show ?case
    by (cases rest) (auto simp: adopt_run.simps(2) [of new nxt] split: if_splits sum.splits)
qed simp

lemma insert_resource_u_clash:
  "insert_resource_u parent new = Insert_clash c \<Longrightarrow> r_start c < r_start new \<or> r_end c > r_end new"
proof (induction parent new rule: insert_resource_u.induct)
  case (1 parent new)
  note prem = "1.prems" [unfolded insert_resource_u.simps [of parent]]
  show ?case
  proof (cases "request_resource_u parent new")
    case (Clash_child p)
    define first where "first = r_child parent ! p"
    have ne: "r_start new \<le> r_end new"
      using Clash_child by (auto simp: request_resource_u_def Let_def split: if_splits)
    show ?thesis
    proof (cases "(r_start first > r_start new \<or> r_end first < r_end new) \<or>
             (r_start first = r_start new \<and> r_end first = r_end new)")
      case True
      then show ?thesis using prem Clash_child
        by (auto simp: Let_def first_def [symmetric] split: sum.splits dest!: adopt_run_Inl)
    next
      case False
      then have "insert_resource_u first new \<noteq> Insert_clash_root"
        using ne by (subst insert_resource_u.simps)
          (auto simp: request_resource_u_def Let_def split: sum.splits ins_result.splits)
      moreover have "insert_resource_u first new = Insert_clash c
        \<Longrightarrow> r_start c < r_start new \<or> r_end c > r_end new"
        using "1.IH" [OF Clash_child first_def] False by auto
      ultimately show ?thesis using prem Clash_child False
        by (auto simp: Let_def first_def [symmetric] split: ins_result.splits)
    qed
  qed (use prem in auto)
qed

text \<open>The width of the complement of a range, which every round of the expansion lowers.\<close>

definition room_around :: "resource \<Rightarrow> nat" where
  "room_around r = unat (r_start r) + (4294967295 - unat (r_end r))"

definition cover :: "resource \<Rightarrow> resource \<Rightarrow> resource" where
  "cover new conflict =
     (let new = (if r_start conflict < r_start new then set_range new (r_start conflict) (r_end new) else new)
      in if r_end conflict > r_end new then set_range new (r_start new) (r_end conflict) else new)"

lemma room_around_cover:
  assumes "r_start c < r_start new \<or> r_end c > r_end new"
  shows "room_around (cover new c) < room_around new"
proof -
  have "unat (r_end c) < 4294967296" by (rule unat_u32_less)
  then show ?thesis using assms
    by (auto simp: room_around_def cover_def set_range_def Let_def word_less_nat_alt)
qed

function expand_loop :: "resource \<Rightarrow> resource \<Rightarrow> ins_result" where
  "expand_loop root new =
     (case insert_resource_u root new of
        Insert_clash c \<Rightarrow> expand_loop root (cover new c)
      | res \<Rightarrow> res)"
  by pat_completeness auto
termination
proof (relation "measure (\<lambda>(root, new). room_around new)", goal_cases)
  case 1
  show ?case by (rule wf_measure)
next
  case (2 root new c)
  then show ?case by (simp add: room_around_cover insert_resource_u_clash)
qed

declare expand_loop.simps [simp del]

definition insert_resource_conflict :: "resource \<Rightarrow> resource \<Rightarrow> ins_result" where
  "insert_resource_conflict parent new = insert_resource_u parent new"

definition insert_resource :: "resource \<Rightarrow> resource \<Rightarrow> errno + resource" where
  "insert_resource parent new =
     (case insert_resource_conflict parent new of Inserted t \<Rightarrow> Inr t | _ \<Rightarrow> Inl EBUSY)"

text \<open>\<open>has_parent\<close>: the new resource is in a tree already.  The result is the tree afterwards.\<close>

definition insert_resource_expand_to_fit :: "bool \<Rightarrow> resource \<Rightarrow> resource \<Rightarrow> resource" where
  "insert_resource_expand_to_fit has_parent root new =
     (if has_parent then root
      else case expand_loop root new of Inserted t \<Rightarrow> t | _ \<Rightarrow> root)"

section \<open>Adjusting\<close>

fun sibling_of :: "nat \<Rightarrow> resource list \<Rightarrow> resource option" where
  "sibling_of i (a # b # cs) = (if r_id a = i then Some b else sibling_of i (b # cs))"
| "sibling_of i _ = None"

fun before_in :: "nat \<Rightarrow> resource list \<Rightarrow> resource option" where
  "before_in i (a # b # cs) = (if r_id b = i then Some a else before_in i (b # cs))"
| "before_in i _ = None"

text \<open>The tests of \<open>adjust_resource\<close>; the resource has the address \<open>i\<close> and the parent \<open>par\<close>.\<close>

definition adjust_ok :: "resource \<Rightarrow> resource \<Rightarrow> u32 \<Rightarrow> u32 \<Rightarrow> bool" where
  "adjust_ok par res start fin =
     (if start < r_start par \<or> fin > r_end par then False
      else if list_ex (\<lambda>tmp. r_start tmp < start \<or> r_end tmp > fin) (r_child res) then False
      else if (case sibling_of (r_id res) (r_child par) of Some s \<Rightarrow> r_start s \<le> fin | None \<Rightarrow> False) then False
      else case before_in (r_id res) (r_child par) of Some tmp \<Rightarrow> \<not> start \<le> r_end tmp | None \<Rightarrow> True)"

definition adjust_resource :: "resource \<Rightarrow> nat \<Rightarrow> u32 \<Rightarrow> u32 \<Rightarrow> (errno + resource) option" where
  "adjust_resource t i start sz =
     (case parent_of i t of
        None \<Rightarrow> None
      | Some par \<Rightarrow>
          case List.find (\<lambda>c. r_id c = i) (r_child par) of
            None \<Rightarrow> None
          | Some res \<Rightarrow>
              let fin = start + sz - 1 in
              Some (if adjust_ok par res start fin
                    then Inr (put_res (set_child par
                           (map (\<lambda>c. if r_id c = i then set_range c start fin else c) (r_child par))) t)
                    else Inl EBUSY))"

section \<open>Allocating\<close>

definition ALIGN :: "u32 \<Rightarrow> u32 \<Rightarrow> u32" where
  "ALIGN x a = (x + (a - 1)) AND NOT (a - 1)"

text \<open>
  The optional callback \<open>alignf\<close> gets the candidate range, the size and the alignment.  One round of
  the loop looks at the gap in front of \<open>this\<close>, or behind the last child.
\<close>

type_synonym align_fn = "(u32 \<times> u32 \<Rightarrow> u32 \<Rightarrow> u32 \<Rightarrow> u32) option"

definition gap_start :: "u32 \<Rightarrow> u32 \<Rightarrow> u32 \<Rightarrow> u32 \<Rightarrow> align_fn \<Rightarrow> u32 \<Rightarrow> u32 \<Rightarrow> u32" where
  "gap_start sz lo hi align alignf start fin =
     (let start = ALIGN (if start < lo then lo else start) align
      in case alignf of None \<Rightarrow> start | Some f \<Rightarrow> f (start, fin) sz align)"

fun find_loop ::
  "resource \<Rightarrow> u32 \<Rightarrow> u32 \<Rightarrow> u32 \<Rightarrow> u32 \<Rightarrow> align_fn \<Rightarrow> u32 \<Rightarrow> resource list \<Rightarrow> (u32 \<times> u32) option" where
  "find_loop root sz lo hi align alignf start this =
     (let fin = (case this of t # _ \<Rightarrow> r_start t - 1 | [] \<Rightarrow> r_end root);
          fin = (if fin > hi then hi else fin);
          s = gap_start sz lo hi align alignf start fin in
      if s < fin \<and> fin - s \<ge> sz - 1 then Some (s, s + sz - 1)
      else case this of
          [] \<Rightarrow> None
        | t # rest \<Rightarrow> find_loop root sz lo hi align alignf (r_end t + 1) rest)"

declare find_loop.simps [simp del]

definition find_resource ::
  "resource \<Rightarrow> u32 \<Rightarrow> u32 \<Rightarrow> u32 \<Rightarrow> u32 \<Rightarrow> align_fn \<Rightarrow> errno + (u32 \<times> u32)" where
  "find_resource root sz lo hi align alignf =
     (let (start, this) =
        (case r_child root of
           t # rest \<Rightarrow> if r_start t = 0 then (r_end t + 1, rest) else (r_start root, t # rest)
         | [] \<Rightarrow> (r_start root, []))
      in case find_loop root sz lo hi align alignf start this of
          Some r \<Rightarrow> Inr r | None \<Rightarrow> Inl EBUSY)"

text \<open>
  The structure \<open>new\<close> is changed before the request, so it carries the range that was found even when
  the request is refused.
\<close>

definition allocate_resource ::
  "resource \<Rightarrow> resource \<Rightarrow> u32 \<Rightarrow> u32 \<Rightarrow> u32 \<Rightarrow> u32 \<Rightarrow> align_fn \<Rightarrow> (errno + resource) \<times> resource" where
  "allocate_resource root new sz lo hi align alignf =
     (case find_resource root sz lo hi align alignf of
        Inl e \<Rightarrow> (Inl e, new)
      | Inr (s, e) \<Rightarrow>
          let new = set_range new s e in
          case request_resource_u root new of
            Requested t \<Rightarrow> (Inr t, new)
          | _ \<Rightarrow> (Inl EBUSY, new))"

section \<open>Well-formed trees\<close>

abbreviation before :: "resource \<Rightarrow> resource \<Rightarrow> bool" where
  "before c d \<equiv> r_end c < r_start d"

definition kids_ok :: "u32 \<Rightarrow> u32 \<Rightarrow> resource list \<Rightarrow> bool" where
  "kids_ok lo hi cs \<longleftrightarrow> sorted_wrt before cs \<and>
     (\<forall>c \<in> set cs. r_start c \<le> r_end c \<and> lo \<le> r_start c \<and> r_end c \<le> hi)"

fun wf_res :: "resource \<Rightarrow> bool" where
  "wf_res (Res i s e n f cs) = (s \<le> e \<and> kids_ok s e cs \<and> list_all wf_res cs)"

definition below :: "resource \<Rightarrow> resource list" where
  "below t = concat (map nodes (r_child t))"

lemma wf_res_iff:
  "wf_res t \<longleftrightarrow> r_start t \<le> r_end t \<and> kids_ok (r_start t) (r_end t) (r_child t) \<and> (\<forall>c \<in> set (r_child t). wf_res c)"
  by (cases t) (simp add: list_all_iff)

lemma nodes_below: "nodes t = t # below t"
  by (cases t) (simp add: below_def)

lemma set_below: "set (below t) = (\<Union>c \<in> set (r_child t). set (nodes c))"
  by (simp add: below_def)

lemma set_child_simps [simp]:
  "r_id (set_child r cs) = r_id r" "r_start (set_child r cs) = r_start r" "r_end (set_child r cs) = r_end r"
  "r_name (set_child r cs) = r_name r" "r_flags (set_child r cs) = r_flags r" "r_child (set_child r cs) = cs"
  by (simp_all add: set_child_def)

lemma set_range_simps [simp]:
  "r_id (set_range r s e) = r_id r" "r_start (set_range r s e) = s" "r_end (set_range r s e) = e"
  "r_name (set_range r s e) = r_name r" "r_flags (set_range r s e) = r_flags r"
  "r_child (set_range r s e) = r_child r"
  by (simp_all add: set_range_def)

lemma nodes_range:
  "wf_res t \<Longrightarrow> n \<in> set (nodes t) \<Longrightarrow> r_start n \<le> r_end n \<and> r_start t \<le> r_start n \<and> r_end n \<le> r_end t"
proof (induction t arbitrary: n rule: nodes.induct)
  case (1 i s e nm f cs)
  from "1.prems"(2) consider "n = Res i s e nm f cs" | c where "c \<in> set cs" "n \<in> set (nodes c)" by auto
  then show ?case
  proof cases
    case 2
    with "1.prems"(1) have "wf_res c" and r: "s \<le> r_start c" "r_end c \<le> e" by (auto simp: kids_ok_def list_all_iff)
    with "1.IH" [OF 2(1) _ 2(2)] have "r_start n \<le> r_end n" "r_start c \<le> r_start n" "r_end n \<le> r_end c" by auto
    with r show ?thesis by auto
  qed (use "1.prems" in auto)
qed

lemma nodes_wf: "wf_res t \<Longrightarrow> n \<in> set (nodes t) \<Longrightarrow> wf_res n"
  by (induction t arbitrary: n rule: nodes.induct) (auto simp: list_all_iff)

section \<open>The scan of the children\<close>

definition clash :: "u32 \<Rightarrow> u32 \<Rightarrow> resource \<Rightarrow> bool" where
  "clash s e n \<longleftrightarrow> r_start n \<le> e \<and> s \<le> r_end n"

lemma request_scan_shift: "request_scan s e p cs = map_sum (\<lambda>q. q + p) (\<lambda>q. q + p) (request_scan s e 0 cs)"
proof (induction cs arbitrary: p)
  case (Cons c cs)
  show ?case using Cons [of "Suc p"] Cons [of "Suc 0"] by (auto split: sum.splits) (cases "request_scan s e 0 cs"; simp)+
qed simp

lemma request_scan_spec:
  assumes "sorted_wrt before cs" "\<forall>c \<in> set cs. r_start c \<le> r_end c"
  shows "case request_scan s e 0 cs of
      Inr p \<Rightarrow> p \<le> length cs \<and> (\<forall>c \<in> set (take p cs). r_end c < s) \<and> (\<forall>c \<in> set (drop p cs). e < r_start c)
    | Inl p \<Rightarrow> p < length cs \<and> (\<forall>c \<in> set (take p cs). r_end c < s) \<and> clash s e (cs ! p)"
  using assms
proof (induction cs)
  case (Cons c cs)
  have "e < r_start c \<Longrightarrow> d \<in> set cs \<Longrightarrow> e < r_start d" for d
    using Cons.prems by fastforce
  then show ?case
    using Cons request_scan_shift [of s e "Suc 0" cs] by (auto simp: clash_def not_less split: sum.splits)
qed simp


lemma kids_okD:
  assumes "kids_ok lo hi cs"
  shows "sorted_wrt before cs" "\<forall>c \<in> set cs. r_start c \<le> r_end c"
  using assms by (auto simp: kids_ok_def)

text \<open>A new range may go under \<open>t\<close> beside its children.\<close>

definition free_in :: "u32 \<Rightarrow> u32 \<Rightarrow> resource \<Rightarrow> bool" where
  "free_in s e t \<longleftrightarrow> s \<le> e \<and> r_start t \<le> s \<and> e \<le> r_end t \<and> (\<forall>c \<in> set (r_child t). \<not> clash s e c)"

lemma request_cases:
  assumes "wf_res t"
  obtains (Requested) p where
      "request_resource_u t new = Requested (set_child t (take p (r_child t) @ new # drop p (r_child t)))"
      "r_start new \<le> r_end new" "r_start t \<le> r_start new" "r_end new \<le> r_end t"
      "\<forall>c \<in> set (take p (r_child t)). r_end c < r_start new" "\<forall>c \<in> set (drop p (r_child t)). r_end new < r_start c"
  | (Clash_root) "request_resource_u t new = Clash_root"
      "r_end new < r_start new \<or> r_start new < r_start t \<or> r_end t < r_end new"
  | (Clash_child) p where "request_resource_u t new = Clash_child p" "p < length (r_child t)"
      "r_start new \<le> r_end new" "r_start t \<le> r_start new" "r_end new \<le> r_end t"
      "\<forall>c \<in> set (take p (r_child t)). r_end c < r_start new"
      "clash (r_start new) (r_end new) (r_child t ! p)"
proof -
  have k: "kids_ok (r_start t) (r_end t) (r_child t)" using assms by (simp add: wf_res_iff [of t])
  note spec = request_scan_spec [OF kids_okD [OF k], of "r_start new" "r_end new"]
  show thesis
  proof (cases "r_end new < r_start new \<or> r_start new < r_start t \<or> r_end t < r_end new")
    case True
    moreover from this have "request_resource_u t new = Clash_root" by (auto simp: request_resource_u_def Let_def)
    ultimately show thesis by (intro Clash_root)
  next
    case False
    then have r: "r_start new \<le> r_end new" "r_start t \<le> r_start new" "r_end new \<le> r_end t" by auto
    show thesis
    proof (cases "request_scan (r_start new) (r_end new) 0 (r_child t)")
      case (Inl p)
      have "request_resource_u t new = Clash_child p" using False Inl by (simp add: request_resource_u_def)
      with r spec [unfolded Inl sum.case] show thesis by (intro Clash_child [of p]) simp_all
    next
      case (Inr p)
      have "request_resource_u t new = Requested (set_child t (take p (r_child t) @ new # drop p (r_child t)))"
        using False Inr by (simp add: request_resource_u_def)
      with r spec [unfolded Inr sum.case] show thesis by (intro Requested [of p]) simp_all
    qed
  qed
qed

lemma kids_ok_append:
  "kids_ok lo hi (as @ bs) \<longleftrightarrow> kids_ok lo hi as \<and> kids_ok lo hi bs \<and> (\<forall>a \<in> set as. \<forall>b \<in> set bs. before a b)"
  by (auto simp: kids_ok_def sorted_wrt_append)

lemma kids_ok_Cons:
  "kids_ok lo hi (b # bs) \<longleftrightarrow> r_start b \<le> r_end b \<and> lo \<le> r_start b \<and> r_end b \<le> hi \<and>
     kids_ok lo hi bs \<and> (\<forall>c \<in> set bs. before b c)"
  by (auto simp: kids_ok_def)

lemma kids_ok_take_drop:
  assumes "kids_ok lo hi cs"
  shows "kids_ok lo hi (take p cs)" "kids_ok lo hi (drop p cs)"
    "\<forall>a \<in> set (take p cs). \<forall>b \<in> set (drop p cs). before a b"
  using kids_ok_append [of lo hi "take p cs" "drop p cs"] assms by auto

lemma wf_request:
  assumes "wf_res t" "wf_res new" "request_resource_u t new = Requested t'"
  shows "wf_res t'"
  using assms(1,3)
proof (cases rule: request_cases [OF assms(1), of new])
  case (1 p)
  have "kids_ok (r_start t) (r_end t) (take p (r_child t) @ new # drop p (r_child t))"
    using 1 kids_ok_take_drop [of "r_start t" "r_end t" "r_child t" p] assms(1)
    by (auto simp: kids_ok_append kids_ok_Cons wf_res_iff [of t])
  with 1 assms show ?thesis
    by (auto simp: wf_res_iff [of t] wf_res_iff [of "set_child _ _"] dest: in_set_takeD in_set_dropD)
qed auto

text \<open>A node without its children.\<close>

definition entry :: "resource \<Rightarrow> nat \<times> u32 \<times> u32 \<times> string \<times> u32" where
  "entry r = (r_id r, r_start r, r_end r, r_name r, r_flags r)"

definition entries :: "resource \<Rightarrow> (nat \<times> u32 \<times> u32 \<times> string \<times> u32) multiset" where
  "entries t = mset (map entry (nodes t))"

definition entries_of :: "resource list \<Rightarrow> (nat \<times> u32 \<times> u32 \<times> string \<times> u32) multiset" where
  "entries_of cs = sum_list (map entries cs)"

lemma entries_of_simps [simp]:
  "entries_of [] = {#}" "entries_of (c # cs) = entries c + entries_of cs"
  "entries_of (cs @ ds) = entries_of cs + entries_of ds"
  by (simp_all add: entries_of_def)

lemma entries_eq: "entries t = add_mset (entry t) (entries_of (r_child t))"
proof -
  have "mset (map entry (concat (map nodes cs))) = entries_of cs" for cs
    by (induction cs) (auto simp: entries_def)
  then show ?thesis by (simp add: entries_def nodes_below below_def)
qed

lemma entry_set_child [simp]: "entry (set_child t cs) = entry t"
  by (simp add: entry_def)

lemma adopt_run_spec:
  assumes "sorted_wrt before cs" "\<forall>c \<in> set cs. r_start c \<le> r_end c" "cs \<noteq> []"
    "clash (r_start new) (r_end new) (hd cs)"
  shows "case adopt_run new cs of
      Inl c \<Rightarrow> c \<in> set cs \<and> clash (r_start new) (r_end new) c \<and> (c = hd cs \<or> before (hd cs) c)
    | Inr (run, behind) \<Rightarrow> cs = run @ behind \<and> run \<noteq> [] \<and>
        (\<forall>c \<in> set run. r_start new \<le> r_start c \<and> r_end c \<le> r_end new) \<and>
        (\<forall>c \<in> set behind. r_end new < r_start c)"
  using assms
proof (induction new cs rule: adopt_run.induct)
  case (2 new nxt rest)
  show ?case
  proof (cases "r_start nxt < r_start new \<or> r_end nxt > r_end new")
    case True
    then show ?thesis using "2.prems" by (simp add: adopt_run.simps(2))
  next
    case False
    show ?thesis
    proof (cases rest)
      case Nil
      with False show ?thesis by (auto simp: adopt_run.simps(2))
    next
      case (Cons sib more)
      show ?thesis
      proof (cases "r_start sib > r_end new")
        case True
        then have "\<forall>c \<in> set rest. r_end new < r_start c" using "2.prems"(1,2) Cons by fastforce
        with False True Cons show ?thesis by (auto simp: adopt_run.simps(2))
      next
        case le: False
        have "clash (r_start new) (r_end new) sib" using le "2.prems" False Cons by (auto simp: clash_def)
        then have ih: "case adopt_run new rest of
            Inl c \<Rightarrow> c \<in> set rest \<and> clash (r_start new) (r_end new) c \<and> (c = hd rest \<or> before (hd rest) c)
          | Inr (run, behind) \<Rightarrow> rest = run @ behind \<and> run \<noteq> [] \<and>
              (\<forall>c \<in> set run. r_start new \<le> r_start c \<and> r_end c \<le> r_end new) \<and>
              (\<forall>c \<in> set behind. r_end new < r_start c)"
          using "2.IH" [OF False Cons le] "2.prems" Cons by auto
        have eq: "adopt_run new (nxt # rest) = (case adopt_run new rest of
            Inl c \<Rightarrow> Inl c | Inr (run, behind) \<Rightarrow> Inr (nxt # run, behind))"
          using False le Cons by (simp add: adopt_run.simps(2) [of new nxt])
        show ?thesis using ih False "2.prems"(1) unfolding eq by (auto simp: not_less split: sum.splits)
      qed
    qed
  qed
qed simp


section \<open>Insertion\<close>

text \<open>
  What the tree may take: a range inside the root such that it and every node below the root are
  disjoint or one contains the other.
\<close>

definition nests :: "u32 \<Rightarrow> u32 \<Rightarrow> resource \<Rightarrow> bool" where
  "nests s e n \<longleftrightarrow> clash s e n \<longrightarrow> (s \<le> r_start n \<and> r_end n \<le> e) \<or> (r_start n \<le> s \<and> e \<le> r_end n)"

definition insertable :: "u32 \<Rightarrow> u32 \<Rightarrow> resource \<Rightarrow> bool" where
  "insertable s e t \<longleftrightarrow> s \<le> e \<and> r_start t \<le> s \<and> e \<le> r_end t \<and> (\<forall>n \<in> set (below t). nests s e n)"

definition insert_spec :: "resource \<Rightarrow> resource \<Rightarrow> ins_result \<Rightarrow> bool" where
  "insert_spec t new res =
     (case res of
        Inserted t' \<Rightarrow> insertable (r_start new) (r_end new) t \<and> wf_res t' \<and> entry t' = entry t \<and>
          entries t' = add_mset (entry new) (entries t)
      | Insert_clash c \<Rightarrow> c \<in> set (below t) \<and> \<not> nests (r_start new) (r_end new) c
      | Insert_clash_root \<Rightarrow> \<not> (r_start new \<le> r_end new \<and> r_start t \<le> r_start new \<and> r_end new \<le> r_end t))"

lemma child_range:
  assumes "wf_res t" "c \<in> set (r_child t)"
  shows "wf_res c" "r_start t \<le> r_start c" "r_start c \<le> r_end c" "r_end c \<le> r_end t"
  using assms by (auto simp: wf_res_iff [of t] kids_ok_def)

lemma no_clash_nests: "\<not> clash s e n \<Longrightarrow> nests s e n"
  by (simp add: nests_def)

lemma no_clash_nodes:
  assumes "wf_res c" "\<not> clash s e c" "n \<in> set (nodes c)"
  shows "\<not> clash s e n"
  using nodes_range [OF assms(1,3)] assms(2) by (auto simp: clash_def)

lemma inside_nests:
  assumes "wf_res c" "s \<le> r_start c" "r_end c \<le> e" "n \<in> set (nodes c)"
  shows "nests s e n"
  using nodes_range [OF assms(1,4)] assms(2,3) by (auto simp: nests_def)

lemma clash_outside [simp]:
  "r_end c < s \<Longrightarrow> \<not> clash s e c" "e < r_start c \<Longrightarrow> \<not> clash s e c"
  by (auto simp: clash_def)

lemma take_nth_drop: "p < length cs \<Longrightarrow> cs = take p cs @ cs ! p # drop (Suc p) cs"
  by (rule id_take_nth_drop)

lemma entry_eqD:
  assumes "entry a = entry b"
  shows "r_id a = r_id b" "r_start a = r_start b" "r_end a = r_end b" "r_name a = r_name b" "r_flags a = r_flags b"
  using assms by (simp_all add: entry_def)

lemma insertable_children:
  "insertable s e t \<longleftrightarrow> s \<le> e \<and> r_start t \<le> s \<and> e \<le> r_end t \<and>
     (\<forall>c \<in> set (r_child t). \<forall>n \<in> set (nodes c). nests s e n)"
  by (auto simp: insertable_def set_below)

lemma no_clash_others:
  assumes "wf_res t" "p < length (r_child t)" "s \<le> e" "r_start (r_child t ! p) \<le> s" "e \<le> r_end (r_child t ! p)"
    "d \<in> set (r_child t)" "d \<noteq> r_child t ! p"
  shows "\<not> clash s e d"
proof -
  define c where "c = r_child t ! p"
  have k: "sorted_wrt before (r_child t)" using assms(1) by (simp add: wf_res_iff [of t] kids_ok_def)
  have "sorted_wrt before (take p (r_child t) @ c # drop (Suc p) (r_child t))"
    using k unfolding c_def by (subst take_nth_drop [OF assms(2), symmetric])
  moreover have "d \<in> set (take p (r_child t)) \<union> set (drop (Suc p) (r_child t))"
    using arg_cong [OF take_nth_drop [OF assms(2)], of set] assms(6,7) by auto
  ultimately have "before d c \<or> before c d" by (auto simp: sorted_wrt_append)
  then show ?thesis using assms(3-5) unfolding c_def clash_def by (meson le_less_trans less_le_trans not_le)
qed

lemma insertable_step:
  assumes "wf_res t" "p < length (r_child t)" "s \<le> e" "r_start t \<le> s" "e \<le> r_end t"
    "r_start (r_child t ! p) \<le> s" "e \<le> r_end (r_child t ! p)"
  shows "insertable s e t \<longleftrightarrow> insertable s e (r_child t ! p)"
proof -
  define c where "c = r_child t ! p"
  have c: "c \<in> set (r_child t)" using assms(2) by (simp add: c_def)
  have "nests s e n" if "d \<in> set (r_child t)" "d \<noteq> c" "n \<in> set (nodes d)" for d n
  proof -
    have "\<not> clash s e d" using no_clash_others [OF assms(1-3,6,7)] that by (simp add: c_def)
    then show ?thesis
      by (rule no_clash_nests [OF no_clash_nodes [OF child_range(1) [OF assms(1) that(1)] _ that(3)]])
  qed
  then have "(\<forall>d \<in> set (r_child t). \<forall>n \<in> set (nodes d). nests s e n) \<longleftrightarrow> (\<forall>n \<in> set (nodes c). nests s e n)"
    using c by blast
  moreover have "nests s e c" using assms(6,7) by (simp add: nests_def c_def)
  ultimately show ?thesis
    using assms(3-7) by (auto simp: insertable_children [of s e t] insertable_def [of s e c] nodes_below [of c] c_def [symmetric])
qed

lemma set_take_drop: "set cs = set (take p cs) \<union> set (drop p cs)"
  by (metis append_take_drop_id set_append)

lemma entries_split: "entries_of cs = entries_of (take p cs) + entries_of (drop p cs)"
  using entries_of_simps(3) [of "take p cs" "drop p cs"] by simp

lemma wf_leaf: "r_child r = [] \<Longrightarrow> wf_res r \<longleftrightarrow> r_start r \<le> r_end r"
  by (simp add: wf_res_iff [of r] kids_ok_def)

lemma insert_spec_requested:
  assumes wf: "wf_res t" and leaf: "r_child new = []" and req: "request_resource_u t new = Requested t'"
  shows "insert_spec t new (Inserted t')"
proof (rule request_cases [OF wf, of new])
  fix p
  assume a: "request_resource_u t new = Requested (set_child t (take p (r_child t) @ new # drop p (r_child t)))"
    and r: "r_start new \<le> r_end new" "r_start t \<le> r_start new" "r_end new \<le> r_end t"
    and l: "\<forall>c \<in> set (take p (r_child t)). r_end c < r_start new"
    and g: "\<forall>c \<in> set (drop p (r_child t)). r_end new < r_start c"
  have t': "t' = set_child t (take p (r_child t) @ new # drop p (r_child t))" using a req by simp
  have "\<not> clash (r_start new) (r_end new) c" if "c \<in> set (r_child t)" for c
    using that l g set_take_drop [of "r_child t" p] by auto
  then have "insertable (r_start new) (r_end new) t"
    using r no_clash_nodes [OF child_range(1) [OF wf]] no_clash_nests by (auto simp: insertable_children)
  moreover have "wf_res t'" using wf_request [OF wf _ req] leaf r by (simp add: wf_leaf)
  moreover have "entries t' = add_mset (entry new) (entries t)"
    using leaf by (simp add: t' entries_eq [of "set_child _ _"] entries_eq [of t] entries_eq [of new] entries_split [of "r_child t" p])
  ultimately show ?thesis by (simp add: insert_spec_def t')
qed (use req in simp_all)

lemma insert_spec_adopt:
  assumes wf: "wf_res t" and p: "p < length (r_child t)"
    and r: "r_start new \<le> r_end new" "r_start t \<le> r_start new" "r_end new \<le> r_end t"
    and l: "\<forall>c \<in> set (take p (r_child t)). r_end c < r_start new"
    and run: "drop p (r_child t) = run @ behind" "run \<noteq> []"
      "\<forall>c \<in> set run. r_start new \<le> r_start c \<and> r_end c \<le> r_end new"
      "\<forall>c \<in> set behind. r_end new < r_start c"
  shows "insert_spec t new (Inserted (set_child t (take p (r_child t) @ set_child new run # behind)))"
proof -
  have kids: "set (r_child t) = set (take p (r_child t)) \<union> set run \<union> set behind"
    using run(1) set_take_drop [of "r_child t" p] by auto
  have "nests (r_start new) (r_end new) n" if "c \<in> set (r_child t)" "n \<in> set (nodes c)" for c n
  proof (cases "c \<in> set run")
    case True
    with run(3) show ?thesis using inside_nests [OF child_range(1) [OF wf that(1)] _ _ that(2)] by blast
  next
    case False
    with that(1) kids l run(4) have "\<not> clash (r_start new) (r_end new) c" by auto
    from no_clash_nests [OF no_clash_nodes [OF child_range(1) [OF wf that(1)] this that(2)]] show ?thesis .
  qed
  then have ins: "insertable (r_start new) (r_end new) t" using r by (auto simp: insertable_children)
  have k: "kids_ok (r_start t) (r_end t) (take p (r_child t) @ run @ behind)"
    using wf run(1) by (metis append_take_drop_id wf_res_iff)
  then have "kids_ok (r_start new) (r_end new) run"
    using run(3) by (auto simp: kids_ok_append) (auto simp: kids_ok_def)
  then have new: "wf_res (set_child new run)"
    using r kids child_range(1) [OF wf] by (auto simp: wf_res_iff [of "set_child new run"])
  have "kids_ok (r_start t) (r_end t) (take p (r_child t) @ set_child new run # behind)"
    using k l r run(4) by (auto simp: kids_ok_append kids_ok_Cons)
  then have "wf_res (set_child t (take p (r_child t) @ set_child new run # behind))"
    using wf new kids child_range(1) [OF wf]
    by (auto simp: wf_res_iff [of "set_child t _"] wf_res_iff [of t] dest: in_set_takeD)
  moreover have "entries (set_child t (take p (r_child t) @ set_child new run # behind)) = add_mset (entry new) (entries t)"
    using run(1) by (simp add: entries_eq [of "set_child _ _"] entries_eq [of t] entries_split [of "r_child t" p])
  ultimately show ?thesis using ins by (simp add: insert_spec_def)
qed


lemma kids_ok_update:
  assumes "kids_ok lo hi cs" "p < length cs" "r_start c = r_start (cs ! p)" "r_end c = r_end (cs ! p)"
  shows "kids_ok lo hi (cs[p := c])"
proof -
  have "kids_ok lo hi (take p cs @ cs ! p # drop (Suc p) cs)"
    using assms(1) by (subst take_nth_drop [OF assms(2), symmetric])
  then show ?thesis using assms(2-4) by (simp add: upd_conv_take_nth_drop kids_ok_append kids_ok_Cons)
qed

lemma entries_update:
  assumes "p < length cs"
  shows "entries_of (cs[p := c]) + entries (cs ! p) = entries_of cs + entries c"
proof -
  have "entries_of cs = entries_of (take p cs @ cs ! p # drop (Suc p) cs)"
    by (subst take_nth_drop [OF assms, symmetric]) (rule refl)
  then show ?thesis using assms by (simp add: upd_conv_take_nth_drop)
qed

lemma entries_replace:
  assumes "p < length (r_child t)" "entries c = add_mset x (entries (r_child t ! p))"
  shows "entries (set_child t ((r_child t)[p := c])) = add_mset x (entries t)"
proof -
  have "entries_of ((r_child t)[p := c]) + entries (r_child t ! p) =
      add_mset x (entries_of (r_child t)) + entries (r_child t ! p)"
    using entries_update [OF assms(1), of c] assms(2) by simp
  then show ?thesis by (simp add: entries_eq [of t] entries_eq [of "set_child _ _"])
qed

lemma wf_update:
  assumes "wf_res t" "p < length (r_child t)" "wf_res c" "r_start c = r_start (r_child t ! p)" "r_end c = r_end (r_child t ! p)"
  shows "wf_res (set_child t ((r_child t)[p := c]))"
  using assms kids_ok_update [of "r_start t" "r_end t" "r_child t" p c]
  by (auto simp: wf_res_iff [of t] wf_res_iff [of "set_child t _"] dest: set_update_subset_insert [THEN subsetD])

lemma insert_spec_descend:
  assumes wf: "wf_res t" and p: "p < length (r_child t)"
    and r: "r_start new \<le> r_end new" "r_start t \<le> r_start new" "r_end new \<le> r_end t"
      "r_start (r_child t ! p) \<le> r_start new" "r_end new \<le> r_end (r_child t ! p)"
    and ih: "insert_spec (r_child t ! p) new res"
  shows "insert_spec t new (case res of Inserted c \<Rightarrow> Inserted (set_child t ((r_child t)[p := c]))
    | Insert_clash_root \<Rightarrow> Insert_clash (r_child t ! p) | Insert_clash c \<Rightarrow> Insert_clash c)"
proof (cases res)
  case (Inserted c)
  define d where "d = r_child t ! p"
  have c: "insertable (r_start new) (r_end new) d" "wf_res c" "entry c = entry d"
    "entries c = add_mset (entry new) (entries d)" using ih Inserted by (auto simp: insert_spec_def d_def)
  have "entries (set_child t ((r_child t)[p := c])) = add_mset (entry new) (entries t)"
    using entries_replace [OF p] c(4) by (simp add: d_def)
  moreover have "insertable (r_start new) (r_end new) t" using c(1) insertable_step [OF wf p r] by (simp add: d_def)
  moreover have "wf_res (set_child t ((r_child t)[p := c]))"
    using wf_update [OF wf p c(2)] entry_eqD [OF c(3)] by (simp add: d_def)
  ultimately show ?thesis using Inserted by (simp add: insert_spec_def)
next
  case (Insert_clash c)
  then have "c \<in> set (below (r_child t ! p))" "\<not> nests (r_start new) (r_end new) c" using ih by (auto simp: insert_spec_def)
  moreover from this(1) have "c \<in> set (below t)" using nth_mem [OF p] by (auto simp: set_below [of t] nodes_below)
  ultimately show ?thesis using Insert_clash by (simp add: insert_spec_def)
qed (use ih r in \<open>auto simp: insert_spec_def\<close>)

lemma insert_spec_cover:
  assumes wf: "wf_res t" and p: "p < length (r_child t)"
    and r: "r_start new \<le> r_end new" "r_start t \<le> r_start new" "r_end new \<le> r_end t"
    and l: "\<forall>c \<in> set (take p (r_child t)). r_end c < r_start new"
    and cl: "clash (r_start new) (r_end new) (r_child t ! p)"
    and cov: "(r_start (r_child t ! p) > r_start new \<or> r_end (r_child t ! p) < r_end new) \<or>
       (r_start (r_child t ! p) = r_start new \<and> r_end (r_child t ! p) = r_end new)"
  shows "insert_spec t new (case adopt_run new (drop p (r_child t)) of
     Inl c \<Rightarrow> Insert_clash c
   | Inr (run, behind) \<Rightarrow> Inserted (set_child t (take p (r_child t) @ set_child new run # behind)))"
proof -
  have hd: "hd (drop p (r_child t)) = r_child t ! p" "drop p (r_child t) \<noteq> []"
    using p by (simp_all add: hd_drop_conv_nth)
  have "kids_ok (r_start t) (r_end t) (drop p (r_child t))"
    using wf kids_ok_take_drop(2) by (simp add: wf_res_iff [of t])
  note spec = adopt_run_spec [OF kids_okD [OF this] hd(2), of new, unfolded hd(1), OF cl]
  show ?thesis
  proof (cases "adopt_run new (drop p (r_child t))")
    case (Inl c)
    have out: "r_start c < r_start new \<or> r_end c > r_end new" by (rule adopt_run_Inl [OF Inl])
    have c: "c \<in> set (r_child t)" "clash (r_start new) (r_end new) c" "c = r_child t ! p \<or> before (r_child t ! p) c"
      using spec Inl by (auto dest: in_set_dropD)
    from c(3) have "\<not> (r_start c \<le> r_start new \<and> r_end new \<le> r_end c)"
    proof
      assume "before (r_child t ! p) c"
      with cl have "r_start new < r_start c" by (auto simp: clash_def)
      then show ?thesis by auto
    qed (use cov out in auto)
    with out have "\<not> nests (r_start new) (r_end new) c" using c(2) by (auto simp: nests_def)
    moreover have "c \<in> set (below t)" using c(1) nodes_below [of c] by (auto simp: set_below intro!: bexI [of _ c])
    ultimately show ?thesis using Inl by (simp add: insert_spec_def)
  next
    case (Inr rb)
    obtain run behind where rb: "rb = (run, behind)" by (cases rb)
    show ?thesis using insert_spec_adopt [OF wf p r l, of run behind] spec Inr by (simp add: rb)
  qed
qed

lemma insert_resource_u_spec:
  assumes "wf_res t" "r_child new = []"
  shows "insert_spec t new (insert_resource_u t new)"
  using assms
proof (induction t new rule: insert_resource_u.induct)
  case (1 t new)
  note wf = "1.prems"(1) and step = insert_resource_u.simps [of t new]
  show ?case
  proof (rule request_cases [OF wf, of new])
    fix p
    assume "request_resource_u t new = Requested (set_child t (take p (r_child t) @ new # drop p (r_child t)))"
    then show ?thesis using insert_spec_requested [OF "1.prems"] by (simp add: step)
  next
    assume "request_resource_u t new = Clash_root"
      "r_end new < r_start new \<or> r_start new < r_start t \<or> r_end t < r_end new"
    then show ?thesis by (auto simp: step insert_spec_def insertable_def)
  next
    fix p
    assume req: "request_resource_u t new = Clash_child p" and p: "p < length (r_child t)"
      and r: "r_start new \<le> r_end new" "r_start t \<le> r_start new" "r_end new \<le> r_end t"
      and l: "\<forall>c \<in> set (take p (r_child t)). r_end c < r_start new"
      and cl: "clash (r_start new) (r_end new) (r_child t ! p)"
    define first where "first = r_child t ! p"
    show ?thesis
    proof (cases "(r_start first > r_start new \<or> r_end first < r_end new) \<or>
             (r_start first = r_start new \<and> r_end first = r_end new)")
      case True
      then show ?thesis
        using insert_spec_cover [OF wf p r l cl] req by (simp add: step first_def Let_def)
    next
      case False
      have r': "r_start (r_child t ! p) \<le> r_start new" "r_end new \<le> r_end (r_child t ! p)"
        using False by (auto simp: first_def)
      have "insert_spec (r_child t ! p) new (insert_resource_u (r_child t ! p) new)"
        using "1.IH" [OF req first_def False] child_range(1) [OF wf nth_mem [OF p]] "1.prems"(2) by (simp add: first_def)
      from insert_spec_descend [OF wf p r r' this] show ?thesis
        unfolding step using req False by (auto simp: Let_def first_def)
    qed
  qed
qed

section \<open>Expansion\<close>

text \<open>
  A range that contains the new one and may be inserted contains every node that stands in the way:
  the loop only grows towards the smallest such range.
\<close>

definition least_cover :: "resource \<Rightarrow> u32 \<Rightarrow> u32 \<Rightarrow> u32 \<Rightarrow> u32 \<Rightarrow> bool" where
  "least_cover t s e s' e' \<longleftrightarrow> s' \<le> s \<and> e \<le> e' \<and> insertable s' e' t \<and>
     (\<forall>s'' e''. s'' \<le> s \<longrightarrow> e \<le> e'' \<longrightarrow> insertable s'' e'' t \<longrightarrow> s'' \<le> s' \<and> e' \<le> e'')"


lemma insert_spec_insertable:
  "insert_spec t new res \<Longrightarrow> insertable (r_start new) (r_end new) t \<longleftrightarrow> (\<exists>t'. res = Inserted t')"
  by (auto simp: insert_spec_def insertable_def split: ins_result.splits)

lemma cover_simps [simp]:
  "r_start (cover new c) = min (r_start new) (r_start c)" "r_end (cover new c) = max (r_end new) (r_end c)"
  "r_child (cover new c) = r_child new" "set_range (cover new c) s e = set_range new s e"
  by (auto simp: cover_def Let_def set_range_def min_def max_def)

lemma cover_needed:
  assumes "\<not> nests s e c" "s' \<le> s" "e \<le> e'" "nests s' e' c"
  shows "s' \<le> r_start c" "r_end c \<le> e'"
proof -
  have cl: "r_start c \<le> e" "s \<le> r_end c" using assms(1) by (auto simp: nests_def clash_def)
  then have "clash s' e' c" using assms(2,3) by (auto simp: clash_def)
  then show "s' \<le> r_start c" "r_end c \<le> e'" using assms by (auto simp: nests_def)
qed

lemma least_cover_step:
  assumes "least_cover t (min s (r_start c)) (max e (r_end c)) s' e'" "c \<in> set (below t)" "\<not> nests s e c"
  shows "least_cover t s e s' e'"
proof -
  have least: "s'' \<le> s' \<and> e' \<le> e''" if "s'' \<le> s" "e \<le> e''" "insertable s'' e'' t" for s'' e''
  proof -
    have "nests s'' e'' c" using that(3) assms(2) by (simp add: insertable_def)
    then have "s'' \<le> min s (r_start c)" "max e (r_end c) \<le> e''"
      using cover_needed [OF assms(3) that(1,2)] that by auto
    then show ?thesis using assms(1) that(3) by (simp add: least_cover_def)
  qed
  show ?thesis using assms(1) least by (simp add: least_cover_def)
qed

lemma expand_loop_spec:
  assumes "wf_res t" "r_child new = []" "r_start new \<le> r_end new" "r_start t \<le> r_start new" "r_end new \<le> r_end t"
  shows "\<exists>t' s' e'. expand_loop t new = Inserted t' \<and> wf_res t' \<and>
    least_cover t (r_start new) (r_end new) s' e' \<and>
    entries t' = add_mset (entry (set_range new s' e')) (entries t)"
  using assms
proof (induction t new rule: expand_loop.induct)
  case (1 t new)
  note spec = insert_resource_u_spec [OF "1.prems"(1,2)] and step = expand_loop.simps [of t new]
  show ?case
  proof (cases "insert_resource_u t new")
    case (Inserted t')
    have "entry (set_range new (r_start new) (r_end new)) = entry new" by (simp add: entry_def)
    with spec Inserted show ?thesis
      by (intro exI [of _ t'] exI [of _ "r_start new"] exI [of _ "r_end new"])
        (simp add: step insert_spec_def least_cover_def)
  next
    case Insert_clash_root
    with spec "1.prems" show ?thesis by (simp add: insert_spec_def)
  next
    case (Insert_clash c)
    with spec have c: "c \<in> set (below t)" "\<not> nests (r_start new) (r_end new) c" by (auto simp: insert_spec_def)
    then have "r_start t \<le> r_start c" "r_end c \<le> r_end t"
      using nodes_range [OF "1.prems"(1), of c] by (auto simp: nodes_below [of t])
    with "1.prems" have "r_start (cover new c) \<le> r_end (cover new c)" "r_start t \<le> r_start (cover new c)"
      "r_end (cover new c) \<le> r_end t" by (auto simp: min_le_iff_disj le_max_iff_disj)
    from "1.IH" [OF Insert_clash "1.prems"(1) _ this] "1.prems"(2)
    obtain t' s' e' where t': "expand_loop t (cover new c) = Inserted t'" "wf_res t'"
      "least_cover t (min (r_start new) (r_start c)) (max (r_end new) (r_end c)) s' e'"
      "entries t' = add_mset (entry (set_range new s' e')) (entries t)" by auto
    show ?thesis
      by (intro exI [of _ t'] exI [of _ s'] exI [of _ e'])
        (simp add: step Insert_clash t' least_cover_step [OF t'(3) c])
  qed
qed


section \<open>Replacing a node\<close>

lemma self_in_nodes [simp]: "t \<in> set (nodes t)"
  by (simp add: nodes_below [of t])

lemma distinct_submset:
  assumes "mset xs \<subseteq># mset ys" "distinct ys"
  shows "distinct xs"
proof -
  have "count (mset ys) a \<le> 1" for a
    unfolding distinct_count_atmost_1 [THEN iffD1, OF assms(2), rule_format] by simp
  then have "count (mset xs) a \<le> 1" for a by (rule le_trans [OF mset_subset_eq_count [OF assms(1)]])
  then show ?thesis unfolding distinct_count_atmost_1
    by (metis count_mset_0_iff le_less less_one)
qed

definition ids :: "resource \<Rightarrow> nat list" where
  "ids t = map r_id (nodes t)"

lemma ids_simp: "ids (Res i s e n f cs) = i # concat (map ids cs)"
  by (simp add: ids_def map_concat comp_def fun_eq_iff [symmetric] cong: map_cong)

lemma ids_eq: "ids t = r_id t # concat (map ids (r_child t))"
  by (cases t) (simp add: ids_simp)

lemma put_res_absent: "r_id r \<notin> set (ids t) \<Longrightarrow> put_res r t = t"
  by (induction r t rule: put_res.induct) (auto simp: ids_simp intro: map_idI)

lemma put_res_range:
  assumes "r_id t = r_id r \<Longrightarrow> r_start t = r_start r \<and> r_end t = r_end r"
  shows "r_start (put_res r t) = r_start t" "r_end (put_res r t) = r_end t" "r_id (put_res r t) = r_id t"
  using assms by (cases t; simp)+

lemma kids_ok_map:
  assumes "kids_ok lo hi cs" "\<And>c. c \<in> set cs \<Longrightarrow> r_start (f c) = r_start c \<and> r_end (f c) = r_end c"
  shows "kids_ok lo hi (map f cs)"
  using assms by (induction cs) (auto simp: kids_ok_def)

lemma wf_put_res:
  assumes "wf_res t" "wf_res r" "\<And>n. n \<in> set (nodes t) \<Longrightarrow> r_id n = r_id r \<Longrightarrow> r_start n = r_start r \<and> r_end n = r_end r"
  shows "wf_res (put_res r t)"
  using assms
proof (induction r t rule: put_res.induct)
  case (1 r i s e n f cs)
  have kid: "c \<in> set cs \<Longrightarrow> r_id c = r_id r \<Longrightarrow> r_start c = r_start r \<and> r_end c = r_end r" for c
    by (rule "1.prems"(3)) (auto intro: bexI [of _ c])
  have "i \<noteq> r_id r \<Longrightarrow> c \<in> set cs \<Longrightarrow> wf_res (put_res r c)" for c
    using "1.IH" [of c] "1.prems" by (auto simp: list_all_iff)
  moreover have "kids_ok s e (map (put_res r) cs)"
    using "1.prems"(1) put_res_range(1,2) kid by (intro kids_ok_map) auto
  ultimately show ?case using "1.prems" by (auto simp: list_all_iff)
qed

lemma distinct_ids_child:
  assumes "distinct (ids t)" "c \<in> set (r_child t)"
  shows "distinct (ids c)" "r_id t \<notin> set (ids c)"
  using assms by (auto simp: ids_eq [of t] distinct_concat_iff)

lemma nodes_ids: "n \<in> set (nodes t) \<Longrightarrow> r_id n \<in> set (ids t)"
  by (simp add: ids_def)

lemma same_id_same_node:
  assumes "distinct (ids t)" "n \<in> set (nodes t)" "m \<in> set (nodes t)" "r_id n = r_id m"
  shows "n = m"
  using assms by (simp add: ids_def distinct_map inj_on_def)

lemma put_res_ids:
  assumes "distinct (ids t)" "n \<in> set (nodes t)" "r_id r = r_id n"
  shows "mset (ids (put_res r t)) + mset (ids n) = mset (ids t) + mset (ids r)"
  using assms
proof (induction r t rule: put_res.induct)
  case (1 r i s e nm f cs)
  define t where "t = Res i s e nm f cs"
  show ?case
  proof (cases "i = r_id r")
    case True
    then have "n = t" using "1.prems" by (intro same_id_same_node [of t]) (auto simp: t_def)
    with True show ?thesis by (simp add: t_def)
  next
    case False
    then obtain c where c: "c \<in> set cs" "n \<in> set (nodes c)" using "1.prems" by auto
    then obtain as bs where cs: "cs = as @ c # bs" by (auto dest: split_list)
    have "put_res r d = d" if "d \<in> set as \<union> set bs" for d
    proof (rule put_res_absent)
      have "r_id n \<in> set (ids c)" using nodes_ids [OF c(2)] .
      then show "r_id r \<notin> set (ids d)" using "1.prems"(1,3) that by (auto simp: ids_simp cs)
    qed
    then have "map (put_res r) cs = as @ put_res r c # bs" by (simp add: cs map_idI)
    moreover have "mset (ids (put_res r c)) + mset (ids n) = mset (ids c) + mset (ids r)"
      using "1.IH" [OF False c(1)] c(2) "1.prems"(1,3) by (simp add: ids_simp cs)
    ultimately show ?thesis using False by (simp add: ids_simp cs)
  qed
qed

lemma find_resD: "find_res i t = Some n \<Longrightarrow> n \<in> set (nodes t) \<and> r_id n = i"
  by (auto simp: find_res_def find_Some_iff)

lemma parent_ofD: "parent_of i t = Some p \<Longrightarrow> p \<in> set (nodes t) \<and> i \<in> r_id ` set (r_child p)"
  by (auto simp: parent_of_def find_Some_iff)

section \<open>The invariant of the tree\<close>

definition tree_ok :: "resource \<Rightarrow> bool" where
  "tree_ok t \<longleftrightarrow> wf_res t \<and> distinct (ids t)"

text \<open>
  Replacing a node by one over the same range whose structures are those of the old node, less some and
  plus some that are not in the tree.
\<close>

lemma tree_ok_put:
  assumes "tree_ok t" "n \<in> set (nodes t)" "wf_res r" "entry r = entry n"
    "mset (ids r) \<subseteq># mset (ids n) + mset new" "distinct new" "set new \<inter> set (ids t) = {}"
  shows "tree_ok (put_res r t)"
proof -
  have d: "distinct (ids t)" and wf: "wf_res t" using assms(1) by (auto simp: tree_ok_def)
  note r = entry_eqD [OF assms(4)]
  have "wf_res (put_res r t)"
    using same_id_same_node [OF d _ assms(2)] r by (intro wf_put_res [OF wf assms(3)]) auto
  moreover have "mset (ids (put_res r t)) \<subseteq># mset (ids t) + mset new"
  proof -
    have "mset (ids (put_res r t)) + mset (ids n) \<subseteq># (mset (ids t) + mset new) + mset (ids n)"
      using put_res_ids [OF d assms(2) r(1)] assms(5) by (simp add: add.assoc add.commute [of "mset new"])
    then show ?thesis by (simp only: mset_subset_eq_mono_add_right_cancel)
  qed
  moreover have "distinct (ids t @ new)" using d assms(6,7) by auto
  ultimately show ?thesis unfolding tree_ok_def by (auto intro: distinct_submset [of _ "ids t @ new"])
qed


end
