(* ===== verification/Resource_Alloc.thy ===== *)
theory Resource_Alloc
  imports Resource_Tree
begin

text \<open>
  Allocation in the resource tree (\<open>find_resource\<close> and \<open>allocate_resource\<close> of \<open>kernel/resource.c\<close>)
  is first fit: as long as the alignment does not wrap around the address space, the range found is the
  lowest aligned one that is free within the bounds, and \<open>EBUSY\<close> means that there is none.
\<close>

section \<open>Alignment\<close>







section \<open>First fit\<close>





















text \<open>
  Without that condition the rounding wraps: a request for addresses above \<open>0xfffff001\<close> in an empty
  tree is granted at address 0, below the bound the caller gave.
\<close>

lemma allocate_resource_wraps:
  "allocate_resource (Res 2 0 0xffffffff ''mem'' 0x200 []) (Res 5 0 0 ''dev'' 0 []) 0x10 0xfffff001 0xffffffff 0x1000 None =
     (Inr (Res 2 0 0xffffffff ''mem'' 0x200 [Res 5 0 0xf ''dev'' 0 []]), Res 5 0 0xf ''dev'' 0 [])"
  by code_simp

text \<open>A gap of one byte is never used, although a resource of one byte fits.\<close>

lemma allocate_resource_one_byte_gap:
  "fst (allocate_resource (Res 2 0 0x1f ''bus'' 0x100 [Res 3 0 0x1e ''dev'' 0 []]) (Res 5 0 0 ''one'' 0 []) 1 0 0x1f 1 None) = Inl EBUSY"
  by code_simp

end
