(* ===== verification/Resource_Regions.thy ===== *)
theory Resource_Regions
  imports Resource_Tree "HOL-Library.Monad_Syntax"
begin

text \<open>
  The region interface of \<open>kernel/resource.c\<close> on top of the tree: requesting, checking and releasing
  busy regions, with the sleep of muxed regions; reserving what is free of a range; walking the tree.
  What other tasks do to the tree while a call sleeps is a list of trees, one for each wake-up.
\<close>

section \<open>Busy regions\<close>

datatype walk = Walk_granted resource | Walk_wait nat | Walk_busy

text \<open>
  The rounds of \<open>__request_region\<close> between two sleeps, from the node \<open>parent\<close> down.  \<open>Walk_wait\<close>
  carries the value of the variable \<open>parent\<close> at the sleep.
\<close>

function region_walk :: "resource \<Rightarrow> resource \<Rightarrow> u32 \<Rightarrow> walk" where
  "region_walk parent res flags =
     (case request_resource_u parent res of
        Requested t \<Rightarrow> Walk_granted t
      | Clash_root \<Rightarrow>
          if r_flags parent AND flags AND IORESOURCE_MUXED \<noteq> 0 then Walk_wait (r_id parent) else Walk_busy
      | Clash_child p \<Rightarrow>
          let conflict = r_child parent ! p in
          if r_flags conflict AND IORESOURCE_BUSY = 0
          then case region_walk conflict res flags of
              Walk_granted c \<Rightarrow> Walk_granted (set_child parent ((r_child parent)[p := c]))
            | w \<Rightarrow> w
          else if r_flags conflict AND flags AND IORESOURCE_MUXED \<noteq> 0 then Walk_wait (r_id conflict)
          else Walk_busy)"
  by pat_completeness auto
termination
proof (relation "measure (\<lambda>(p, r, f). size p)", goal_cases)
  case 1
  show ?case by (rule wf_measure)
next
  case (2 parent new flags p first)
  then show ?case by (simp only: in_measure case_prod_conv size_nth_child request_resource_u_child)
qed

declare region_walk.simps [simp del]

text \<open>\<open>Dangling\<close>: the pointer kept over the sleep no longer points into the tree.\<close>

datatype region_result = Region resource | No_region resource | Asleep | Dangling

fun request_region_loop :: "resource \<Rightarrow> nat \<Rightarrow> resource \<Rightarrow> u32 \<Rightarrow> resource list \<Rightarrow> region_result" where
  "request_region_loop t parent res flags events =
     (case find_res parent t of
        None \<Rightarrow> Dangling
      | Some node \<Rightarrow>
          case region_walk node res flags of
            Walk_granted node' \<Rightarrow> Region (put_res node' t)
          | Walk_busy \<Rightarrow> No_region t
          | Walk_wait parent' \<Rightarrow>
              (case events of
                 [] \<Rightarrow> Asleep
               | t' # events' \<Rightarrow> request_region_loop t' parent' res flags events'))"

declare request_region_loop.simps [simp del]

definition new_region :: "nat \<Rightarrow> u32 \<Rightarrow> u32 \<Rightarrow> string \<Rightarrow> u32 \<Rightarrow> resource" where
  "new_region a start n name flags = Res a start (start + n - 1) name (IORESOURCE_BUSY OR flags) []"

definition request_region_u ::
  "resource \<Rightarrow> nat \<Rightarrow> u32 \<Rightarrow> u32 \<Rightarrow> string \<Rightarrow> u32 \<Rightarrow> nat option \<Rightarrow> resource list \<Rightarrow> region_result" where
  "request_region_u t parent start n name flags alloc events =
     (case alloc of
        None \<Rightarrow> No_region t
      | Some a \<Rightarrow> request_region_loop t parent (new_region a start n name flags) flags events)"

text \<open>\<open>None\<close>: a null or dangling pointer; without \<open>IORESOURCE_MUXED\<close> the call never sleeps.\<close>

definition check_region_u :: "resource \<Rightarrow> nat \<Rightarrow> u32 \<Rightarrow> u32 \<Rightarrow> nat option \<Rightarrow> ((errno + unit) \<times> resource) option" where
  "check_region_u t parent start n alloc =
     (case request_region_u t parent start n ''check-region'' 0 alloc [] of
        No_region t \<Rightarrow> Some (Inl EBUSY, t)
      | Region t \<Rightarrow>
          (case release_resource t (the alloc) of
             Some (Inr t) \<Rightarrow> Some (Inr (), t)
           | Some (Inl e) \<Rightarrow> Some (Inr (), t)
           | None \<Rightarrow> None)
      | _ \<Rightarrow> None)"

lemma size_child_list [termination_simp]: "size_list size (r_child r) < Suc (size r + k)"
  by (cases r) simp

text \<open>The structure that is unlinked and freed, and the list without it; \<open>None\<close> is the warning.\<close>

fun release_walk :: "u32 \<Rightarrow> u32 \<Rightarrow> resource list \<Rightarrow> (resource \<times> resource list) option" where
  "release_walk start fin [] = None"
| "release_walk start fin (res # rest) =
     (if r_start res \<le> start \<and> r_end res \<ge> fin then
        if r_flags res AND IORESOURCE_BUSY = 0
        then map_option (\<lambda>(r, cs). (r, set_child res cs # rest)) (release_walk start fin (r_child res))
        else if r_start res \<noteq> start \<or> r_end res \<noteq> fin then None
        else Some (res, rest)
      else map_option (\<lambda>(r, cs). (r, res # cs)) (release_walk start fin rest))"

text \<open>The node afterwards, and whether the sleepers are woken.\<close>

definition release_region_u :: "resource \<Rightarrow> u32 \<Rightarrow> u32 \<Rightarrow> resource \<times> bool" where
  "release_region_u parent start n =
     (case release_walk start (start + n - 1) (r_child parent) of
        None \<Rightarrow> (parent, False)
      | Some (res, cs) \<Rightarrow> (set_child parent cs, r_flags res AND IORESOURCE_MUXED \<noteq> 0))"

section \<open>Reserving with splits\<close>

text \<open>
  \<open>__reserve_region_with_split\<close> recurses on what lies on both sides of a conflict.  \<open>alloc\<close> gives the
  address of the structure allocated for a range, if there is memory.  \<open>None\<close> is recursion without
  end.
\<close>

definition conflict_node :: "resource \<Rightarrow> req_result \<Rightarrow> resource" where
  "conflict_node root r = (case r of Clash_child p \<Rightarrow> r_child root ! p | _ \<Rightarrow> root)"

partial_function (option) reserve_region_with_split_u ::
  "(u32 \<Rightarrow> u32 \<Rightarrow> nat option) \<Rightarrow> string \<Rightarrow> resource \<Rightarrow> u32 \<Rightarrow> u32 \<Rightarrow> resource option" where
  "reserve_region_with_split_u alloc name root start fin =
     (case alloc start fin of
        None \<Rightarrow> Some root
      | Some a \<Rightarrow>
          (case request_resource_u root (Res a start fin name IORESOURCE_BUSY []) of
             Requested t \<Rightarrow> Some t
           | r \<Rightarrow>
               let conflict = conflict_node root r in
               if r_start conflict \<le> start \<and> r_end conflict \<ge> fin then Some root
               else do {
                 root \<leftarrow> (if r_start conflict > start
                   then reserve_region_with_split_u alloc name root start (r_start conflict - 1) else Some root);
                 (if r_end conflict < fin
                  then reserve_region_with_split_u alloc name root (r_end conflict + 1) fin else Some root)
               }))"

definition reserve_region_with_split ::
  "(u32 \<Rightarrow> u32 \<Rightarrow> nat option) \<Rightarrow> string \<Rightarrow> resource \<Rightarrow> u32 \<Rightarrow> u32 \<Rightarrow> resource option" where
  "reserve_region_with_split alloc name root start fin = reserve_region_with_split_u alloc name root start fin"

section \<open>What a busy region excludes\<close>

abbreviation busy :: "resource \<Rightarrow> bool" where
  "busy n \<equiv> r_flags n AND IORESOURCE_BUSY \<noteq> 0"

text \<open>Every node the new region touches contains it and is not busy.\<close>

definition yields :: "u32 \<Rightarrow> u32 \<Rightarrow> resource \<Rightarrow> bool" where
  "yields s e n \<longleftrightarrow> clash s e n \<longrightarrow> \<not> busy n \<and> r_start n \<le> s \<and> e \<le> r_end n"

definition grantable :: "u32 \<Rightarrow> u32 \<Rightarrow> resource \<Rightarrow> bool" where
  "grantable s e t \<longleftrightarrow> s \<le> e \<and> r_start t \<le> s \<and> e \<le> r_end t \<and> (\<forall>n \<in> set (below t). yields s e n)"

definition walk_spec :: "resource \<Rightarrow> resource \<Rightarrow> walk \<Rightarrow> bool" where
  "walk_spec t res w =
     (case w of
        Walk_granted t' \<Rightarrow> grantable (r_start res) (r_end res) t \<and> wf_res t' \<and> entry t' = entry t \<and>
          entries t' = add_mset (entry res) (entries t)
      | _ \<Rightarrow> \<not> grantable (r_start res) (r_end res) t)"

lemma grantable_children:
  "grantable s e t \<longleftrightarrow> s \<le> e \<and> r_start t \<le> s \<and> e \<le> r_end t \<and>
     (\<forall>c \<in> set (r_child t). \<forall>n \<in> set (nodes c). yields s e n)"
  by (auto simp: grantable_def set_below)

lemma grantable_step:
  assumes wf: "wf_res t" and p: "p < length (r_child t)" and r: "s \<le> e" "r_start t \<le> s" "e \<le> r_end t"
    and cl: "clash s e (r_child t ! p)"
  shows "grantable s e t \<longleftrightarrow> \<not> busy (r_child t ! p) \<and> grantable s e (r_child t ! p)"
proof -
  define c where "c = r_child t ! p"
  have c: "c \<in> set (r_child t)" using p by (simp add: c_def)
  have "yields s e n" if "yields s e c" "d \<in> set (r_child t)" "d \<noteq> c" "n \<in> set (nodes d)" for d n
  proof -
    have "r_start c \<le> s" "e \<le> r_end c" using that(1) cl by (auto simp: yields_def c_def)
    then have "\<not> clash s e d" using no_clash_others [OF wf p r(1)] that(2,3) by (simp add: c_def)
    from no_clash_nodes [OF child_range(1) [OF wf that(2)] this that(4)] show ?thesis by (simp add: yields_def)
  qed
  then have "(\<forall>d \<in> set (r_child t). \<forall>n \<in> set (nodes d). yields s e n) \<longleftrightarrow> (\<forall>n \<in> set (nodes c). yields s e n)"
    using c self_in_nodes [of c] by blast
  then show ?thesis using r cl
    by (auto simp: grantable_children [of s e t] grantable_def [of s e c] nodes_below [of c] yields_def [of s e c] c_def [symmetric])
qed

lemma walk_spec_descend:
  assumes wf: "wf_res t" and p: "p < length (r_child t)"
    and r: "r_start res \<le> r_end res" "r_start t \<le> r_start res" "r_end res \<le> r_end t"
    and cl: "clash (r_start res) (r_end res) (r_child t ! p)" and idle: "\<not> busy (r_child t ! p)"
    and ih: "walk_spec (r_child t ! p) res w"
  shows "walk_spec t res (case w of Walk_granted c \<Rightarrow> Walk_granted (set_child t ((r_child t)[p := c])) | w \<Rightarrow> w)"
proof (cases w)
  case (Walk_granted c)
  define d where "d = r_child t ! p"
  have c: "grantable (r_start res) (r_end res) d" "wf_res c" "entry c = entry d"
    "entries c = add_mset (entry res) (entries d)" using ih Walk_granted by (auto simp: walk_spec_def d_def)
  have "entries (set_child t ((r_child t)[p := c])) = add_mset (entry res) (entries t)"
    using entries_replace [OF p] c(4) by (simp add: d_def)
  moreover have "wf_res (set_child t ((r_child t)[p := c]))"
    using wf_update [OF wf p c(2)] entry_eqD [OF c(3)] by (simp add: d_def)
  moreover have "grantable (r_start res) (r_end res) t" using c(1) grantable_step [OF wf p r cl] idle by (simp add: d_def)
  ultimately show ?thesis using Walk_granted by (simp add: walk_spec_def)
qed (use ih grantable_step [OF wf p r cl] in \<open>auto simp: walk_spec_def\<close>)


lemma region_walk_spec:
  assumes "wf_res t" "r_child res = []"
  shows "walk_spec t res (region_walk t res flags)"
  using assms
proof (induction t res flags rule: region_walk.induct)
  case (1 t res flags)
  note wf = "1.prems"(1) and step = region_walk.simps [of t res flags]
  show ?case
  proof (rule request_cases [OF wf, of res])
    fix p
    assume a: "request_resource_u t res = Requested (set_child t (take p (r_child t) @ res # drop p (r_child t)))"
      and r: "\<forall>c \<in> set (take p (r_child t)). r_end c < r_start res" "\<forall>c \<in> set (drop p (r_child t)). r_end res < r_start c"
    have free: "\<not> clash (r_start res) (r_end res) c" if "c \<in> set (r_child t)" for c
      using that r set_take_drop [of "r_child t" p] by auto
    have "yields (r_start res) (r_end res) n" if n: "n \<in> set (below t)" for n
    proof -
      obtain c where c: "c \<in> set (r_child t)" "n \<in> set (nodes c)" using n by (auto simp: set_below)
      from no_clash_nodes [OF child_range(1) [OF wf c(1)] free [OF c(1)] c(2)] show ?thesis by (simp add: yields_def)
    qed
    then show ?thesis using insert_spec_requested [OF "1.prems" a]
      by (simp add: step a walk_spec_def insert_spec_def grantable_def insertable_def)
  next
    assume "request_resource_u t res = Clash_root"
      "r_end res < r_start res \<or> r_start res < r_start t \<or> r_end t < r_end res"
    then show ?thesis by (auto simp: step walk_spec_def grantable_def)
  next
    fix p
    assume req: "request_resource_u t res = Clash_child p" and p: "p < length (r_child t)"
      and r: "r_start res \<le> r_end res" "r_start t \<le> r_start res" "r_end res \<le> r_end t"
      and cl: "clash (r_start res) (r_end res) (r_child t ! p)"
    show ?thesis
    proof (cases "busy (r_child t ! p)")
      case True
      then have "\<not> grantable (r_start res) (r_end res) t" using grantable_step [OF wf p r cl] by simp
      with True req show ?thesis by (simp add: step walk_spec_def Let_def)
    next
      case False
      have "walk_spec (r_child t ! p) res (region_walk (r_child t ! p) res flags)"
        using "1.IH" [OF req refl] False child_range(1) [OF wf nth_mem [OF p]] "1.prems"(2) by simp
      from walk_spec_descend [OF wf p r cl False this] show ?thesis using req False by (simp add: step Let_def)
    qed
  qed
qed

section \<open>Releasing what was requested\<close>

lemma release_walk_skip:
  assumes "\<forall>c \<in> set as. r_end c < s" "s \<le> e"
  shows "release_walk s e (as @ bs) = map_option (\<lambda>(r, cs). (r, as @ cs)) (release_walk s e bs)"
  using assms
proof (induction as)
  case Nil
  then show ?case by (cases "release_walk s e bs") auto
next
  case (Cons a as)
  then have "\<not> e \<le> r_end a" by auto
  with Cons show ?case by (cases "release_walk s e bs") auto
qed

lemma set_child_entry: "entry c = entry d \<Longrightarrow> set_child c (r_child d) = d"
  by (cases d) (simp add: set_child_def entry_def)

lemma release_walk_granted:
  assumes "wf_res t" "r_child res = []" "busy res" "region_walk t res flags = Walk_granted t'"
  shows "release_walk (r_start res) (r_end res) (r_child t') = Some (res, r_child t)"
  using assms
proof (induction t res flags arbitrary: t' rule: region_walk.induct)
  case (1 t res flags)
  note wf = "1.prems"(1) and step = region_walk.simps [of t res flags]
  show ?case
  proof (rule request_cases [OF wf, of res])
    fix p
    assume a: "request_resource_u t res = Requested (set_child t (take p (r_child t) @ res # drop p (r_child t)))"
      and r: "r_start res \<le> r_end res" "\<forall>c \<in> set (take p (r_child t)). r_end c < r_start res"
    then have "r_child t' = take p (r_child t) @ res # drop p (r_child t)" using "1.prems"(4) by (auto simp: step)
    then show ?thesis using r "1.prems"(3) by (simp add: release_walk_skip)
  next
    assume "request_resource_u t res = Clash_root"
    then show ?thesis using "1.prems"(4) by (simp add: step split: if_splits)
  next
    fix p
    assume req: "request_resource_u t res = Clash_child p" and p: "p < length (r_child t)"
      and r: "r_start res \<le> r_end res" "\<forall>c \<in> set (take p (r_child t)). r_end c < r_start res"
    define c where "c = r_child t ! p"
    have idle: "\<not> busy c" using "1.prems"(4) req by (auto simp: step c_def Let_def split: if_splits)
    then obtain c' where c': "region_walk c res flags = Walk_granted c'" "t' = set_child t ((r_child t)[p := c'])"
      using "1.prems"(4) req by (auto simp: step c_def Let_def split: walk.splits)
    have wc: "wf_res c" using child_range(1) [OF wf nth_mem [OF p]] by (simp add: c_def)
    have "release_walk (r_start res) (r_end res) (r_child c') = Some (res, r_child c)"
      using "1.IH" [OF req c_def] idle wc "1.prems"(2,3) c'(1) by simp
    moreover have "grantable (r_start res) (r_end res) c" and e: "entry c' = entry c"
      using region_walk_spec [OF wc "1.prems"(2), of flags] c'(1) by (auto simp: walk_spec_def)
    ultimately have "release_walk (r_start res) (r_end res) (c' # drop (Suc p) (r_child t)) =
        Some (res, c # drop (Suc p) (r_child t))"
      using idle entry_eqD [OF e] set_child_entry [OF e] by (simp add: grantable_def)
    then show ?thesis
      using r p c'(2) release_walk_skip [OF r(2,1)] take_nth_drop [OF p]
      by (simp add: upd_conv_take_nth_drop c_def)
  qed
qed


section \<open>Reserving what is free\<close>

definition covered :: "resource \<Rightarrow> u32 \<Rightarrow> bool" where
  "covered t a \<longleftrightarrow> (\<exists>c \<in> set (r_child t). r_start c \<le> a \<and> a \<le> r_end c)"

text \<open>The children of \<open>t\<close> that \<open>root\<close> does not have are busy and lie in the range.\<close>

definition only_new :: "string \<Rightarrow> u32 \<Rightarrow> u32 \<Rightarrow> resource \<Rightarrow> resource \<Rightarrow> bool" where
  "only_new name start fin root t \<longleftrightarrow> (\<forall>c \<in> set (r_child t) - set (r_child root).
     busy c \<and> r_name c = name \<and> r_child c = [] \<and> start \<le> r_start c \<and> r_end c \<le> fin)"

lemma only_new_trans:
  "only_new name start fin root t \<Longrightarrow> only_new name start fin t u \<Longrightarrow> only_new name start fin root u"
  unfolding only_new_def by blast

lemma only_new_widen:
  "only_new name s e root t \<Longrightarrow> start \<le> s \<Longrightarrow> e \<le> fin \<Longrightarrow> only_new name start fin root t"
  unfolding only_new_def by (blast intro: order_trans)

lemma only_new_refl: "only_new name start fin root root"
  by (simp add: only_new_def)

definition split_spec :: "string \<Rightarrow> resource \<Rightarrow> u32 \<Rightarrow> u32 \<Rightarrow> resource \<Rightarrow> bool" where
  "split_spec name root start fin t \<longleftrightarrow> wf_res t \<and> entry t = entry root \<and> set (r_child root) \<subseteq> set (r_child t) \<and>
     (\<forall>a. start \<le> a \<longrightarrow> a \<le> fin \<longrightarrow> covered t a) \<and> only_new name start fin root t"

lemma split_spec_refl:
  assumes "wf_res t" "c \<in> set (r_child t)" "r_start c \<le> start" "fin \<le> r_end c"
  shows "split_spec name t start fin t"
  using assms by (auto simp: split_spec_def covered_def only_new_refl intro!: bexI [of _ c] intro: order_trans)

text \<open>What one of the two recursive calls contributes: it covers the addresses \<open>P\<close>.\<close>

definition split_part :: "string \<Rightarrow> (u32 \<Rightarrow> bool) \<Rightarrow> u32 \<Rightarrow> u32 \<Rightarrow> resource \<Rightarrow> resource \<Rightarrow> bool" where
  "split_part name P start fin root t \<longleftrightarrow> wf_res t \<and> entry t = entry root \<and> set (r_child root) \<subseteq> set (r_child t) \<and>
     (\<forall>a. P a \<longrightarrow> covered t a) \<and> only_new name start fin root t"

lemma split_part_widen:
  assumes "split_spec name root s e t" "start \<le> s" "e \<le> fin" "\<And>a. P a \<Longrightarrow> s \<le> a \<and> a \<le> e"
  shows "split_part name P start fin root t"
  using assms(1,4) only_new_widen [OF _ assms(2,3)] by (simp add: split_spec_def split_part_def)

lemma split_part_none: "wf_res root \<Longrightarrow> (\<And>a. \<not> P a) \<Longrightarrow> split_part name P start fin root root"
  by (simp add: split_part_def only_new_refl)

lemma split_spec_both:
  assumes l: "split_part name (\<lambda>a. start \<le> a \<and> a < r_start c) start fin root t1"
    and g: "split_part name (\<lambda>a. r_end c < a \<and> a \<le> fin) start fin t1 t"
    and c: "c \<in> set (r_child root)"
  shows "split_spec name root start fin t"
proof -
  have sub: "set (r_child root) \<subseteq> set (r_child t1)" "set (r_child t1) \<subseteq> set (r_child t)"
    using l g by (auto simp: split_part_def)
  have "covered t a" if a: "start \<le> a" "a \<le> fin" for a
  proof -
    consider "a < r_start c" | "r_start c \<le> a" "a \<le> r_end c" | "r_end c < a" by force
    then show ?thesis
    proof cases
      case 1
      then have "covered t1 a" using l a(1) by (simp add: split_part_def)
      then show ?thesis using sub(2) by (auto simp: covered_def)
    next
      case 2
      then show ?thesis using c sub by (auto simp: covered_def)
    next
      case 3
      then show ?thesis using g a(2) by (simp add: split_part_def)
    qed
  qed
  moreover have "only_new name start fin root t"
    using l g by (auto simp: split_part_def intro: only_new_trans)
  ultimately show ?thesis using l g sub by (simp add: split_spec_def split_part_def subset_trans)
qed


lemma split_spec_requested:
  assumes wf: "wf_res root" and req: "request_resource_u root (Res a start fin name IORESOURCE_BUSY []) = Requested t"
  shows "split_spec name root start fin t"
proof -
  define new where "new = Res a start fin name IORESOURCE_BUSY []"
  note spec = insert_spec_requested [OF wf _ req]
  obtain p where t: "t = set_child root (take p (r_child root) @ new # drop p (r_child root))"
    by (rule request_cases [OF wf, of new]) (use req in \<open>auto simp: new_def\<close>)
  have kids: "set (r_child t) = insert new (set (r_child root))"
    using set_take_drop [of "r_child root" p] by (auto simp: t)
  then have "only_new name start fin root t"
    by (auto simp: only_new_def new_def IORESOURCE_BUSY_def)
  moreover have "covered t a" if "start \<le> a" "a \<le> fin" for a
    using that kids by (auto simp: covered_def new_def)
  ultimately show ?thesis using spec kids by (auto simp: split_spec_def insert_spec_def)
qed

lemma split_step:
  assumes "alloc start fin = Some a" "request_resource_u root (Res a start fin name IORESOURCE_BUSY []) = r"
    "\<And>t. r \<noteq> Requested t" "c = conflict_node root r" "\<not> (r_start c \<le> start \<and> r_end c \<ge> fin)"
  shows "reserve_region_with_split_u alloc name root start fin = do {
     root \<leftarrow> (if r_start c > start
        then reserve_region_with_split_u alloc name root start (r_start c - 1) else Some root);
     (if r_end c < fin then reserve_region_with_split_u alloc name root (r_end c + 1) fin else Some root) }"
  unfolding reserve_region_with_split_u.simps [of alloc name root start fin]
  using assms(5) [unfolded assms(4)]
  by (cases r) (simp_all only: assms(1-4) option.case req_result.case Let_def if_not_P not_False_eq_True)

text \<open>The recursive calls do their work on ranges of fewer than \<open>n + 1\<close> addresses.\<close>

definition splits_below :: "(resource \<Rightarrow> u32 \<Rightarrow> u32 \<Rightarrow> resource option) \<Rightarrow> string \<Rightarrow> nat \<Rightarrow> bool" where
  "splits_below f name n \<longleftrightarrow> (\<forall>root s e. unat e - unat s < n \<longrightarrow> wf_res root \<longrightarrow> s \<le> e \<longrightarrow>
     r_start root \<le> s \<longrightarrow> e \<le> r_end root \<longrightarrow> (\<exists>t. f root s e = Some t \<and> split_spec name root s e t))"

lemma split_left:
  assumes "splits_below f name (unat fin - unat start)" "wf_res root" "r_start root \<le> start" "fin \<le> r_end root"
    "r_start c \<le> fin"
  shows "\<exists>t. (if r_start c > start then f root start (r_start c - 1) else Some root) = Some t \<and>
     split_part name (\<lambda>a. start \<le> a \<and> a < r_start c) start fin root t"
proof (cases "r_start c > start")
  case True
  note w = word_pred [OF True]
  have le: "start \<le> r_start c - 1" "r_start c - 1 \<le> r_end root" "r_start c - 1 \<le> fin"
    using True w(1,3) assms(4,5) by auto
  have "unat (r_start c - 1) - unat start < unat fin - unat start"
    using True assms(5) w(2) unfolding word_less_nat_alt word_le_nat_alt by linarith
  then obtain t where t: "f root start (r_start c - 1) = Some t" "split_spec name root start (r_start c - 1) t"
    using assms(1-3) le unfolding splits_below_def by blast
  from split_part_widen [OF t(2), of start fin] le w(1) t(1) True show ?thesis by simp
next
  case False
  have "split_part name (\<lambda>a. start \<le> a \<and> a < r_start c) start fin root root"
    by (rule split_part_none [OF assms(2)]) (use False in auto)
  with False show ?thesis by simp
qed

lemma split_right:
  assumes "splits_below f name (unat fin - unat start)" "wf_res root" "r_start root \<le> start" "fin \<le> r_end root"
    "start \<le> r_end c"
  shows "\<exists>t. (if r_end c < fin then f root (r_end c + 1) fin else Some root) = Some t \<and>
     split_part name (\<lambda>a. r_end c < a \<and> a \<le> fin) start fin root t"
proof (cases "r_end c < fin")
  case True
  note w = word_succ [OF True]
  have le: "r_end c + 1 \<le> fin" "r_start root \<le> r_end c + 1" "start \<le> r_end c + 1"
    using True w(1,3) assms(3,5) by auto
  have "unat fin - unat (r_end c + 1) < unat fin - unat start"
    using True assms(5) w(2) unfolding word_less_nat_alt word_le_nat_alt by linarith
  then obtain t where t: "f root (r_end c + 1) fin = Some t" "split_spec name root (r_end c + 1) fin t"
    using assms(1,2,4) le unfolding splits_below_def by blast
  from split_part_widen [OF t(2), of start fin] le w(1) t(1) True show ?thesis by simp
next
  case False
  have "split_part name (\<lambda>a. r_end c < a \<and> a \<le> fin) start fin root root"
    by (rule split_part_none [OF assms(2)]) (use False in auto)
  with False show ?thesis by simp
qed

lemma reserve_split_conflict:
  assumes ih: "splits_below (reserve_region_with_split_u alloc name) name (unat fin - unat start)"
    and wf: "wf_res root" and r: "r_start root \<le> start" "fin \<le> r_end root" and a: "alloc start fin = Some a"
    and req: "request_resource_u root (Res a start fin name IORESOURCE_BUSY []) = Clash_child p"
    and p: "p < length (r_child root)" and cl: "clash start fin (r_child root ! p)"
  shows "\<exists>t. reserve_region_with_split_u alloc name root start fin = Some t \<and> split_spec name root start fin t"
proof -
  let ?f = "reserve_region_with_split_u alloc name"
  define c where "c = r_child root ! p"
  have c: "c = conflict_node root (Clash_child p)" "c \<in> set (r_child root)"
    using p by (simp_all add: c_def conflict_node_def)
  have cl': "r_start c \<le> fin" "start \<le> r_end c" using cl by (auto simp: clash_def c_def)
  show ?thesis
  proof (cases "r_start c \<le> start \<and> r_end c \<ge> fin")
    case True
    then have "?f root start fin = Some root"
      using a req c(1) by (subst reserve_region_with_split_u.simps) simp
    then show ?thesis using split_spec_refl [OF wf c(2)] True by simp
  next
    case False
    obtain t1 where t1: "(if r_start c > start then ?f root start (r_start c - 1) else Some root) = Some t1"
      "split_part name (\<lambda>a. start \<le> a \<and> a < r_start c) start fin root t1"
      using split_left [OF ih wf r cl'(1)] by blast
    then have "wf_res t1" "r_start t1 \<le> start" "fin \<le> r_end t1"
      using r by (simp_all add: split_part_def entry_def)
    from split_right [OF ih this cl'(2)]
    obtain t where t: "(if r_end c < fin then ?f t1 (r_end c + 1) fin else Some t1) = Some t"
      "split_part name (\<lambda>a. r_end c < a \<and> a \<le> fin) start fin t1 t" by blast
    have "?f root start fin = Some t"
      using split_step [where alloc = alloc and a = a, OF a req _ c(1) False] t1(1) t(1) by simp
    then show ?thesis using split_spec_both [OF t1(2) t(2) c(2)] by blast
  qed
qed

lemma reserve_split_spec:
  assumes "wf_res root" "start \<le> fin" "r_start root \<le> start" "fin \<le> r_end root" "\<And>s e. alloc s e \<noteq> None"
  shows "\<exists>t. reserve_region_with_split_u alloc name root start fin = Some t \<and> split_spec name root start fin t"
  using assms(1-4)
proof (induction "unat fin - unat start" arbitrary: root start fin rule: less_induct)
  case less
  note wf = less.prems(1)
  have ih: "splits_below (reserve_region_with_split_u alloc name) name (unat fin - unat start)"
    using less.hyps unfolding splits_below_def by blast
  obtain a where a: "alloc start fin = Some a" using assms(5) [of start fin] by blast
  define new where "new = Res a start fin name IORESOURCE_BUSY []"
  show ?case
  proof (rule request_cases [OF wf, of new])
    fix p
    assume *: "request_resource_u root new = Requested (set_child root (take p (r_child root) @ new # drop p (r_child root)))"
    show ?thesis using split_spec_requested [OF wf * [unfolded new_def]] a *
      by (subst reserve_region_with_split_u.simps) (simp add: new_def)
  next
    assume "r_end new < r_start new \<or> r_start new < r_start root \<or> r_end root < r_end new"
    then show ?thesis using less.prems by (auto simp: new_def)
  next
    fix p
    assume "request_resource_u root new = Clash_child p" "p < length (r_child root)"
      "clash (r_start new) (r_end new) (r_child root ! p)"
    then show ?thesis using reserve_split_conflict [OF ih wf less.prems(3,4) a] by (simp add: new_def)
  qed
qed

lemma reserve_split_diverges:
  assumes "reserve_region_with_split_u alloc name root start fin = Some t"
  shows "start \<le> fin \<longrightarrow> (\<forall>s e. alloc s e \<noteq> None) \<longrightarrow> r_start root \<le> start \<and> fin \<le> r_end root"
proof (rule reserve_region_with_split_u.raw_induct [OF _ assms], intro impI)
  fix f alloc name root start fin t
  assume ih: "\<And>alloc name root start fin t. f alloc name root start fin = Some t \<Longrightarrow>
      start \<le> fin \<longrightarrow> (\<forall>s e. alloc s e \<noteq> None) \<longrightarrow> r_start root \<le> start \<and> fin \<le> r_end root"
    and body: "(case alloc start fin of None \<Rightarrow> Some root
      | Some a \<Rightarrow> (case request_resource_u root (Res a start fin name IORESOURCE_BUSY []) of
             Requested t \<Rightarrow> Some t
           | r \<Rightarrow> let conflict = conflict_node root r in
               if r_start conflict \<le> start \<and> r_end conflict \<ge> fin then Some root
               else do {
                 root \<leftarrow> (if r_start conflict > start then f alloc name root start (r_start conflict - 1) else Some root);
                 (if r_end conflict < fin then f alloc name root (r_end conflict + 1) fin else Some root) })) = Some t"
    and le: "start \<le> fin" and al: "\<forall>s e. alloc s e \<noteq> None"
  obtain a where a: "alloc start fin = Some a" using al by blast
  show "r_start root \<le> start \<and> fin \<le> r_end root"
  proof (rule ccontr)
    assume out: "\<not> (r_start root \<le> start \<and> fin \<le> r_end root)"
    then have req: "request_resource_u root (Res a start fin name IORESOURCE_BUSY []) = Clash_root"
      by (auto simp: request_resource_u_def)
    show False
    proof (cases "r_start root > start")
      case True
      then obtain t1 where "f alloc name root start (r_start root - 1) = Some t1"
        using body a req out by (auto simp: conflict_node_def Let_def bind_eq_Some_conv split: if_splits)
      from ih [OF this] al word_pred [OF True] True show False by auto
    next
      case False
      with out have lt: "r_end root < fin" by auto
      with False obtain t1 where "f alloc name root (r_end root + 1) fin = Some t1"
        using body a req out by (auto simp: conflict_node_def Let_def bind_eq_Some_conv split: if_splits)
      from ih [OF this] al word_succ [OF lt] lt show False by auto
    qed
  qed
qed


section \<open>Releasing by address\<close>

text \<open>The tree without the structure at address \<open>i\<close> and what hangs below it.\<close>

fun del_res :: "nat \<Rightarrow> resource \<Rightarrow> resource" where
  "del_res i (Res j s e n f cs) = Res j s e n f (map (del_res i) (filter (\<lambda>c. r_id c \<noteq> i) cs))"

lemma del_res_absent: "i \<notin> set (ids t) \<Longrightarrow> del_res i t = t"
proof (induction i t rule: del_res.induct)
  case (1 i j s e n f cs)
  then have "c \<in> set cs \<Longrightarrow> r_id c \<noteq> i \<and> del_res i c = c" for c
    by (auto simp: ids_simp ids_eq [of c])
  then show ?case by (simp add: map_idI)
qed

lemma release_scan_filter:
  assumes "distinct (map r_id cs)" "i \<in> r_id ` set cs"
  shows "\<exists>p. release_scan i k cs = Some (k + p) \<and> take p cs @ drop (Suc p) cs = filter (\<lambda>c. r_id c \<noteq> i) cs"
  using assms
proof (induction cs arbitrary: k)
  case (Cons c cs)
  show ?case
  proof (cases "r_id c = i")
    case True
    then have "filter (\<lambda>c. r_id c \<noteq> i) cs = cs" using Cons.prems(1) by (intro filter_True) (auto simp: image_iff)
    with True show ?thesis by (intro exI [of _ 0]) simp
  next
    case False
    then obtain p where "release_scan i (Suc k) cs = Some (Suc k + p)"
      "take p cs @ drop (Suc p) cs = filter (\<lambda>c. r_id c \<noteq> i) cs" using Cons.IH [of "Suc k"] Cons.prems by auto
    with False show ?thesis by (intro exI [of _ "Suc p"]) simp
  qed
qed simp

lemma distinct_ids_node:
  "distinct (ids t) \<Longrightarrow> n \<in> set (nodes t) \<Longrightarrow> distinct (ids n)"
  by (induction t arbitrary: n rule: nodes.induct) (auto simp: ids_simp distinct_concat_iff)

lemma distinct_child_ids:
  assumes "distinct (ids n)"
  shows "distinct (map r_id (r_child n))"
proof -
  have "mset (map r_id cs) \<subseteq># mset (concat (map ids cs))" for cs
  proof (induction cs)
    case (Cons c cs)
    have "{#r_id c#} \<subseteq># mset (ids c)" by (simp add: ids_eq [of c])
    from subset_mset.add_mono [OF this Cons] show ?case by simp
  qed simp
  from distinct_submset [OF this, of "r_child n"] assms show ?thesis by (simp add: ids_eq [of n])
qed

lemma child_node: "c \<in> set (r_child t) \<Longrightarrow> c \<in> set (nodes t)"
  by (cases t) (auto intro!: bexI [of _ c])

lemma distinct_kids:
  assumes "distinct (ids t)" "c \<in> set (r_child t)" "d \<in> set (r_child t)" "x \<in> set (ids c)" "x \<in> set (ids d)"
  shows "c = d"
proof (cases "ids c = ids d")
  case True
  then have "r_id c = r_id d" by (simp add: ids_eq [of c] ids_eq [of d])
  then show ?thesis using same_id_same_node [OF assms(1) child_node child_node] assms(2,3) by blast
next
  case False
  have "distinct (concat (map ids (r_child t)))" using assms(1) by (simp add: ids_eq [of t])
  then show ?thesis using assms(2-5) False by (auto simp: distinct_concat_iff)
qed

lemma child_in_below: "par \<in> set (nodes c) \<Longrightarrow> d \<in> set (r_child par) \<Longrightarrow> d \<in> set (below c)"
proof (induction c rule: nodes.induct)
  case (1 i s e n f cs)
  from "1.prems"(1) consider "par = Res i s e n f cs" | c where "c \<in> set cs" "par \<in> set (nodes c)" by auto
  then show ?case
  proof cases
    case 1
    then show ?thesis using "1.prems"(2) by (auto simp: set_below intro!: bexI [of _ d])
  next
    case 2
    then have "d \<in> set (nodes c)" using "1.IH" "1.prems"(2) by (simp add: nodes_below [of c])
    then show ?thesis using 2(1) by (auto simp: set_below)
  qed
qed

lemma put_del:
  assumes "distinct (ids t)" "par \<in> set (nodes t)" "i \<in> r_id ` set (r_child par)"
  shows "put_res (set_child par (filter (\<lambda>c. r_id c \<noteq> i) (r_child par))) t = del_res i t"
  using assms(1,2)
proof (induction t rule: nodes.induct)
  case (1 j s e n f cs)
  define t where "t = Res j s e n f cs"
  note kids = distinct_kids [OF "1.prems"(1)]
  obtain d where d: "d \<in> set (r_child par)" "r_id d = i" using assms(3) by auto
  have id: "i \<in> set (ids d)" using d(2) by (simp add: ids_eq [of d])
  show ?case
  proof (cases "j = r_id par")
    case True
    then have par: "par = t" using "1.prems" by (intro same_id_same_node [of t]) (auto simp: t_def)
    have "del_res i c = c" if "c \<in> set cs" "r_id c \<noteq> i" for c
      using kids [of c d i] that d id by (intro del_res_absent) (auto simp: par t_def)
    then have "map (del_res i) (filter (\<lambda>c. r_id c \<noteq> i) cs) = filter (\<lambda>c. r_id c \<noteq> i) cs" by (intro map_idI) simp
    then show ?thesis by (simp add: par t_def set_child_def)
  next
    case False
    then obtain c where c: "c \<in> set cs" "par \<in> set (nodes c)" using "1.prems" by auto
    have dc: "distinct (ids c)" using distinct_ids_child(1) [OF "1.prems"(1)] c(1) by simp
    have "d \<in> set (below c)" using child_in_below [OF c(2) d(1)] .
    then have i: "i \<in> set (ids c)" "r_id c \<noteq> i"
      using d(2) dc by (auto simp: ids_def nodes_below [of c])
    let ?p = "set_child par (filter (\<lambda>c. r_id c \<noteq> i) (r_child par))"
    have "put_res ?p x = del_res i x \<and> r_id x \<noteq> i" if x: "x \<in> set cs" for x
    proof (cases "x = c")
      case True
      then show ?thesis using "1.IH" [OF x] dc c(2) i(2) by simp
    next
      case False
      then have "r_id par \<notin> set (ids x)" "i \<notin> set (ids x)"
        using kids [of x c] x c nodes_ids [OF c(2)] i(1) by auto
      then show ?thesis by (auto simp: put_res_absent del_res_absent ids_eq [of x])
    qed
    then show ?thesis using False by (simp add: filter_True cong: map_cong)
  qed
qed

lemma release_resource_del:
  assumes "distinct (ids t)" "i \<in> set (ids t)" "i \<noteq> r_id t"
  shows "release_resource t i = Some (Inr (del_res i t))"
proof -
  have "\<exists>p \<in> set (nodes t). i \<in> r_id ` set (r_child p)"
    using assms(2,3)
  proof (induction t rule: nodes.induct)
    case (1 j s e n f cs)
    then obtain c where "c \<in> set cs" "i \<in> set (ids c)" by (auto simp: ids_simp)
    with "1.IH" [of c] show ?case by (cases "i = r_id c") auto
  qed
  then obtain par where par: "parent_of i t = Some par"
    by (cases "parent_of i t") (auto simp: parent_of_def find_None_iff)
  note p = parent_ofD [OF par]
  have "distinct (map r_id (r_child par))"
    using distinct_child_ids distinct_ids_node [OF assms(1)] p by blast
  from release_scan_filter [OF this, of i 0] p
  obtain q where "release_scan i 0 (r_child par) = Some q"
    "take q (r_child par) @ drop (Suc q) (r_child par) = filter (\<lambda>c. r_id c \<noteq> i) (r_child par)" by auto
  then show ?thesis using put_del [OF assms(1)] p by (simp add: release_resource_def release_resource_u_def par)
qed


lemma del_res_granted:
  assumes "wf_res t" "r_child res = []" "r_id res \<notin> set (ids t)" "region_walk t res flags = Walk_granted t'"
  shows "del_res (r_id res) t' = t"
  using assms
proof (induction t res flags arbitrary: t' rule: region_walk.induct)
  case (1 t res flags)
  note wf = "1.prems"(1) and step = region_walk.simps [of t res flags]
  have kid: "r_id c \<noteq> r_id res \<and> del_res (r_id res) c = c" if "c \<in> set (r_child t)" for c
    using that "1.prems"(3) by (intro conjI del_res_absent) (auto simp: ids_eq [of t] ids_eq [of c])
  have del: "del_res i (set_child t cs) = set_child t (map (del_res i) (filter (\<lambda>c. r_id c \<noteq> i) cs))" for i cs
    by (simp add: set_child_def)
  have kids: "map (del_res (r_id res)) (filter (\<lambda>c. r_id c \<noteq> r_id res) cs) = cs" if "set cs \<subseteq> set (r_child t)" for cs
    using that kid by (induction cs) auto
  have take_drop: "set (take p (r_child t)) \<subseteq> set (r_child t)" "set (drop p (r_child t)) \<subseteq> set (r_child t)" for p
    by (rule set_take_subset, rule set_drop_subset)
  show ?case
  proof (rule request_cases [OF wf, of res])
    fix p
    assume "request_resource_u t res = Requested (set_child t (take p (r_child t) @ res # drop p (r_child t)))"
    then have "t' = set_child t (take p (r_child t) @ res # drop p (r_child t))" using "1.prems"(4) by (simp add: step)
    then show ?thesis by (simp add: del kids take_drop) (simp add: set_child_def)
  next
    assume "request_resource_u t res = Clash_root"
    then show ?thesis using "1.prems"(4) by (simp add: step split: if_splits)
  next
    fix p
    assume req: "request_resource_u t res = Clash_child p" and p: "p < length (r_child t)"
    define c where "c = r_child t ! p"
    have idle: "\<not> busy c" using "1.prems"(4) req by (auto simp: step c_def Let_def split: if_splits)
    then obtain c' where c': "region_walk c res flags = Walk_granted c'" "t' = set_child t ((r_child t)[p := c'])"
      using "1.prems"(4) req by (auto simp: step c_def Let_def split: walk.splits)
    have c: "c \<in> set (r_child t)" "wf_res c" using p child_range(1) [OF wf nth_mem [OF p]] by (simp_all add: c_def)
    then have "r_id res \<notin> set (ids c)" using "1.prems"(3) by (auto simp: ids_eq [of t])
    then have "del_res (r_id res) c' = c" using "1.IH" [OF req c_def] idle c(2) "1.prems"(2) c'(1) by simp
    moreover have "r_id c' \<noteq> r_id res"
      using region_walk_spec [OF c(2) "1.prems"(2), of flags] c'(1) kid [OF c(1)]
      by (auto simp: walk_spec_def dest: entry_eqD(1))
    ultimately have "del_res (r_id res) t' = set_child t (take p (r_child t) @ c # drop (Suc p) (r_child t))"
      using p by (simp add: c'(2) del kids take_drop upd_conv_take_nth_drop)
    then show ?thesis using take_nth_drop [OF p] by (simp add: c_def set_child_def)
  qed
qed


end
