(* ===== verification/Resource_Walks.thy ===== *)
theory Resource_Walks
  imports Resource_Regions Resource_Alloc
begin

text \<open>
  Loops over the resource tree (\<open>kernel/resource.c\<close>): the traversal \<open>r_next\<close>, the checks of
  \<open>/dev/mem\<close> mappings that use it, and the walk over the ranges of system memory; and what holds of
  every tree the operations can build.
\<close>

section \<open>Traversal\<close>

text \<open>
  A pointer into the tree is the list of siblings that starts at it, followed by the lists that start at
  its ancestors.  The empty list is the null pointer.
\<close>

type_synonym cursor = "resource list list"

fun climb :: "cursor \<Rightarrow> cursor" where
  "climb ((p # s # sibs) # up) = (s # sibs) # up"
| "climb (_ # up) = climb up"
| "climb [] = []"

fun r_next :: "cursor \<Rightarrow> cursor" where
  "r_next ((p # sibs) # up) = (if r_child p \<noteq> [] then r_child p # (p # sibs) # up else climb ((p # sibs) # up))"
| "r_next _ = []"

definition pending :: "cursor \<Rightarrow> resource list" where
  "pending c = (case c of [] \<Rightarrow> [] | fr # up \<Rightarrow> concat (map nodes fr) @ concat (map (\<lambda>f. concat (map nodes (tl f))) up))"

lemma pending_climb: "pending (climb c) = concat (map (\<lambda>f. concat (map nodes (tl f))) c)"
  by (induction c rule: climb.induct) (simp_all add: pending_def)

lemma pending_r_next: "pending ((p # sibs) # up) = p # pending (r_next ((p # sibs) # up))"
  by (cases "r_child p = []") (simp_all add: pending_climb nodes_below [of p] below_def, simp_all add: pending_def nodes_below [of p] below_def)

text \<open>A loop \<open>for (p = p->child; p; p = r_next(p))\<close> whose body may leave it with a value.\<close>

function r_loop :: "(resource \<Rightarrow> 'a option) \<Rightarrow> cursor \<Rightarrow> 'a option" where
  "r_loop body ((p # sibs) # up) =
     (case body p of Some v \<Rightarrow> Some v | None \<Rightarrow> r_loop body (r_next ((p # sibs) # up)))"
| "r_loop body ([] # up) = None"
| "r_loop body [] = None"
  by pat_completeness auto
termination
  by (relation "measure (\<lambda>(b, c). length (pending c))") (simp_all add: pending_r_next del: r_next.simps)

definition for_each_below :: "(resource \<Rightarrow> 'a option) \<Rightarrow> resource \<Rightarrow> 'a option" where
  "for_each_below body root = (if r_child root = [] then None else r_loop body [r_child root, [root]])"

definition PFN_DOWN :: "u32 \<Rightarrow> u32" where "PFN_DOWN x = drop_bit 12 x"

definition iomem_map_sanity_check :: "resource \<Rightarrow> u32 \<Rightarrow> u32 \<Rightarrow> int" where
  "iomem_map_sanity_check iomem addr sz =
     (case for_each_below (\<lambda>p.
          if r_start p \<ge> addr + sz then None
          else if r_end p < addr then None
          else if PFN_DOWN (r_start p) \<le> PFN_DOWN addr \<and> PFN_DOWN (r_end p) \<ge> PFN_DOWN (addr + sz - 1) then None
          else if r_flags p AND IORESOURCE_BUSY \<noteq> 0 then None
          else Some (- 1)) iomem of
        Some err \<Rightarrow> err | None \<Rightarrow> 0)"

definition PAGE_SIZE :: u32 where "PAGE_SIZE = 4096"

text \<open>\<open>PAGE_MASK\<close> is an \<open>unsigned long\<close>, so masking the 64-bit address clears its upper half.\<close>

definition iomem_is_exclusive :: "bool \<Rightarrow> resource \<Rightarrow> u64 \<Rightarrow> int" where
  "iomem_is_exclusive strict_iomem_checks iomem addr =
     (if \<not> strict_iomem_checks then 0
      else let addr = addr AND ucast (NOT (PAGE_SIZE - 1)) in
        case for_each_below (\<lambda>p.
            if ucast (r_start p) \<ge> addr + ucast PAGE_SIZE then Some 0
            else if ucast (r_end p) < addr then None
            else if r_flags p AND IORESOURCE_BUSY \<noteq> 0 \<and> r_flags p AND IORESOURCE_EXCLUSIVE \<noteq> 0 then Some 1
            else None) iomem of
          Some err \<Rightarrow> err | None \<Rightarrow> 0)"

section \<open>System memory\<close>

fun next_ram :: "u32 \<Rightarrow> string option \<Rightarrow> u32 \<Rightarrow> u32 \<Rightarrow> resource list \<Rightarrow> resource option" where
  "next_ram flags name start fin [] = None"
| "next_ram flags name start fin (p # rest) =
     (if r_flags p \<noteq> flags then next_ram flags name start fin rest
      else if name \<noteq> None \<and> name \<noteq> Some (r_name p) then next_ram flags name start fin rest
      else if r_start p > fin then None
      else if r_end p \<ge> start \<and> r_start p < fin then Some p
      else next_ram flags name start fin rest)"

text \<open>The outer \<open>None\<close> is the \<open>BUG_ON\<close>, the inner one the return value -1.\<close>

definition find_next_system_ram ::
  "resource \<Rightarrow> u32 \<Rightarrow> string option \<Rightarrow> u32 \<Rightarrow> u32 \<Rightarrow> (u32 \<times> u32) option option" where
  "find_next_system_ram iomem flags name start fin =
     (if start \<ge> fin then None
      else Some (map_option (\<lambda>p. (if start < r_start p then r_start p else start, if fin > r_end p then r_end p else fin))
                   (next_ram flags name start fin (r_child iomem))))"

partial_function (option) ram_loop ::
  "resource \<Rightarrow> (u32 \<Rightarrow> u32 \<Rightarrow> 's \<Rightarrow> int \<times> 's) \<Rightarrow> u32 \<Rightarrow> int \<Rightarrow> u32 \<Rightarrow> u32 \<Rightarrow> 's \<Rightarrow> (int \<times> 's) option" where
  "ram_loop iomem func orig_end ret start fin st =
     (if \<not> start < fin then Some (ret, st)
      else case find_next_system_ram iomem (IORESOURCE_MEM OR IORESOURCE_BUSY) (Some ''System RAM'') start fin of
          None \<Rightarrow> None
        | Some None \<Rightarrow> Some (ret, st)
        | Some (Some (start, fin)) \<Rightarrow>
            let pfn = drop_bit 12 (start + PAGE_SIZE - 1); end_pfn = drop_bit 12 (fin + 1);
                (ret, st) = (if end_pfn > pfn then func pfn (end_pfn - pfn) st else (ret, st)) in
            if ret \<noteq> 0 then Some (ret, st)
            else ram_loop iomem func orig_end ret (fin + 1) orig_end st)"

definition walk_system_ram_range ::
  "resource \<Rightarrow> u32 \<Rightarrow> u32 \<Rightarrow> (u32 \<Rightarrow> u32 \<Rightarrow> 's \<Rightarrow> int \<times> 's) \<Rightarrow> 's \<Rightarrow> (int \<times> 's) option" where
  "walk_system_ram_range iomem start_pfn nr_pages func st =
     (let start = push_bit 12 start_pfn; fin = push_bit 12 (start_pfn + nr_pages) - 1
      in ram_loop iomem func fin (- 1) start fin st)"

definition is_ram_u :: "u32 \<Rightarrow> u32 \<Rightarrow> 's \<Rightarrow> int \<times> 's" where
  "is_ram_u pfn nr_pages st = (1, st)"

definition page_is_ram :: "resource \<Rightarrow> u32 \<Rightarrow> bool option" where
  "page_is_ram iomem pfn = map_option (\<lambda>(r, _). r = 1) (walk_system_ram_range iomem pfn 1 is_ram_u ())"

section \<open>The loops visit every node below the root\<close>

fun first_some :: "('a \<Rightarrow> 'b option) \<Rightarrow> 'a list \<Rightarrow> 'b option" where
  "first_some f [] = None"
| "first_some f (x # xs) = (case f x of Some v \<Rightarrow> Some v | None \<Rightarrow> first_some f xs)"

lemma climb_frames: "[] \<notin> set c \<Longrightarrow> [] \<notin> set (climb c)"
  by (induction c rule: climb.induct) auto

lemma r_next_frames: "[] \<notin> set c \<Longrightarrow> [] \<notin> set (r_next c)"
  by (cases c rule: r_next.cases) (auto simp del: climb.simps simp: climb_frames)

lemma r_loop_pending: "[] \<notin> set c \<Longrightarrow> r_loop body c = first_some body (pending c)"
proof (induction body c rule: r_loop.induct)
  case (1 body p sibs up)
  have "first_some body (pending ((p # sibs) # up)) =
      (case body p of Some v \<Rightarrow> Some v | None \<Rightarrow> first_some body (pending (r_next ((p # sibs) # up))))"
    by (simp add: pending_r_next del: r_next.simps)
  then show ?case using "1.IH" r_next_frames [OF "1.prems"] by (simp del: r_next.simps split: option.split)
qed (simp_all add: pending_def)

lemma for_each_below_first: "for_each_below body root = first_some body (below root)"
  using r_loop_pending [of "[r_child root, [root]]" body]
  by (cases "r_child root") (simp_all add: for_each_below_def pending_def below_def)

lemma below_starts: "wf_res t \<Longrightarrow> sorted (map r_start (nodes t))"
proof (induction t rule: nodes.induct)
  case (1 i s e n f cs)
  have kids: "kids_ok s e cs" "\<forall>c \<in> set cs. wf_res c" using "1.prems" by (auto simp: list_all_iff)
  have "sorted (map r_start (concat (map nodes cs)))" using kids "1.IH"
  proof (induction cs)
    case (Cons c cs)
    have "r_start n \<le> r_start m" if "n \<in> set (nodes c)" "d \<in> set cs" "m \<in> set (nodes d)" for n d m
    proof -
      have "before c d" "wf_res d" "wf_res c" using Cons.prems(1,2) that(2) by (auto simp: kids_ok_Cons)
      with nodes_range [of c n] nodes_range [of d m] that show ?thesis by auto
    qed
    then show ?case using Cons by (auto simp: sorted_append kids_ok_Cons)
  qed simp
  moreover have "s \<le> r_start n" if "c \<in> set cs" "n \<in> set (nodes c)" for c n
    using nodes_range [OF "1.prems", of n] that by auto
  ultimately show ?case by auto
qed

lemma ucast_mono: "a \<le> b \<Longrightarrow> (ucast (a :: u32) :: u64) \<le> ucast b"
  by (simp add: word_le_nat_alt unsigned_ucast_eq take_bit_nat_eq_self less_trans [OF unat_u32_less])

text \<open>The first range that starts behind the page ends the search: no later one can touch the page.\<close>

lemma first_touching:
  assumes "sorted (map r_start ps)"
  shows "(case first_some (\<lambda>p. if lim \<le> ucast (r_start p) then Some 0 else if (ucast (r_end p) :: u64) < pg then None
        else if X p then Some 1 else None) ps of Some err \<Rightarrow> err | None \<Rightarrow> (0 :: int)) =
    (if \<exists>p \<in> set ps. X p \<and> (ucast (r_start p) :: u64) < lim \<and> pg \<le> ucast (r_end p) then 1 else 0)"
  using assms
proof (induction ps)
  case (Cons p ps)
  have "lim \<le> ucast (r_start q)" if "q \<in> set ps" "lim \<le> (ucast (r_start p) :: u64)" for q
    using Cons.prems that ucast_mono [of "r_start p" "r_start q"] by auto
  then show ?case using Cons by (auto simp: not_le not_less dest: leD)
qed simp

lemma iomem_is_exclusive_iff:
  assumes "wf_res iomem" and "page = addr AND ucast (NOT (PAGE_SIZE - 1))"
  shows "iomem_is_exclusive True iomem addr =
    (if \<exists>p \<in> set (below iomem). (r_flags p AND IORESOURCE_BUSY \<noteq> 0 \<and> r_flags p AND IORESOURCE_EXCLUSIVE \<noteq> 0) \<and>
        ucast (r_start p) < page + ucast PAGE_SIZE \<and> page \<le> ucast (r_end p) then 1 else 0)"
proof -
  have "sorted (map r_start (below iomem))" using below_starts [OF assms(1)] by (simp add: nodes_below)
  from first_touching [OF this, of "page + ucast PAGE_SIZE" page
      "\<lambda>p. r_flags p AND IORESOURCE_BUSY \<noteq> 0 \<and> r_flags p AND IORESOURCE_EXCLUSIVE \<noteq> 0"]
  show ?thesis by (simp only: iomem_is_exclusive_def for_each_below_first Let_def assms(2) simp_thms if_False)
qed

section \<open>A partial page hides the memory behind it\<close>

text \<open>
  The walk starts with the return value -1 and stops when the value is not 0 after a range; a first range
  without a whole page leaves -1 in place, and the ranges behind it are never visited.
\<close>

lemma walk_stops_at_partial_page:
  "walk_system_ram_range
     (Res 2 0 0xffffffff ''mem'' 0x200
       [Res 3 0x100 0x1ff ''System RAM'' 0x80000200 [], Res 4 0x2000 0x5fff ''System RAM'' 0x80000200 []])
     0 16 (\<lambda>pfn n st. (0, (pfn, n) # st)) [] = Some (- 1, [])"
  unfolding walk_system_ram_range_def Let_def by (subst ram_loop.simps) code_simp


section \<open>Every operation keeps the tree in shape\<close>

lemma ids_entries: "mset (ids t) = image_mset fst (entries t)"
  by (simp add: ids_def entries_def entry_def comp_def flip: mset_map)

lemma tree_ok_add:
  assumes "tree_ok t" "n \<in> set (nodes t)" "wf_res n'" "entry n' = entry n" "entries n' = add_mset (entry new) (entries n)"
    "r_id new \<notin> set (ids t)"
  shows "tree_ok (put_res n' t)"
proof (rule tree_ok_put [OF assms(1-4), of "[r_id new]"])
  show "mset (ids n') \<subseteq># mset (ids n) + mset [r_id new]" by (simp add: ids_entries assms(5)) (simp add: entry_def)
qed (use assms(6) in auto)


























section \<open>Properties\<close>


definition demo_uart :: resource where
  "demo_uart = Res 3 0x3f8 0x3ff ''serial'' IORESOURCE_IO []"

definition demo_ports :: resource where
  "demo_ports = Res 2 0 0xffffffff ''PCI IO'' IORESOURCE_IO
     [Res 4 0x300 0x4ff ''bridge'' IORESOURCE_IO [demo_uart]]"


text \<open>C13: \<open>__insert_resource\<close> implements insertion into a laminar set of ranges.  It succeeds exactly
  when the new range lies in the root and every node below the root is disjoint from it, contains it or
  is contained in it; then the tree stays well formed and gains exactly the new entry.  On failure the
  node it returns is one the new range only partly overlaps, or the root if the range is empty or sticks
  out of the root.\<close>

theorem insert_resource_refines:
  assumes "wf_res t" "r_child new = []"
  shows "case insert_resource_u t new of
      Inserted t' \<Rightarrow> insertable (r_start new) (r_end new) t \<and> wf_res t' \<and> entries t' = add_mset (entry new) (entries t)
    | Insert_clash c \<Rightarrow> c \<in> set (below t) \<and> \<not> nests (r_start new) (r_end new) c
    | Insert_clash_root \<Rightarrow> \<not> (r_start new \<le> r_end new \<and> r_start t \<le> r_start new \<and> r_end new \<le> r_end t)"
  using insert_resource_u_spec [OF assms] by (auto simp: insert_spec_def split: ins_result.splits)

theorem insert_resource_refines_witness:
  "wf_res demo_ports \<and> insertable 0x3f0 0x3ff demo_ports \<and>
   insert_resource_u demo_ports (Res 5 0x3f0 0x3ff ''slot'' 0 []) =
     Inserted (Res 2 0 0xffffffff ''PCI IO'' IORESOURCE_IO
       [Res 4 0x300 0x4ff ''bridge'' IORESOURCE_IO [Res 5 0x3f0 0x3ff ''slot'' 0 [demo_uart]]])"
proof -
  have wf: "wf_res demo_ports" by (simp add: demo_ports_def demo_uart_def kids_ok_def)
  have "insert_resource_u demo_ports (Res 5 0x3f0 0x3ff ''slot'' 0 []) =
     Inserted (Res 2 0 0xffffffff ''PCI IO'' IORESOURCE_IO
       [Res 4 0x300 0x4ff ''bridge'' IORESOURCE_IO [Res 5 0x3f0 0x3ff ''slot'' 0 [demo_uart]]])" by code_simp
  with wf insert_resource_refines [OF wf, of "Res 5 0x3f0 0x3ff ''slot'' 0 []"] show ?thesis by simp
qed

text \<open>C19: \<open>insert_resource_expand_to_fit\<close> ends and succeeds for every non-empty range inside the root,
  whatever the tree holds: it inserts the smallest range that contains the given one and can be inserted,
  and changes nothing else.\<close>

theorem expand_to_fit_least:
  assumes "wf_res t" "r_child new = []" "r_start new \<le> r_end new" "r_start t \<le> r_start new" "r_end new \<le> r_end t"
  shows "\<exists>s e. least_cover t (r_start new) (r_end new) s e \<and>
    wf_res (insert_resource_expand_to_fit False t new) \<and>
    entries (insert_resource_expand_to_fit False t new) = add_mset (entry (set_range new s e)) (entries t)"
proof -
  obtain t' s e where "expand_loop t new = Inserted t'" "wf_res t'" "least_cover t (r_start new) (r_end new) s e"
    "entries t' = add_mset (entry (set_range new s e)) (entries t)" using expand_loop_spec [OF assms] by blast
  then show ?thesis by (intro exI [of _ s] exI [of _ e]) (simp add: insert_resource_expand_to_fit_def)
qed

theorem expand_to_fit_least_witness:
  "\<exists>s e. least_cover demo_ports 0x3fc 0x500 s e \<and>
    entries (Res 2 0 0xffffffff ''PCI IO'' IORESOURCE_IO
       [Res 5 0x300 0x500 ''wide'' 0 [Res 4 0x300 0x4ff ''bridge'' IORESOURCE_IO [demo_uart]]]) =
    add_mset (entry (Res 5 s e ''wide'' 0 [])) (entries demo_ports)"
proof -
  have wf: "wf_res demo_ports" by (simp add: demo_ports_def demo_uart_def kids_ok_def)
  have "insert_resource_expand_to_fit False demo_ports (Res 5 0x3fc 0x500 ''wide'' 0 []) =
    Res 2 0 0xffffffff ''PCI IO'' IORESOURCE_IO
       [Res 5 0x300 0x500 ''wide'' 0 [Res 4 0x300 0x4ff ''bridge'' IORESOURCE_IO [demo_uart]]]" by code_simp
  moreover have "r_start demo_ports = 0" "r_end demo_ports = 0xffffffff" by (simp_all add: demo_ports_def)
  ultimately show ?thesis
    using expand_to_fit_least [OF wf, of "Res 5 0x3fc 0x500 ''wide'' 0 []"] by (auto simp: set_range_def)
qed


lemma request_region_root:
  assumes "tree_ok t"
  shows "request_region_u t (r_id t) start n name flags (Some a) events =
    (case region_walk t (new_region a start n name flags) flags of
       Walk_granted t' \<Rightarrow> Region t' | Walk_busy \<Rightarrow> No_region t
     | Walk_wait p \<Rightarrow> (case events of [] \<Rightarrow> Asleep
         | t' # events' \<Rightarrow> request_region_loop t' p (new_region a start n name flags) flags events'))"
proof -
  have "find_res (r_id t) t = Some t" by (simp add: find_res_def nodes_below [of t])
  moreover have "put_res t' t = t'" if "region_walk t (new_region a start n name flags) flags = Walk_granted t'" for t'
    using region_walk_spec [of t "new_region a start n name flags" flags] that assms
    by (cases t) (auto simp: walk_spec_def tree_ok_def new_region_def entry_def)
  ultimately show ?thesis by (simp add: request_region_u_def request_region_loop.simps [of t] split: walk.splits)
qed

lemma region_walk_no_wait:
  "flags AND IORESOURCE_MUXED = 0 \<Longrightarrow> region_walk t res flags \<noteq> Walk_wait p"
proof (induction t res flags rule: region_walk.induct)
  case (1 t res flags)
  have m: "x AND flags AND IORESOURCE_MUXED = 0" for x using "1.prems" by (simp add: and.assoc)
  show ?case using "1.IH" "1.prems" m
    by (subst region_walk.simps) (auto simp: Let_def split: req_result.splits walk.splits)
qed

lemma request_region_spec:
  assumes "tree_ok t" "a \<notin> set (ids t)" "flags AND IORESOURCE_MUXED = 0"
  shows "case request_region_u t (r_id t) start n name flags (Some a) events of
      Region t' \<Rightarrow> grantable start (start + n - 1) t \<and> tree_ok t' \<and>
        entries t' = add_mset (a, start, start + n - 1, name, IORESOURCE_BUSY OR flags) (entries t)
    | No_region t' \<Rightarrow> t' = t \<and> \<not> grantable start (start + n - 1) t
    | _ \<Rightarrow> False"
proof -
  define res where "res = new_region a start n name flags"
  have res: "r_child res = []" "r_start res = start" "r_end res = start + n - 1"
    "entry res = (a, start, start + n - 1, name, IORESOURCE_BUSY OR flags)" by (simp_all add: res_def new_region_def entry_def)
  have wf: "wf_res t" using assms(1) by (simp add: tree_ok_def)
  note spec = region_walk_spec [OF wf res(1), of flags]
  show ?thesis
  proof (cases "region_walk t res flags")
    case (Walk_granted t')
    have "put_res t' t = t'" using spec Walk_granted by (cases t) (auto simp: walk_spec_def entry_def)
    then have "tree_ok t'" using tree_ok_add [OF assms(1), of t t' res] spec Walk_granted assms(2)
      by (auto simp: walk_spec_def res_def new_region_def)
    with spec Walk_granted res show ?thesis
      by (simp add: request_region_root [OF assms(1)] res_def [symmetric] walk_spec_def)
  next
    case (Walk_wait p)
    then show ?thesis using region_walk_no_wait [OF assms(3)] by blast
  next
    case Walk_busy
    with spec res show ?thesis by (simp add: request_region_root [OF assms(1)] res_def [symmetric] walk_spec_def)
  qed
qed

text \<open>C18: A region that is not muxed is granted exactly when its range lies in the tree's root and every
  node it touches contains it and is not busy, so two busy regions never share an address; the call never
  sleeps, adds exactly the busy entry or changes nothing, and keeps the tree well formed.\<close>

theorem request_region_exclusive:
  assumes "tree_ok t" "a \<notin> set (ids t)" "flags AND IORESOURCE_MUXED = 0"
  shows "case request_region_u t (r_id t) start n name flags (Some a) events of
      Region t' \<Rightarrow> grantable start (start + n - 1) t \<and> tree_ok t' \<and>
        entries t' = add_mset (a, start, start + n - 1, name, IORESOURCE_BUSY OR flags) (entries t)
    | No_region t' \<Rightarrow> t' = t \<and> \<not> grantable start (start + n - 1) t
    | _ \<Rightarrow> False"
  by (rule request_region_spec [OF assms])

theorem request_region_exclusive_witness:
  "tree_ok demo_ports \<and> grantable 0x3f8 0x3ff demo_ports \<and>
   request_region_u demo_ports 2 0x3f8 8 ''tty'' 0 (Some 6) [] =
     Region (Res 2 0 0xffffffff ''PCI IO'' IORESOURCE_IO
       [Res 4 0x300 0x4ff ''bridge'' IORESOURCE_IO
          [Res 3 0x3f8 0x3ff ''serial'' IORESOURCE_IO [Res 6 0x3f8 0x3ff ''tty'' IORESOURCE_BUSY []]]])"
proof -
  have ok: "tree_ok demo_ports" "6 \<notin> set (ids demo_ports)" "r_id demo_ports = 2"
    by (simp_all add: demo_ports_def demo_uart_def kids_ok_def tree_ok_def ids_simp)
  have "request_region_u demo_ports 2 0x3f8 8 ''tty'' 0 (Some 6) [] =
     Region (Res 2 0 0xffffffff ''PCI IO'' IORESOURCE_IO
       [Res 4 0x300 0x4ff ''bridge'' IORESOURCE_IO
          [Res 3 0x3f8 0x3ff ''serial'' IORESOURCE_IO [Res 6 0x3f8 0x3ff ''tty'' IORESOURCE_BUSY []]]])" by code_simp
  with ok request_region_exclusive [OF ok(1,2), of 0 "0x3f8" 8 "''tty''" "[]"] show ?thesis by simp
qed


lemma region_restored:
  assumes "tree_ok t" "a \<notin> set (ids t)"
    and "request_region_u t (r_id t) start n name flags (Some a) [] = Region t'"
  shows "release_region_u t' start n = (t, flags AND IORESOURCE_MUXED \<noteq> 0) \<and>
    release_resource t' a = Some (Inr t)"
proof -
  define res where "res = new_region a start n name flags"
  have res: "r_child res = []" "r_start res = start" "r_end res = start + n - 1" "r_id res = a" "busy res"
    "r_flags res AND IORESOURCE_MUXED = flags AND IORESOURCE_MUXED"
    by (simp_all add: res_def new_region_def bit.conj_disj_distrib2 IORESOURCE_BUSY_def IORESOURCE_MUXED_def)
  have wf: "wf_res t" using assms(1) by (simp add: tree_ok_def)
  have w: "region_walk t res flags = Walk_granted t'"
    using assms(3) by (simp add: request_region_root [OF assms(1)] res_def [symmetric] split: walk.splits)
  have e: "entry t' = entry t" "entries t' = add_mset (entry res) (entries t)"
    using region_walk_spec [OF wf res(1), of flags] w by (auto simp: walk_spec_def)
  have "release_region_u t' start n = (t, flags AND IORESOURCE_MUXED \<noteq> 0)"
    using release_walk_granted [OF wf res(1,5) w] set_child_entry [OF e(1)] res by (simp add: release_region_u_def)
  moreover have "release_resource t' a = Some (Inr t)"
  proof -
    have m: "mset (ids t') = add_mset a (mset (ids t))" using e(2) res(4) by (simp add: ids_entries entry_def)
    then have "set (ids t') = insert a (set (ids t))" by (metis set_mset_add_mset_insert set_mset_mset)
    moreover have "distinct (ids t')"
      using assms(1,2) distinct_submset [of "ids t'" "a # ids t"] m by (auto simp: tree_ok_def)
    moreover have "a \<noteq> r_id t'" using assms(2) entry_eqD(1) [OF e(1)] by (auto simp: ids_eq [of t])
    ultimately show ?thesis
      using release_resource_del [of t' a] del_res_granted [OF wf res(1) _ w] assms(2) res(4) by simp
  qed
  ultimately show ?thesis by blast
qed



text \<open>\<open>__check_region\<close> leaves the tree as it is and reports whether the region would be granted.\<close>

lemma check_region_exact:
  assumes "tree_ok t" "a \<notin> set (ids t)"
  shows "check_region_u t (r_id t) start n (Some a) =
    Some (if grantable start (start + n - 1) t then Inr () else Inl EBUSY, t)"
  using request_region_spec [OF assms, of 0 start n "''check-region''" "[]"]
    region_restored [OF assms, of start n "''check-region''" 0]
  by (auto simp: check_region_u_def split: region_result.splits)

text \<open>C22: If memory does not run out, \<open>reserve_region_with_split\<close> on a non-empty range returns if and only
  if the range lies inside the root; then every address of the range is covered by a child, the children
  there were are kept, and the new ones are busy, inside the range and disjoint from all others.  A range that
  sticks out of the root recurses for ever.\<close>

theorem reserve_region_with_split_iff:
  assumes "wf_res root" "start \<le> fin" "\<forall>s e. alloc s e \<noteq> None"
  shows "case reserve_region_with_split alloc name root start fin of
      Some t \<Rightarrow> r_start root \<le> start \<and> fin \<le> r_end root \<and> split_spec name root start fin t
    | None \<Rightarrow> \<not> (r_start root \<le> start \<and> fin \<le> r_end root)"
proof (cases "reserve_region_with_split_u alloc name root start fin")
  case None
  then show ?thesis using reserve_split_spec [of root start fin alloc name] assms
    by (auto simp: reserve_region_with_split_def)
next
  case (Some t)
  then have "r_start root \<le> start \<and> fin \<le> r_end root" using reserve_split_diverges assms(2,3) by blast
  with Some show ?thesis using reserve_split_spec [of root start fin alloc name] assms
    by (auto simp: reserve_region_with_split_def)
qed

theorem reserve_region_with_split_iff_witness:
  "reserve_region_with_split (\<lambda>s e. Some (unat s)) ''e820'' (Res 2 0x100 0x1ff ''bus'' 0 []) 0xf0 0x110 = None \<and>
   wf_res (Res 2 0x100 0x1ff ''bus'' 0 [])"
proof -
  have wf: "wf_res (Res 2 0x100 0x1ff ''bus'' 0 [])" by (simp add: kids_ok_def)
  from reserve_region_with_split_iff [OF wf, of "0xf0" "0x110" "\<lambda>s e. Some (unat s)" "''e820''"] wf
  show ?thesis by (auto split: option.splits)
qed

section \<open>Defects\<close>

text \<open>
  A request for a muxed region keeps the conflicting region itself as \<open>parent\<close> over the sleep.  When it is
  woken by the release of some other muxed region, it is granted the range below the region that is still
  held; when the conflicting region was released, the pointer it uses is to freed memory.
\<close>

definition demo_superio :: resource where
  "demo_superio = Res 2 0 0xffff ''PCI IO'' IORESOURCE_IO
     [Res 3 0x2e 0x2f ''first'' (IORESOURCE_BUSY OR IORESOURCE_MUXED) []]"

lemma muxed_region_granted_twice:
  "request_region_u demo_superio 2 0x2e 2 ''second'' IORESOURCE_MUXED (Some 5) [demo_superio] =
     Region (Res 2 0 0xffff ''PCI IO'' IORESOURCE_IO
       [Res 3 0x2e 0x2f ''first'' (IORESOURCE_BUSY OR IORESOURCE_MUXED)
          [Res 5 0x2e 0x2f ''second'' (IORESOURCE_BUSY OR IORESOURCE_MUXED) []]])"
  by code_simp

lemma muxed_region_use_after_free:
  "request_region_u demo_superio 2 0x2e 2 ''second'' IORESOURCE_MUXED (Some 5) [fst (release_region_u demo_superio 0x2e 2)] = Dangling"
  by code_simp

text \<open>\<open>adjust_resource\<close> does not notice that the size is zero, and makes the range an inverted one.\<close>

lemma adjust_resource_inverts:
  "adjust_resource demo_superio 3 0x40 0 = Some (Inr (Res 2 0 0xffff ''PCI IO'' IORESOURCE_IO
     [Res 3 0x40 0x3f ''first'' (IORESOURCE_BUSY OR IORESOURCE_MUXED) []]))"
  by code_simp


end
