(* ===== verification/Group_Lists.thy ===== *)
theory Group_Lists
  imports Kernel_Prelude "HOL-Library.Monad_Syntax" "HOL-Library.Multiset"
begin

text \<open>
  Supplementary group lists, \<open>kernel/groups.c\<close>: a \<open>group_info\<close> keeps its identifiers in blocks
  of one page (or in the small block inside the structure), filled from user space, sorted by
  a Shell sort and looked up by a binary search.  The lists are reference counted and shared by
  credentials; the part of \<open>kernel/cred.c\<close> that takes and drops those references is here too.
  An access outside a block, or of a list that has been freed, is the value \<open>None\<close>.
\<close>

section \<open>The group list\<close>

definition NGROUPS_SMALL :: nat where "NGROUPS_SMALL = 32"
definition NGROUPS_PER_BLOCK :: nat where "NGROUPS_PER_BLOCK = 1024"
definition NGROUPS_MAX :: nat where "NGROUPS_MAX = 65536"

record group_info =
  gi_usage :: int
  ngroups :: nat
  nblocks :: nat
  in_small :: bool
  blocks :: "u32 list list"

definition init_groups :: group_info where
  "init_groups = \<lparr>gi_usage = 2, ngroups = 0, nblocks = 0, in_small = False, blocks = []\<rparr>"

definition GROUP_AT :: "group_info \<Rightarrow> nat \<Rightarrow> u32 option" where
  "GROUP_AT gi i =
     (let b = i div NGROUPS_PER_BLOCK; k = i mod NGROUPS_PER_BLOCK in
      if b < length (blocks gi) \<and> k < length (blocks gi ! b)
      then Some (blocks gi ! b ! k) else None)"

definition set_GROUP_AT :: "group_info \<Rightarrow> nat \<Rightarrow> u32 \<Rightarrow> group_info option" where
  "set_GROUP_AT gi i x =
     (let b = i div NGROUPS_PER_BLOCK; k = i mod NGROUPS_PER_BLOCK in
      if b < length (blocks gi) \<and> k < length (blocks gi ! b)
      then Some (gi\<lparr>blocks := (blocks gi)[b := (blocks gi ! b)[k := x]]\<rparr>) else None)"

section \<open>Allocation and the copies from and to user space\<close>

text \<open>
  A page the allocator returns, or the small block of a fresh structure, holds arbitrary words:
  an allocation outcome is \<open>None\<close> or a function giving them.  The number of pages a group list
  has taken from the allocator is threaded through as an integer.
\<close>

type_synonym fill = "nat \<Rightarrow> u32"

primrec undo_partial_alloc :: "nat \<Rightarrow> int \<Rightarrow> int" where
  "undo_partial_alloc 0 pages = pages"
| "undo_partial_alloc (Suc i) pages = undo_partial_alloc i (pages - 1)"

fun alloc_blocks :: "(nat \<Rightarrow> fill option) \<Rightarrow> nat \<Rightarrow> nat \<Rightarrow> u32 list list \<Rightarrow> int
    \<Rightarrow> u32 list list option \<times> int" where
  "alloc_blocks pg i 0 bs pages = (Some bs, pages)"
| "alloc_blocks pg i (Suc n) bs pages =
     (case pg i of
        None \<Rightarrow> (None, undo_partial_alloc i pages)
      | Some f \<Rightarrow> alloc_blocks pg (i + 1) n (bs @ [map f [0..<NGROUPS_PER_BLOCK]]) (pages + 1))"

definition groups_alloc :: "fill option \<Rightarrow> (nat \<Rightarrow> fill option) \<Rightarrow> nat \<Rightarrow> int
    \<Rightarrow> group_info option \<times> int" where
  "groups_alloc km pg gidsetsize pages =
     (let nb = (gidsetsize + NGROUPS_PER_BLOCK - 1) div NGROUPS_PER_BLOCK;
          nb = (if nb \<noteq> 0 then nb else 1) in
      case km of
        None \<Rightarrow> (None, pages)
      | Some small \<Rightarrow>
          if gidsetsize \<le> NGROUPS_SMALL
          then (Some \<lparr>gi_usage = 1, ngroups = gidsetsize, nblocks = nb, in_small = True,
                      blocks = [map small [0..<NGROUPS_SMALL]]\<rparr>, pages)
          else case alloc_blocks pg 0 nb [] pages of
                 (None, pages) \<Rightarrow> (None, pages)
               | (Some bs, pages) \<Rightarrow>
                   (Some \<lparr>gi_usage = 1, ngroups = gidsetsize, nblocks = nb, in_small = False,
                          blocks = bs\<rparr>, pages))"

definition groups_free :: "group_info \<Rightarrow> int \<Rightarrow> int" where
  "groups_free gi pages = (if \<not> in_small gi then pages - int (nblocks gi) else pages)"

fun to_user_blocks :: "u32 list \<Rightarrow> nat \<Rightarrow> nat \<Rightarrow> u32 list list \<Rightarrow> (errno + u32 list) option" where
  "to_user_blocks grouplist off cnt [] = Some (Inr grouplist)"
| "to_user_blocks grouplist off cnt (b # bs) =
     (let cp_count = min NGROUPS_PER_BLOCK cnt in
      case rd b 0 cp_count of
        None \<Rightarrow> None
      | Some src \<Rightarrow>
          (case wr grouplist off src of
             None \<Rightarrow> Some (Inl EFAULT)
           | Some grouplist' \<Rightarrow>
               to_user_blocks grouplist' (off + NGROUPS_PER_BLOCK) (cnt - cp_count) bs))"

definition groups_to_user :: "u32 list \<Rightarrow> group_info \<Rightarrow> (errno + u32 list) option" where
  "groups_to_user grouplist gi = to_user_blocks grouplist 0 (ngroups gi) (take (nblocks gi) (blocks gi))"

fun from_user_blocks :: "u32 list \<Rightarrow> nat \<Rightarrow> nat \<Rightarrow> u32 list list
    \<Rightarrow> (errno + u32 list list) option" where
  "from_user_blocks grouplist off cnt [] = Some (Inr [])"
| "from_user_blocks grouplist off cnt (b # bs) =
     (let cp_count = min NGROUPS_PER_BLOCK cnt in
      case rd grouplist off cp_count of
        None \<Rightarrow> Some (Inl EFAULT)
      | Some src \<Rightarrow>
          (case wr b 0 src of
             None \<Rightarrow> None
           | Some b' \<Rightarrow>
               (case from_user_blocks grouplist (off + NGROUPS_PER_BLOCK) (cnt - cp_count) bs of
                  None \<Rightarrow> None
                | Some (Inl e) \<Rightarrow> Some (Inl e)
                | Some (Inr bs') \<Rightarrow> Some (Inr (b' # bs')))))"

definition groups_from_user :: "group_info \<Rightarrow> u32 list \<Rightarrow> (errno + group_info) option" where
  "groups_from_user gi grouplist =
     (case from_user_blocks grouplist 0 (ngroups gi) (take (nblocks gi) (blocks gi)) of
        None \<Rightarrow> None
      | Some (Inl e) \<Rightarrow> Some (Inl e)
      | Some (Inr bs) \<Rightarrow> Some (Inr (gi\<lparr>blocks := bs @ drop (nblocks gi) (blocks gi)\<rparr>)))"

section \<open>Shell sort and binary search\<close>

partial_function (option) sift :: "nat \<Rightarrow> u32 \<Rightarrow> group_info \<Rightarrow> int \<Rightarrow> nat \<Rightarrow> (group_info \<times> nat) option" where
  "sift stride tmp gi left right =
     (if 0 \<le> left then do {
        x \<leftarrow> GROUP_AT gi (nat left);
        if tmp < x then do {
          gi \<leftarrow> set_GROUP_AT gi right x;
          sift stride tmp gi (left - int stride) (nat left)
        } else Some (gi, right)
      } else Some (gi, right))"

fun sort_pass :: "nat \<Rightarrow> nat \<Rightarrow> nat \<Rightarrow> group_info \<Rightarrow> group_info option" where
  "sort_pass stride base 0 gi = Some gi"
| "sort_pass stride base (Suc n) gi = do {
     tmp \<leftarrow> GROUP_AT gi (base + stride);
     (gi, right) \<leftarrow> sift stride tmp gi (int base) (base + stride);
     gi \<leftarrow> set_GROUP_AT gi right tmp;
     sort_pass stride (base + 1) n gi
   }"

function first_stride :: "nat \<Rightarrow> nat \<Rightarrow> nat" where
  "first_stride gidsetsize stride =
     (if stride < gidsetsize then first_stride gidsetsize (3 * stride + 1) else stride)"
  by pat_completeness auto
termination
  by (relation "measure (\<lambda>(n, s). n - s)") auto

fun sort_strides :: "nat \<Rightarrow> group_info \<Rightarrow> group_info option" where
  "sort_strides stride gi =
     (if stride = 0 then Some gi
      else Option.bind (sort_pass stride 0 (ngroups gi - stride) gi) (sort_strides (stride div 3)))"

definition groups_sort :: "group_info \<Rightarrow> group_info option" where
  "groups_sort gi = sort_strides (first_stride (ngroups gi) 1 div 3) gi"

function search_loop :: "group_info \<Rightarrow> u32 \<Rightarrow> nat \<Rightarrow> nat \<Rightarrow> bool option" where
  "search_loop gi grp left right =
     (if left < right then
        let mid = (left + right) div 2 in
        case GROUP_AT gi mid of
          None \<Rightarrow> None
        | Some x \<Rightarrow>
            let cmp = sint (grp - x) in
            if cmp > 0 then search_loop gi grp (mid + 1) right
            else if cmp < 0 then search_loop gi grp left mid
            else Some True
      else Some False)"
  by pat_completeness auto
termination
  by (relation "measure (\<lambda>(gi, grp, l, r). r - l)") auto

definition groups_search :: "group_info option \<Rightarrow> u32 \<Rightarrow> bool option" where
  "groups_search gi grp =
     (case gi of None \<Rightarrow> Some False | Some gi \<Rightarrow> search_loop gi grp 0 (ngroups gi))"

declare first_stride.simps [simp del] sort_strides.simps [simp del] search_loop.simps [simp del]

section \<open>The identifiers as one list\<close>

fun blocks_ok :: "u32 list list \<Rightarrow> bool" where
  "blocks_ok [] = True"
| "blocks_ok [b] = (length b \<le> NGROUPS_PER_BLOCK)"
| "blocks_ok (b # bs) = (length b = NGROUPS_PER_BLOCK \<and> blocks_ok bs)"

definition gids :: "group_info \<Rightarrow> u32 list" where
  "gids gi = take (ngroups gi) (concat (blocks gi))"

definition tight :: "nat \<Rightarrow> u32 list list \<Rightarrow> bool" where
  "tight n bs \<longleftrightarrow> length bs \<le> 1 \<or> (length bs - 1) * NGROUPS_PER_BLOCK < n"

definition wf_gi :: "group_info \<Rightarrow> bool" where
  "wf_gi gi \<longleftrightarrow> blocks_ok (blocks gi) \<and> nblocks gi = length (blocks gi) \<and>
     ngroups gi \<le> length (concat (blocks gi)) \<and> tight (ngroups gi) (blocks gi)"

lemma length_gids [simp]: "wf_gi gi \<Longrightarrow> length (gids gi) = ngroups gi"
  by (simp add: wf_gi_def gids_def)

lemma block_index:
  assumes "blocks_ok bs" "i < length (concat bs)"
  defines "b \<equiv> i div NGROUPS_PER_BLOCK" and "k \<equiv> i mod NGROUPS_PER_BLOCK"
  shows "b < length bs \<and> k < length (bs ! b) \<and> bs ! b ! k = concat bs ! i \<and>
    concat (bs[b := (bs ! b)[k := x]]) = (concat bs)[i := x]"
  using assms(1,2) unfolding b_def k_def
proof (induction bs arbitrary: i rule: blocks_ok.induct)
  case (2 b)
  then have "i < 1024" by (simp add: NGROUPS_PER_BLOCK_def)
  with 2 show ?case by (simp add: NGROUPS_PER_BLOCK_def)
next
  case (3 b c bs)
  show ?case
  proof (cases "i < 1024")
    case True
    with 3(2) show ?thesis by (auto simp: NGROUPS_PER_BLOCK_def nth_append list_update_append)
  next
    case False
    then have e: "i div 1024 = Suc ((i - 1024) div 1024)" "i mod 1024 = (i - 1024) mod 1024"
      using le_div_geq [of 1024 i] le_mod_geq [of 1024 i] by simp_all
    have "i - 1024 < length (concat (c # bs))" using 3(2,3) False by (simp add: NGROUPS_PER_BLOCK_def)
    from 3(1) [OF _ this] 3(2) show ?thesis
      using False by (simp add: NGROUPS_PER_BLOCK_def e nth_append list_update_append del: concat.simps)
         (auto simp: nth_append list_update_append)
  qed
qed simp

lemma blocks_ok_lengths: "map length bs = map length cs \<Longrightarrow> blocks_ok bs = blocks_ok cs"
proof (induction bs arbitrary: cs rule: blocks_ok.induct)
  case (3 a c bs)
  then obtain a' c' bs' where cs: "cs = a' # c' # bs'" by (auto simp: Cons_eq_map_conv)
  with 3 have "blocks_ok (c # bs) = blocks_ok (c' # bs')" by (intro "3.IH") simp
  with 3(2) cs show ?case by simp
qed auto

lemma blocks_ok_update: "blocks_ok bs \<Longrightarrow> blocks_ok (bs[b := (bs ! b)[k := x]])"
  by (erule blocks_ok_lengths [THEN iffD1, rotated], cases "b < length bs")
    (auto intro!: nth_equalityI simp: nth_list_update)

lemma GROUP_AT_gids: "GROUP_AT gi i = Some (gids gi ! i)" if "wf_gi gi" "i < ngroups gi"
  using block_index [of "blocks gi" i] that
  by (auto simp: GROUP_AT_def gids_def wf_gi_def Let_def)

definition with_gids :: "group_info \<Rightarrow> u32 list \<Rightarrow> group_info \<Rightarrow> bool" where
  "with_gids gi xs gi' \<longleftrightarrow> wf_gi gi' \<and> gids gi' = xs \<and> ngroups gi' = ngroups gi \<and>
     nblocks gi' = nblocks gi \<and> gi_usage gi' = gi_usage gi \<and> in_small gi' = in_small gi"

lemma set_GROUP_AT_gids:
  assumes "wf_gi gi" "i < ngroups gi"
  shows "\<exists>gi'. set_GROUP_AT gi i x = Some gi' \<and> with_gids gi ((gids gi)[i := x]) gi'"
  using block_index [of "blocks gi" i x] blocks_ok_update [of "blocks gi"] assms
  by (auto simp: set_GROUP_AT_def gids_def wf_gi_def with_gids_def tight_def Let_def take_update_swap)

lemma with_gids_trans: "with_gids gi xs gi' \<Longrightarrow> with_gids gi' ys gi'' \<Longrightarrow> with_gids gi ys gi''"
  by (simp add: with_gids_def)

lemma with_gidsD:
  assumes "with_gids gi xs gi'"
  shows "wf_gi gi'" "gids gi' = xs" "ngroups gi' = ngroups gi"
  using assms by (simp_all add: with_gids_def)

section \<open>The sort\<close>

definition sorted_but :: "u32 list \<Rightarrow> nat \<Rightarrow> nat \<Rightarrow> u32 \<Rightarrow> bool" where
  "sorted_but xs n r tmp \<longleftrightarrow>
     (\<forall>i j. i < j \<longrightarrow> j < n \<longrightarrow> i \<noteq> r \<longrightarrow> j \<noteq> r \<longrightarrow> xs ! i \<le> xs ! j) \<and>
     (\<forall>j. r < j \<longrightarrow> j < n \<longrightarrow> tmp < xs ! j)"

lemma sorted_but_shift:
  assumes "sorted_but xs n (Suc l) tmp" "tmp < xs ! l" "Suc l < n" "n \<le> length xs"
  shows "sorted_but (xs[Suc l := xs ! l]) n l tmp"
  using assms unfolding sorted_but_def
  by (auto simp: nth_list_update Suc_lessI)

lemma sorted_but_done:
  assumes s: "sorted_but xs n r tmp" "r < n" "n \<le> length xs" and l: "\<And>i. i < r \<Longrightarrow> xs ! i \<le> tmp"
  shows "sorted (take n (xs[r := tmp]))"
  using s l unfolding sorted_but_def sorted_iff_nth_mono_less
  by (auto simp: nth_list_update intro: less_imp_le)

lemma mset_hole: "l < length xs \<Longrightarrow> r < length xs \<Longrightarrow> l \<noteq> r \<Longrightarrow>
   mset (xs[r := xs ! l, l := tmp]) = mset (xs[r := tmp])"
  using mset_swap [of l "xs[r := tmp]" r] by (simp add: list_update_swap)

definition sifted :: "nat \<Rightarrow> u32 \<Rightarrow> group_info \<Rightarrow> nat \<Rightarrow> group_info \<Rightarrow> nat \<Rightarrow> bool" where
  "sifted stride tmp gi right gi' r \<longleftrightarrow> r < ngroups gi \<and> with_gids gi (gids gi') gi' \<and>
    mset ((gids gi')[r := tmp]) = mset ((gids gi)[right := tmp]) \<and>
    (\<forall>n. stride = 1 \<longrightarrow> sorted_but (gids gi) n right tmp \<longrightarrow> right < n \<longrightarrow> n \<le> ngroups gi \<longrightarrow>
       sorted (take n ((gids gi')[r := tmp])))"

lemma sifted_stop:
  assumes "wf_gi gi" "right < ngroups gi" "left = int right - int stride"
    "\<not> (0 \<le> left \<and> tmp < gids gi ! nat left)"
  shows "sifted stride tmp gi right gi right"
proof -
  have "gids gi ! i \<le> tmp"
    if "stride = 1" "sorted_but (gids gi) n right tmp" "right < n" "i < right" for n i
  proof -
    have "gids gi ! i \<le> gids gi ! (right - 1)"
      using that unfolding sorted_but_def by (cases "i = right - 1") auto
    moreover have "nat left = right - 1" "0 \<le> left" using assms(3) that by auto
    ultimately show ?thesis using assms(4) by auto
  qed
  then show ?thesis using assms(1,2)
    unfolding sifted_def by (auto simp: with_gids_def intro!: sorted_but_done)
qed

lemma sifted_step:
  assumes "wf_gi gi" "right < ngroups gi" "0 < stride" "right = l + stride" "tmp < gids gi ! l"
    and g: "with_gids gi ((gids gi)[right := gids gi ! l]) g" and r: "sifted stride tmp g l gi' r"
  shows "sifted stride tmp gi right gi' r"
proof -
  note gD = with_gidsD [OF g]
  have "sorted (take n ((gids gi')[r := tmp]))"
    if "stride = 1" "sorted_but (gids gi) n right tmp" "right < n" "n \<le> ngroups gi" for n
    using sorted_but_shift [of "gids gi" n l tmp] that assms(1-5) r gD by (auto simp: sifted_def)
  moreover have "mset ((gids gi')[r := tmp]) = mset ((gids gi)[right := tmp])"
    using mset_hole [of l "gids gi" right tmp] r gD(2) assms(1-4) by (simp add: sifted_def)
  ultimately show ?thesis
    using r gD(3) with_gids_trans [OF g] by (auto simp: sifted_def)
qed

lemma sift_spec:
  assumes "wf_gi gi" "0 < stride" "right < ngroups gi" "left = int right - int stride"
  shows "\<exists>gi' r. sift stride tmp gi left right = Some (gi', r) \<and> sifted stride tmp gi right gi' r"
  using assms
proof (induction right arbitrary: gi left rule: less_induct)
  case (less right)
  show ?case
  proof (cases "0 \<le> left \<and> tmp < gids gi ! nat left")
    case False
    have "sift stride tmp gi left right = Some (gi, right)"
      using False less.prems by (subst sift.simps) (auto simp: GROUP_AT_gids)
    then show ?thesis using sifted_stop [OF less.prems(1,3,4) False] by blast
  next
    case True
    define l where "l = nat left"
    have l: "l < right" "l < ngroups gi" "right = l + stride" using True less.prems(2-4) by (auto simp: l_def)
    obtain g where g: "set_GROUP_AT gi right (gids gi ! l) = Some g"
      "with_gids gi ((gids gi)[right := gids gi ! l]) g"
      using set_GROUP_AT_gids less.prems by blast
    note gD = with_gidsD [OF g(2)]
    obtain gi' r where r: "sift stride tmp g (int l - int stride) l = Some (gi', r)"
      "sifted stride tmp g l gi' r"
      using less.IH [OF l(1) gD(1) less.prems(2) _ refl] l(2) gD(3) by auto
    have "sift stride tmp gi left right = Some (gi', r)"
      using True g(1) r(1) GROUP_AT_gids [OF less.prems(1) l(2)]
      by (subst sift.simps) (simp add: l_def)
    then show ?thesis
      using sifted_step [OF less.prems(1,3,2) l(3) _ g(2) r(2)] True by (auto simp: l_def)
  qed
qed


lemma sort_pass_step:
  assumes "wf_gi gi" "0 < stride" "base + stride < ngroups gi"
  shows "\<exists>gi'. sort_pass stride base (Suc n) gi = sort_pass stride (base + 1) n gi' \<and>
    with_gids gi (gids gi') gi' \<and> mset (gids gi') = mset (gids gi) \<and>
    (stride = 1 \<longrightarrow> sorted (take (base + 1) (gids gi)) \<longrightarrow> sorted (take (base + 2) (gids gi')))"
proof -
  define tmp where "tmp = gids gi ! (base + stride)"
  obtain g r where g: "sift stride tmp gi (int base) (base + stride) = Some (g, r)"
    "sifted stride tmp gi (base + stride) g r"
    using sift_spec [OF assms(1-3), of "int base" tmp] by auto
  then have w: "with_gids gi (gids g) g" "r < ngroups g" by (auto simp: sifted_def with_gids_def)
  obtain gi' where gi': "set_GROUP_AT g r tmp = Some gi'" "with_gids g ((gids g)[r := tmp]) gi'"
    using set_GROUP_AT_gids [OF with_gidsD(1) [OF w(1)] w(2)] by blast
  note D = with_gidsD [OF gi'(2)]
  have "sort_pass stride base (Suc n) gi = sort_pass stride (base + 1) n gi'"
    using g(1) gi'(1) GROUP_AT_gids [OF assms(1,3)] by (simp add: tmp_def)
  moreover have "mset (gids gi') = mset (gids gi)"
    using g(2) D(2) by (simp add: sifted_def tmp_def)
  moreover have "sorted (take (base + 2) (gids gi'))"
    if "stride = 1" "sorted (take (base + 1) (gids gi))"
  proof -
    have "sorted_but (gids gi) (base + 2) (base + stride) tmp"
      using that assms by (auto simp: sorted_but_def sorted_iff_nth_mono_less)
    then show ?thesis using g(2) D(2) that(1) assms(3) by (simp add: sifted_def)
  qed
  ultimately show ?thesis using with_gids_trans [OF w(1) gi'(2)] D(2) by auto
qed

lemma sort_pass_spec:
  assumes "wf_gi gi" "0 < stride" "n = 0 \<or> base + stride + n \<le> ngroups gi"
  shows "\<exists>gi'. sort_pass stride base n gi = Some gi' \<and>
    with_gids gi (gids gi') gi' \<and> mset (gids gi') = mset (gids gi) \<and>
    (stride = 1 \<longrightarrow> sorted (take (base + 1) (gids gi)) \<longrightarrow> sorted (take (base + 1 + n) (gids gi')))"
  using assms
proof (induction n arbitrary: base gi)
  case 0
  then show ?case by (auto simp: with_gids_def)
next
  case (Suc n)
  obtain g where g: "sort_pass stride base (Suc n) gi = sort_pass stride (base + 1) n g"
    "with_gids gi (gids g) g" "mset (gids g) = mset (gids gi)"
    "stride = 1 \<longrightarrow> sorted (take (base + 1) (gids gi)) \<longrightarrow> sorted (take (base + 2) (gids g))"
    using sort_pass_step [of gi stride base n] Suc.prems by auto
  note D = with_gidsD [OF g(2)]
  obtain gi' where "sort_pass stride (base + 1) n g = Some gi'" "with_gids g (gids gi') gi'"
    "mset (gids gi') = mset (gids g)"
    "stride = 1 \<longrightarrow> sorted (take (base + 1 + 1) (gids g)) \<longrightarrow> sorted (take (base + 1 + 1 + n) (gids gi'))"
    using Suc.IH [OF D(1) Suc.prems(2), of "base + 1"] Suc.prems(3) D(3) by auto
  then show ?case
    using g with_gids_trans [OF g(2)] by (intro exI [of _ gi']) (auto simp: numeral_2_eq_2 simp del: sort_pass.simps)
qed

text \<open>The strides are the numbers 1, 4, 13, 40 and so on: dividing by three ends with a stride of one.\<close>

inductive knuth :: "nat \<Rightarrow> bool" where
  knuth_1: "knuth 1"
| knuth_step: "knuth s \<Longrightarrow> knuth (3 * s + 1)"

lemma knuth_first_stride: "knuth s \<Longrightarrow> knuth (first_stride n s) \<and> n \<le> first_stride n s"
proof (induction n s rule: first_stride.induct)
  case (1 n s)
  then show ?case using knuth_step [of s] by (subst (1 2) first_stride.simps) auto
qed

lemma sort_strides_knuth:
  "sort_strides (3 * s + 1) gi =
     Option.bind (sort_pass (3 * s + 1) 0 (ngroups gi - (3 * s + 1)) gi) (sort_strides s)"
proof -
  have "(3 * s + 1) div 3 = s" by presburger
  then show ?thesis by (subst sort_strides.simps) simp
qed

lemma sort_strides_1: "sort_strides 1 gi = sort_pass 1 0 (ngroups gi - 1) gi"
  by (subst sort_strides.simps)
    (cases "sort_pass 1 0 (ngroups gi - 1) gi"; simp add: sort_strides.simps [of 0])

lemma sort_pass_whole:
  assumes "wf_gi gi" "0 < stride"
  shows "\<exists>gi'. sort_pass stride 0 (ngroups gi - stride) gi = Some gi' \<and>
    with_gids gi (gids gi') gi' \<and> mset (gids gi') = mset (gids gi) \<and>
    (stride = 1 \<longrightarrow> sorted (gids gi'))"
proof -
  have n: "ngroups gi - stride = 0 \<or> 0 + stride + (ngroups gi - stride) \<le> ngroups gi" by linarith
  have "sorted (take (0 + 1) (gids gi))" by (cases "gids gi") auto
  with sort_pass_spec [OF assms n] show ?thesis by (fastforce simp: with_gids_def)
qed

lemma sort_strides_spec:
  assumes "knuth s" "wf_gi gi"
  shows "\<exists>gi'. sort_strides s gi = Some gi' \<and> with_gids gi (gids gi') gi' \<and>
    mset (gids gi') = mset (gids gi) \<and> sorted (gids gi')"
  using assms
proof (induction arbitrary: gi)
  case knuth_1
  then show ?case using sort_pass_whole [of gi 1] unfolding sort_strides_1 by simp
next
  case (knuth_step s)
  obtain g where g: "sort_pass (3 * s + 1) 0 (ngroups gi - (3 * s + 1)) gi = Some g"
    "with_gids gi (gids g) g" "mset (gids g) = mset (gids gi)"
    using sort_pass_whole [OF knuth_step.prems, of "3 * s + 1"] by (metis add_gr_0 zero_less_one)
  obtain gi' where gi': "sort_strides s g = Some gi'" "with_gids g (gids gi') gi'"
    "mset (gids gi') = mset (gids g)" "sorted (gids gi')"
    using knuth_step.IH [OF with_gidsD(1) [OF g(2)]] by blast
  have "sort_strides (3 * s + 1) gi = Some gi'" unfolding sort_strides_knuth g(1) using gi'(1) by simp
  then show ?case using with_gids_trans [OF g(2) gi'(2)] gi'(3,4) g(3) by metis
qed

lemma groups_sort_spec:
  assumes "wf_gi gi"
  shows "\<exists>gi'. groups_sort gi = Some gi' \<and> with_gids gi (gids gi') gi' \<and> gids gi' = sort (gids gi)"
proof (cases "ngroups gi \<le> 1")
  case True
  then have "length (gids gi) \<le> 1" using assms by simp
  then have "sorted (gids gi)" by (cases "gids gi"; cases "tl (gids gi)") auto
  then show ?thesis using True assms
    by (auto simp: groups_sort_def first_stride.simps sort_strides.simps with_gids_def sorted_sort_id)
next
  case False
  obtain s where "knuth s" "first_stride (ngroups gi) 1 div 3 = s"
    using knuth_first_stride [OF knuth_1, of "ngroups gi"] False
    by (auto elim: knuth.cases)
  then show ?thesis
    using sort_strides_spec [OF _ assms, of s]
    by (metis groups_sort_def properties_for_sort)
qed

section \<open>The search\<close>

text \<open>
  The search compares by the sign of an \<open>int\<close> difference, the sort by the order of \<open>gid_t\<close>.  The two
  orders agree below \<open>2 ^ 31\<close>.
\<close>

lemma sint_diff:
  assumes "a < 0x80000000" "b < (0x80000000 :: u32)"
  shows "sint (a - b) = uint a - uint b"
proof -
  have u: "uint a < 2147483648" "uint b < 2147483648" using assms by (simp_all add: word_less_def)
  have "sint a = uint a" "sint b = uint b" using assms by (simp_all add: sint_u32 word_less_nat_alt)
  then have "sint (a - b) = signed_take_bit 31 (uint a - uint b)" by (simp add: sint_word_ariths)
  moreover have "- 2147483648 \<le> uint a - uint b" using u(2) uint_ge_0 [of a] by linarith
  moreover have "uint a - uint b < 2147483648" using u(1) uint_ge_0 [of b] by linarith
  ultimately show ?thesis by (simp add: signed_take_bit_int_eq_self_iff)
qed

definition gids31 :: "group_info \<Rightarrow> bool" where
  "gids31 gi \<longleftrightarrow> (\<forall>x \<in> set (gids gi). x < 0x80000000)"

lemma sorted_index_less:
  "sorted xs \<Longrightarrow> i < length xs \<Longrightarrow> m < length xs \<Longrightarrow> xs ! m < xs ! i \<Longrightarrow> m < i"
  by (metis leD not_le_imp_less sorted_nth_mono)

lemma search_loop_spec:
  assumes "wf_gi gi" "sorted (gids gi)" "right \<le> ngroups gi" "gids31 gi" "grp < 0x80000000"
  shows "search_loop gi grp left right = Some (\<exists>i. left \<le> i \<and> i < right \<and> gids gi ! i = grp)"
  using assms
proof (induction gi grp left right rule: search_loop.induct)
  case (1 gi grp left right)
  note prems = 1(3-7)
  show ?case
  proof (cases "left < right")
    case True
    define mid where "mid = (left + right) div 2"
    have mid: "left \<le> mid" "mid < right" "mid < ngroups gi" using True 1(5) by (auto simp: mid_def)
    have at: "GROUP_AT gi mid = Some (gids gi ! mid)" using GROUP_AT_gids [OF 1(3) mid(3)] .
    have "gids gi ! mid < 0x80000000" using 1(3,6) mid(3) by (simp add: gids31_def)
    from sint_diff [OF 1(7) this]
    have c: "sint (grp - gids gi ! mid) > 0 \<longleftrightarrow> gids gi ! mid < grp"
      "sint (grp - gids gi ! mid) < 0 \<longleftrightarrow> grp < gids gi ! mid"
      by (simp_all add: word_less_def)
    note IH = 1(1) [OF True mid_def at refl] 1(2) [OF True mid_def at refl]
    note step = search_loop.simps [of gi grp left right, folded mid_def]
    consider "gids gi ! mid < grp" | "grp < gids gi ! mid" | "gids gi ! mid = grp" by fastforce
    then show ?thesis
    proof cases
      case 1
      have "i < right \<and> gids gi ! i = grp \<Longrightarrow> left \<le> i \<longleftrightarrow> mid + 1 \<le> i" for i
        using sorted_index_less [OF \<open>sorted (gids gi)\<close>, of i mid] 1 mid prems by auto
      then show ?thesis using IH(1) 1 c at True prems by (subst step) auto
    next
      case 2
      have "i < right \<and> gids gi ! i = grp \<Longrightarrow> i < mid" for i
        using sorted_index_less [OF \<open>sorted (gids gi)\<close>, of mid i] 2 mid prems by auto
      then show ?thesis using IH(2) 2 c at True prems mid by (subst step) auto
    next
      case 3
      then show ?thesis using at True mid by (subst step) auto
    qed
  next
    case False
    then show ?thesis by (subst search_loop.simps) auto
  qed
qed

lemma groups_search_spec:
  assumes "wf_gi gi" "sorted (gids gi)" "gids31 gi" "grp < 0x80000000"
  shows "groups_search (Some gi) grp = Some (grp \<in> set (gids gi))"
  using search_loop_spec [OF assms(1,2) order_refl assms(3,4), of 0] assms(1)
  by (auto simp: groups_search_def in_set_conv_nth)


section \<open>The copies\<close>

lemma blocks_ok_Cons:
  "blocks_ok (b # bs) \<longleftrightarrow> length b \<le> NGROUPS_PER_BLOCK \<and> (bs \<noteq> [] \<longrightarrow> length b = NGROUPS_PER_BLOCK \<and> blocks_ok bs)"
  by (cases bs) auto

lemma tight_Cons:
  assumes "tight n (b # bs)" "bs \<noteq> []"
  shows "NGROUPS_PER_BLOCK < n" "tight (n - NGROUPS_PER_BLOCK) bs"
proof -
  have l: "length (b # bs) - 1 = Suc (length bs - 1)" using assms(2) by simp
  have "Suc (length bs - 1) * NGROUPS_PER_BLOCK < n"
    using assms unfolding tight_def l by simp
  then have "NGROUPS_PER_BLOCK + (length bs - 1) * NGROUPS_PER_BLOCK < n" by simp
  then show "NGROUPS_PER_BLOCK < n" "tight (n - NGROUPS_PER_BLOCK) bs"
    unfolding tight_def by linarith+
qed

lemma from_user_spec:
  assumes "blocks_ok bs" "tight cnt bs" "cnt \<le> length (concat bs)" "bs \<noteq> []"
  shows "if off + cnt \<le> length ul
    then \<exists>bs'. from_user_blocks ul off cnt bs = Some (Inr bs') \<and> map length bs' = map length bs \<and>
           take cnt (concat bs') = take cnt (drop off ul)
    else from_user_blocks ul off cnt bs = Some (Inl EFAULT)"
  using assms
proof (induction bs arbitrary: off cnt)
  case (Cons b bs)
  show ?case
  proof (cases "bs = []")
    case True
    then have "min NGROUPS_PER_BLOCK cnt = cnt" using Cons.prems by simp
    then show ?thesis using True Cons.prems by (auto simp: rd_def wr_def)
  next
    case False
    note t = tight_Cons [OF Cons.prems(2) False]
    have b: "length b = NGROUPS_PER_BLOCK" "blocks_ok bs" using Cons.prems(1) False by (simp_all add: blocks_ok_Cons)
    have m: "min NGROUPS_PER_BLOCK cnt = NGROUPS_PER_BLOCK" using t(1) by simp
    have c: "cnt - NGROUPS_PER_BLOCK \<le> length (concat bs)" using Cons.prems(3) b(1) by simp
    have e: "off + NGROUPS_PER_BLOCK + (cnt - NGROUPS_PER_BLOCK) = off + cnt" using t(1) by simp
    have w: "off + NGROUPS_PER_BLOCK \<le> length ul \<Longrightarrow>
        wr b 0 (take NGROUPS_PER_BLOCK (drop off ul)) = Some (take NGROUPS_PER_BLOCK (drop off ul))"
      using b(1) by (simp add: wr_def)
    note IH = Cons.IH [OF b(2) t(2) c False, of "off + NGROUPS_PER_BLOCK", unfolded e]
    show ?thesis
    proof (cases "off + cnt \<le> length ul")
      case True
      then obtain bs' where bs': "from_user_blocks ul (off + NGROUPS_PER_BLOCK) (cnt - NGROUPS_PER_BLOCK) bs = Some (Inr bs')"
        "map length bs' = map length bs"
        "take (cnt - NGROUPS_PER_BLOCK) (concat bs') = take (cnt - NGROUPS_PER_BLOCK) (drop (off + NGROUPS_PER_BLOCK) ul)"
        using IH by auto
      have "from_user_blocks ul off cnt (b # bs) = Some (Inr (take NGROUPS_PER_BLOCK (drop off ul) # bs'))"
        using True t(1) w bs'(1) by (simp add: m rd_def)
      moreover have "take cnt (drop off ul) = take NGROUPS_PER_BLOCK (drop off ul) @
          take (cnt - NGROUPS_PER_BLOCK) (drop (off + NGROUPS_PER_BLOCK) ul)"
        using take_add [of NGROUPS_PER_BLOCK "cnt - NGROUPS_PER_BLOCK" "drop off ul"] t(1) by (simp add: add.commute)
      ultimately show ?thesis using True bs' b(1) t(1) by (simp add: min_absorb2)
    next
      case False
      then show ?thesis using IH w by (simp add: m rd_def)
    qed
  qed
qed simp

lemma to_user_spec:
  assumes "blocks_ok bs" "tight cnt bs" "cnt \<le> length (concat bs)" "bs \<noteq> []"
  shows "to_user_blocks ub off cnt bs =
    Some (if off + cnt \<le> length ub
          then Inr (take off ub @ take cnt (concat bs) @ drop (off + cnt) ub) else Inl EFAULT)"
  using assms
proof (induction bs arbitrary: ub off cnt)
  case (Cons b bs)
  show ?case
  proof (cases "bs = []")
    case True
    then have "min NGROUPS_PER_BLOCK cnt = cnt" using Cons.prems by simp
    then show ?thesis using True Cons.prems by (auto simp: rd_def wr_def)
  next
    case False
    note t = tight_Cons [OF Cons.prems(2) False]
    have b: "length b = NGROUPS_PER_BLOCK" "blocks_ok bs" using Cons.prems(1) False by (simp_all add: blocks_ok_Cons)
    have m: "min NGROUPS_PER_BLOCK cnt = NGROUPS_PER_BLOCK" using t(1) by simp
    have c: "cnt - NGROUPS_PER_BLOCK \<le> length (concat bs)" using Cons.prems(3) b(1) by simp
    have e: "off + NGROUPS_PER_BLOCK + (cnt - NGROUPS_PER_BLOCK) = off + cnt" using t(1) by simp
    note IH = Cons.IH [OF b(2) t(2) c False, of _ "off + NGROUPS_PER_BLOCK", unfolded e]
    show ?thesis using t(1) b(1) by (auto simp: m rd_def wr_def IH add.commute [of cnt])
  qed
qed simp

section \<open>Allocation\<close>

definition pages_of :: "group_info \<Rightarrow> int" where
  "pages_of gi = (if in_small gi then 0 else int (nblocks gi))"

lemma undo_partial_alloc_eq: "undo_partial_alloc i pages = pages - int i"
  by (induction i arbitrary: pages) auto

lemma alloc_blocks_spec:
  "case alloc_blocks pg i n bs pages of
     (None, pages') \<Rightarrow> pages' = pages - int i
   | (Some bs', pages') \<Rightarrow> pages' = pages + int n \<and>
       (\<exists>cs. bs' = bs @ cs \<and> length cs = n \<and> (\<forall>c \<in> set cs. length c = NGROUPS_PER_BLOCK))"
proof (induction pg i n bs pages rule: alloc_blocks.induct)
  case (2 pg i n bs pages)
  show ?case
  proof (cases "pg i")
    case (Some f)
    from 2 [OF this] show ?thesis using Some
      by (fastforce split: prod.splits option.splits)
  qed (simp add: undo_partial_alloc_eq)
qed simp

lemma blocks_ok_pages: "\<forall>c \<in> set cs. length c = NGROUPS_PER_BLOCK \<Longrightarrow> blocks_ok cs"
  by (induction cs) (auto simp: blocks_ok_Cons)

lemma length_concat_pages:
  "\<forall>c \<in> set cs. length c = NGROUPS_PER_BLOCK \<Longrightarrow> length (concat cs) = length cs * NGROUPS_PER_BLOCK"
  by (induction cs) auto

lemma nblocks_bounds:
  fixes n :: nat
  assumes "0 < n"
  defines "nb \<equiv> (n + NGROUPS_PER_BLOCK - 1) div NGROUPS_PER_BLOCK"
  shows "0 < nb" "n \<le> nb * NGROUPS_PER_BLOCK" "(nb - 1) * NGROUPS_PER_BLOCK < n"
proof -
  have d: "nb * 1024 + (n + 1023) mod 1024 = n + 1023"
    using div_mult_mod_eq [of "n + 1023" 1024] by (simp add: nb_def NGROUPS_PER_BLOCK_def add.commute)
  have m: "(n + 1023) mod 1024 < 1024" by simp
  from d m assms(1) show nb: "0 < nb" by linarith
  from d m nb show "n \<le> nb * NGROUPS_PER_BLOCK" "(nb - 1) * NGROUPS_PER_BLOCK < n"
    unfolding NGROUPS_PER_BLOCK_def by (linarith, simp add: diff_mult_distrib)
qed

lemma groups_alloc_spec:
  assumes "groups_alloc km pg n pages = (r, pages')"
  shows "case r of None \<Rightarrow> pages' = pages
    | Some gi \<Rightarrow> wf_gi gi \<and> blocks gi \<noteq> [] \<and> ngroups gi = n \<and> gi_usage gi = 1 \<and>
        pages' = pages + pages_of gi"
proof (cases km)
  case (Some small)
  show ?thesis
  proof (cases "n \<le> NGROUPS_SMALL")
    case True
    then have "(n + NGROUPS_PER_BLOCK - 1) div NGROUPS_PER_BLOCK \<le> 1"
      unfolding NGROUPS_SMALL_def NGROUPS_PER_BLOCK_def by (simp add: less_Suc_eq_le [symmetric] div_less_iff_less_mult)
    with assms True Some show ?thesis
      by (auto simp: groups_alloc_def wf_gi_def tight_def pages_of_def NGROUPS_SMALL_def
          NGROUPS_PER_BLOCK_def Let_def)
  next
    case False
    define nb where "nb = (n + NGROUPS_PER_BLOCK - 1) div NGROUPS_PER_BLOCK"
    have n: "0 < n" using False by simp
    note nb = nblocks_bounds [OF n, folded nb_def]
    obtain bo pages1 where al: "alloc_blocks pg 0 nb [] pages = (bo, pages1)" by fastforce
    note spec = alloc_blocks_spec [where pg = pg and i = 0 and n = nb and bs = "[]" and pages = pages, unfolded al]
    have ga: "groups_alloc km pg n pages = (case bo of None \<Rightarrow> (None, pages1)
        | Some bs \<Rightarrow> (Some \<lparr>gi_usage = 1, ngroups = n, nblocks = nb, in_small = False, blocks = bs\<rparr>, pages1))"
      unfolding groups_alloc_def Let_def nb_def [symmetric] using False Some nb(1) al
      by (cases bo) simp_all
    show ?thesis
    proof (cases bo)
      case None
      then show ?thesis using ga assms spec by auto
    next
      case (Some bs)
      then have bs: "length bs = nb" "\<forall>c \<in> set bs. length c = NGROUPS_PER_BLOCK" "pages1 = pages + int nb"
        using spec by auto
      then show ?thesis using ga assms Some nb length_concat_pages [OF bs(2)] blocks_ok_pages [OF bs(2)]
        by (auto simp: wf_gi_def tight_def pages_of_def simp flip: length_greater_0_conv)
    qed
  qed
qed (use assms in \<open>auto simp: groups_alloc_def\<close>)

text \<open>A list filled from user space holds the first \<open>ngroups\<close> identifiers of the user's array.\<close>

lemma groups_from_user_spec:
  assumes "wf_gi gi" "blocks gi \<noteq> []"
  shows "if ngroups gi \<le> length ul
    then \<exists>gi'. groups_from_user gi ul = Some (Inr gi') \<and> with_gids gi (take (ngroups gi) ul) gi'
    else groups_from_user gi ul = Some (Inl EFAULT)"
proof -
  have w: "blocks_ok (blocks gi)" "tight (ngroups gi) (blocks gi)" "ngroups gi \<le> length (concat (blocks gi))"
    "nblocks gi = length (blocks gi)"
    using assms(1) by (auto simp: wf_gi_def)
  note f = from_user_spec [OF w(1-3) assms(2), of 0 ul]
  show ?thesis
  proof (cases "ngroups gi \<le> length ul")
    case True
    then obtain bs where bs: "from_user_blocks ul 0 (ngroups gi) (blocks gi) = Some (Inr bs)"
      "map length bs = map length (blocks gi)" "take (ngroups gi) (concat bs) = take (ngroups gi) ul"
      using f by auto
    then have "blocks_ok bs" "length bs = length (blocks gi)" "length (concat bs) = length (concat (blocks gi))"
      using blocks_ok_lengths [OF bs(2)] w(1) map_eq_imp_length_eq [OF bs(2)] by (auto simp: length_concat)
    then show ?thesis using True bs w
      by (auto simp: groups_from_user_def with_gids_def wf_gi_def gids_def tight_def)
  qed (use f w(4) in \<open>simp add: groups_from_user_def\<close>)
qed

lemma groups_to_user_spec:
  assumes "wf_gi gi"
  shows "groups_to_user ub gi =
    Some (if ngroups gi \<le> length ub then Inr (gids gi @ drop (ngroups gi) ub) else Inl EFAULT)"
proof (cases "blocks gi = []")
  case True
  then show ?thesis using assms by (simp add: groups_to_user_def gids_def wf_gi_def)
next
  case False
  then show ?thesis using assms to_user_spec [OF _ _ _ False, of "ngroups gi" ub 0]
    by (simp add: groups_to_user_def wf_gi_def gids_def)
qed


end
