(* ===== verification/Group_Creds.thy ===== *)
theory Group_Creds
  imports Group_Lists
begin

text \<open>
  Credentials and the group lists they share: reference counts of \<open>struct cred\<close> and
  \<open>struct group_info\<close> (\<open>kernel/cred.c\<close>, \<open>include/linux/cred.h\<close>) and the system calls
  \<open>setgroups\<close> and \<open>getgroups\<close> of \<open>kernel/groups.c\<close>.  Both kinds of object live in a store: a list
  in which a freed object is \<open>None\<close>.  A task is represented by the address of its credentials,
  which \<open>real_cred\<close> and \<open>cred\<close> both hold (\<open>override_creds\<close> is not modelled).  An access to a freed
  object and a failed \<open>BUG_ON\<close> are the value \<open>None\<close>.  The RCU callback that disposes of unused
  credentials runs at once.
\<close>

section \<open>The stores\<close>

record cred =
  cr_usage :: int
  fsuid :: u32
  fsgid :: u32
  egid :: u32
  cr_group_info :: nat

record cstate =
  creds :: "cred option list"
  infos :: "group_info option list"
  pages :: int
  tasks :: "nat option list"

definition at :: "'a option list \<Rightarrow> nat \<Rightarrow> 'a option" where
  "at xs i = (if i < length xs then xs ! i else None)"

definition init_cred :: cred where
  "init_cred = \<lparr>cr_usage = 4, fsuid = 0, fsgid = 0, egid = 0, cr_group_info = 0\<rparr>"

definition init_state :: cstate where
  "init_state = \<lparr>creds = [Some init_cred], infos = [Some init_groups], pages = 0, tasks = [Some 0]\<rparr>"

section \<open>Reference counts\<close>

definition get_group_info :: "nat \<Rightarrow> cstate \<Rightarrow> cstate option" where
  "get_group_info a st = do {
     gi \<leftarrow> at (infos st) a;
     Some (st\<lparr>infos := (infos st)[a := Some (gi\<lparr>gi_usage := gi_usage gi + 1\<rparr>)]\<rparr>)
   }"

definition put_group_info :: "nat \<Rightarrow> cstate \<Rightarrow> cstate option" where
  "put_group_info a st = do {
     gi \<leftarrow> at (infos st) a;
     let gi = gi\<lparr>gi_usage := gi_usage gi - 1\<rparr>;
     if gi_usage gi = 0
     then Some (st\<lparr>infos := (infos st)[a := None], pages := groups_free gi (pages st)\<rparr>)
     else Some (st\<lparr>infos := (infos st)[a := Some gi]\<rparr>)
   }"

definition get_cred :: "nat \<Rightarrow> cstate \<Rightarrow> cstate option" where
  "get_cred c st = do {
     cr \<leftarrow> at (creds st) c;
     Some (st\<lparr>creds := (creds st)[c := Some (cr\<lparr>cr_usage := cr_usage cr + 1\<rparr>)]\<rparr>)
   }"

definition put_cred_rcu :: "nat \<Rightarrow> cstate \<Rightarrow> cstate option" where
  "put_cred_rcu c st = do {
     cr \<leftarrow> at (creds st) c;
     if cr_usage cr \<noteq> 0 then None
     else do {
       st \<leftarrow> put_group_info (cr_group_info cr) st;
       Some (st\<lparr>creds := (creds st)[c := None]\<rparr>)
     }
   }"

definition put_cred_uu :: "nat \<Rightarrow> nat \<Rightarrow> cstate \<Rightarrow> cstate option" where
  "put_cred_uu current c st = do {
     cr \<leftarrow> at (creds st) c;
     if cr_usage cr \<noteq> 0 \<or> at (tasks st) current = Some c then None else put_cred_rcu c st
   }"

definition put_cred :: "nat \<Rightarrow> nat \<Rightarrow> cstate \<Rightarrow> cstate option" where
  "put_cred current c st = do {
     cr \<leftarrow> at (creds st) c;
     let cr = cr\<lparr>cr_usage := cr_usage cr - 1\<rparr>;
     let st = st\<lparr>creds := (creds st)[c := Some cr]\<rparr>;
     if cr_usage cr = 0 then put_cred_uu current c st else Some st
   }"

section \<open>Preparing, committing and sharing credentials\<close>

datatype prepare_outcome = Prepared | No_Memory | Security_Refused

definition abort_creds :: "nat \<Rightarrow> nat \<Rightarrow> cstate \<Rightarrow> cstate option" where
  "abort_creds current new st = do {
     cr \<leftarrow> at (creds st) new;
     if cr_usage cr < 1 then None else put_cred current new st
   }"

definition prepare_creds :: "prepare_outcome \<Rightarrow> nat \<Rightarrow> cstate \<Rightarrow> (nat option \<times> cstate) option" where
  "prepare_creds p current st =
     (if p = No_Memory then Some (None, st)
      else do {
        c \<leftarrow> at (tasks st) current;
        old \<leftarrow> at (creds st) c;
        let new = length (creds st);
        let st = st\<lparr>creds := creds st @ [Some (old\<lparr>cr_usage := 1\<rparr>)]\<rparr>;
        st \<leftarrow> get_group_info (cr_group_info old) st;
        if p = Security_Refused
        then do { st \<leftarrow> abort_creds current new st; Some (None, st) }
        else Some (Some new, st)
      })"

definition commit_creds :: "nat \<Rightarrow> nat \<Rightarrow> cstate \<Rightarrow> cstate option" where
  "commit_creds current new st = do {
     old \<leftarrow> at (tasks st) current;
     cr \<leftarrow> at (creds st) new;
     if cr_usage cr < 1 then None
     else do {
       st \<leftarrow> get_cred new st;
       let st = st\<lparr>tasks := (tasks st)[current := Some new]\<rparr>;
       st \<leftarrow> put_cred current old st;
       put_cred current old st
     }
   }"

definition create_user_ns :: "bool \<Rightarrow> nat \<Rightarrow> cstate \<Rightarrow> (errno option \<times> cstate) option" where
  "create_user_ns allocated new st =
     (if \<not> allocated then Some (Some ENOMEM, st)
      else do {
        cr \<leftarrow> at (creds st) new;
        st \<leftarrow> put_group_info (cr_group_info cr) st;
        st \<leftarrow> get_group_info 0 st;
        Some (None, st\<lparr>creds := (creds st)[new :=
          Some (cr\<lparr>fsuid := 0, egid := 0, fsgid := 0, cr_group_info := 0\<rparr>)]\<rparr>)
      })"

text \<open>
  \<open>share\<close> stands for \<open>CLONE_THREAD\<close> with no thread keyring, \<open>newuser\<close> for the outcome of the
  allocations of \<open>create_user_ns\<close> when \<open>CLONE_NEWUSER\<close> is set, and \<open>tgcred\<close> for that of the
  thread group's keyring record.
\<close>

definition copy_creds :: "bool \<Rightarrow> prepare_outcome \<Rightarrow> bool option \<Rightarrow> bool \<Rightarrow> nat \<Rightarrow> cstate
    \<Rightarrow> (errno option \<times> cstate) option" where
  "copy_creds share p newuser tgcred current st =
     (if share then do {
        c \<leftarrow> at (tasks st) current;
        st \<leftarrow> get_cred c st;
        st \<leftarrow> get_cred c st;
        Some (None, st\<lparr>tasks := tasks st @ [Some c]\<rparr>)
      } else do {
        (new, st) \<leftarrow> prepare_creds p current st;
        case new of
          None \<Rightarrow> Some (Some ENOMEM, st)
        | Some new \<Rightarrow> do {
            (ret, st) \<leftarrow> (case newuser of None \<Rightarrow> Some (None, st)
                          | Some allocated \<Rightarrow> create_user_ns allocated new st);
            let ret = (if ret = None \<and> \<not> tgcred then Some ENOMEM else ret);
            case ret of
              Some e \<Rightarrow> do { st \<leftarrow> put_cred current new st; Some (Some e, st) }
            | None \<Rightarrow> do {
                st \<leftarrow> get_cred new st;
                Some (None, st\<lparr>tasks := tasks st @ [Some new]\<rparr>)
              }
          }
      })"

definition exit_creds :: "nat \<Rightarrow> nat \<Rightarrow> cstate \<Rightarrow> cstate option" where
  "exit_creds current tsk st = do {
     c \<leftarrow> at (tasks st) tsk;
     let st = st\<lparr>tasks := (tasks st)[tsk := None]\<rparr>;
     st \<leftarrow> put_cred current c st;
     put_cred current c st
   }"

section \<open>The group system calls\<close>

definition set_groups :: "nat \<Rightarrow> nat \<Rightarrow> cstate \<Rightarrow> cstate option" where
  "set_groups new a st = do {
     cr \<leftarrow> at (creds st) new;
     st \<leftarrow> put_group_info (cr_group_info cr) st;
     gi \<leftarrow> at (infos st) a;
     gi \<leftarrow> groups_sort gi;
     let st = st\<lparr>infos := (infos st)[a := Some gi]\<rparr>;
     st \<leftarrow> get_group_info a st;
     Some (st\<lparr>creds := (creds st)[new := Some (cr\<lparr>cr_group_info := a\<rparr>)]\<rparr>)
   }"

definition set_current_groups :: "prepare_outcome \<Rightarrow> nat \<Rightarrow> nat \<Rightarrow> cstate
    \<Rightarrow> (errno option \<times> cstate) option" where
  "set_current_groups p current a st = do {
     (new, st) \<leftarrow> prepare_creds p current st;
     case new of
       None \<Rightarrow> Some (Some ENOMEM, st)
     | Some new \<Rightarrow> do {
         st \<leftarrow> set_groups new a st;
         st \<leftarrow> commit_creds current new st;
         Some (None, st)
       }
   }"

definition setgroups :: "bool \<Rightarrow> fill option \<Rightarrow> (nat \<Rightarrow> fill option) \<Rightarrow> prepare_outcome \<Rightarrow> nat
    \<Rightarrow> u32 \<Rightarrow> u32 list \<Rightarrow> cstate \<Rightarrow> (errno option \<times> cstate) option" where
  "setgroups capable km pg p current gidsetsize grouplist st =
     (if \<not> capable then Some (Some EPERM, st)
      else if NGROUPS_MAX < unat gidsetsize then Some (Some EINVAL, st)
      else case groups_alloc km pg (unat gidsetsize) (pages st) of
        (None, pgs) \<Rightarrow> Some (Some ENOMEM, st\<lparr>pages := pgs\<rparr>)
      | (Some gi, pgs) \<Rightarrow> do {
          let a = length (infos st);
          let st = st\<lparr>pages := pgs, infos := infos st @ [Some gi]\<rparr>;
          retval \<leftarrow> groups_from_user gi grouplist;
          case retval of
            Inl e \<Rightarrow> do { st \<leftarrow> put_group_info a st; Some (Some e, st) }
          | Inr gi \<Rightarrow> do {
              (retval, st) \<leftarrow> set_current_groups p current a (st\<lparr>infos := (infos st)[a := Some gi]\<rparr>);
              st \<leftarrow> put_group_info a st;
              Some (retval, st)
            }
        })"

definition current_groups :: "nat \<Rightarrow> cstate \<Rightarrow> (cred \<times> group_info) option" where
  "current_groups current st = do {
     c \<leftarrow> at (tasks st) current;
     cr \<leftarrow> at (creds st) c;
     gi \<leftarrow> at (infos st) (cr_group_info cr);
     Some (cr, gi)
   }"

definition getgroups :: "nat \<Rightarrow> int \<Rightarrow> u32 list \<Rightarrow> cstate \<Rightarrow> (errno + int \<times> u32 list) option" where
  "getgroups current gidsetsize grouplist st =
     (if gidsetsize < 0 then Some (Inl EINVAL)
      else do {
        (cr, gi) \<leftarrow> current_groups current st;
        let i = int (ngroups gi);
        if gidsetsize \<noteq> 0 then
          if gidsetsize < i then Some (Inl EINVAL)
          else do {
            r \<leftarrow> groups_to_user grouplist gi;
            case r of Inl _ \<Rightarrow> Some (Inl EFAULT) | Inr grouplist \<Rightarrow> Some (Inr (i, grouplist))
          }
        else Some (Inr (i, grouplist))
      })"

definition in_group_p :: "nat \<Rightarrow> cstate \<Rightarrow> u32 \<Rightarrow> bool option" where
  "in_group_p current st grp = do {
     (cr, gi) \<leftarrow> current_groups current st;
     if grp \<noteq> fsgid cr then groups_search (Some gi) grp else Some True
   }"

definition in_egroup_p :: "nat \<Rightarrow> cstate \<Rightarrow> u32 \<Rightarrow> bool option" where
  "in_egroup_p current st grp = do {
     (cr, gi) \<leftarrow> current_groups current st;
     if grp \<noteq> egid cr then groups_search (Some gi) grp else Some True
   }"

section \<open>Accounting for the references\<close>

definition refs :: "'a list \<Rightarrow> 'a \<Rightarrow> nat" where
  "refs xs z = count_list xs z"

lemma refs_append: "refs (xs @ ys) z = refs xs z + refs ys z"
  by (simp add: refs_def)

lemma refs_single: "refs [x] z = of_bool (x = z)"
  by (simp add: refs_def)

lemma refs_update: "i < length xs \<Longrightarrow> refs (xs[i := y]) z + of_bool (xs ! i = z) = refs xs z + of_bool (y = z)"
  unfolding refs_def
proof (induction xs arbitrary: i)
  case (Cons x xs)
  then show ?case by (cases i) (simp_all add: add.assoc)
qed simp

lemma refs_pos: "i < length xs \<Longrightarrow> 0 < refs xs (xs ! i)"
  unfolding refs_def by (simp add: count_list_0_iff zero_less_iff_neq_zero)

lemma sum_update: "i < length xs \<Longrightarrow>
    sum_list (map f (xs[i := y])) = sum_list (map f xs) - f (xs ! i) + (f y :: int)"
  by (induction xs arbitrary: i) (auto split: nat.splits)

lemma at_Some: "at xs i = Some x \<longleftrightarrow> i < length xs \<and> xs ! i = Some x"
  by (auto simp: at_def)

lemma at_update: "at (xs[i := y]) j = (if i = j \<and> i < length xs then y else at xs j)"
  by (auto simp: at_def nth_list_update)

lemma at_append: "at (xs @ [y]) j = (if j = length xs then y else at xs j)"
  by (auto simp: at_def nth_append)

text \<open>
  What the usage counts must be: every task holds its credentials twice, every set of credentials
  holds its group list once, the initial objects have references of their own, and \<open>X\<close> and \<open>Y\<close> are the
  references a function in progress holds.
\<close>

definition cred_refs :: "(nat \<Rightarrow> nat) \<Rightarrow> cstate \<Rightarrow> nat \<Rightarrow> nat" where
  "cred_refs X st c = 2 * refs (tasks st) (Some c) + (if c = 0 then 2 else 0) + X c"

definition info_refs :: "(nat \<Rightarrow> nat) \<Rightarrow> cstate \<Rightarrow> nat \<Rightarrow> nat" where
  "info_refs Y st a = refs (map (map_option cr_group_info) (creds st)) (Some a) + (if a = 0 then 1 else 0) + Y a"

definition usage_ok :: "(nat \<Rightarrow> int option) \<Rightarrow> (nat \<Rightarrow> nat) \<Rightarrow> bool" where
  "usage_ok u n \<longleftrightarrow> (\<forall>a. u a = (if n a = 0 then None else Some (int (n a))))"

definition cred_usage :: "cstate \<Rightarrow> nat \<Rightarrow> int option" where
  "cred_usage st c = map_option cr_usage (at (creds st) c)"

definition info_usage :: "cstate \<Rightarrow> nat \<Rightarrow> int option" where
  "info_usage st a = map_option gi_usage (at (infos st) a)"

fun info_pages :: "group_info option \<Rightarrow> int" where
  "info_pages None = 0"
| "info_pages (Some gi) = pages_of gi"

definition lists_ok :: "nat set \<Rightarrow> group_info option list \<Rightarrow> bool" where
  "lists_ok U is \<longleftrightarrow> (\<forall>a gi. at is a = Some gi \<longrightarrow> wf_gi gi \<and> (a \<notin> U \<longrightarrow> sorted (gids gi)))"

definition acct :: "(nat \<Rightarrow> nat) \<Rightarrow> (nat \<Rightarrow> nat) \<Rightarrow> nat set \<Rightarrow> cstate \<Rightarrow> bool" where
  "acct X Y U st \<longleftrightarrow> usage_ok (cred_usage st) (cred_refs X st) \<and>
     usage_ok (info_usage st) (info_refs Y st) \<and> lists_ok U (infos st) \<and>
     pages st = sum_list (map info_pages (infos st))"

lemma usage_okD: "usage_ok u n \<Longrightarrow> 0 < n a \<Longrightarrow> u a = Some (int (n a))"
  by (simp add: usage_ok_def)

lemma usage_ok_upd:
  "usage_ok u n \<Longrightarrow> u' = u(a := if k = 0 then None else Some (int k)) \<Longrightarrow> n' = n(a := k) \<Longrightarrow> usage_ok u' n'"
  by (simp add: usage_ok_def)

lemma frame [simp]:
  "info_refs Y (st\<lparr>infos := is\<rparr>) = info_refs Y st" "info_refs Y (st\<lparr>pages := p\<rparr>) = info_refs Y st"
  "info_refs Y (st\<lparr>tasks := ts\<rparr>) = info_refs Y st"
  "cred_refs X (st\<lparr>infos := is\<rparr>) = cred_refs X st" "cred_refs X (st\<lparr>pages := p\<rparr>) = cred_refs X st"
  "cred_refs X (st\<lparr>creds := cs\<rparr>) = cred_refs X st"
  "cred_usage (st\<lparr>infos := is\<rparr>) = cred_usage st" "cred_usage (st\<lparr>pages := p\<rparr>) = cred_usage st"
  "cred_usage (st\<lparr>tasks := ts\<rparr>) = cred_usage st"
  "info_usage (st\<lparr>pages := p\<rparr>) = info_usage st" "info_usage (st\<lparr>tasks := ts\<rparr>) = info_usage st"
  "info_usage (st\<lparr>creds := cs\<rparr>) = info_usage st"
  by (auto simp: info_refs_def cred_refs_def cred_usage_def info_usage_def)

lemma groups_free_pages: "groups_free gi p = p - pages_of gi"
  by (simp add: groups_free_def pages_of_def)

lemma usage_list [simp]:
  "wf_gi (gi\<lparr>gi_usage := u\<rparr>) = wf_gi gi" "gids (gi\<lparr>gi_usage := u\<rparr>) = gids gi"
  "pages_of (gi\<lparr>gi_usage := u\<rparr>) = pages_of gi"
  by (simp_all add: wf_gi_def gids_def pages_of_def)

lemma acct_infoD:
  assumes "acct X Y U st" "0 < info_refs Y st a"
  shows "\<exists>gi. at (infos st) a = Some gi \<and> gi_usage gi = int (info_refs Y st a) \<and> wf_gi gi"
proof -
  have "info_usage st a = Some (int (info_refs Y st a))"
    using assms usage_okD by (simp add: acct_def)
  then show ?thesis using assms(1) by (auto simp: info_usage_def acct_def lists_ok_def)
qed

lemma acct_credD:
  assumes "acct X Y U st" "0 < cred_refs X st c"
  shows "\<exists>cr. at (creds st) c = Some cr \<and> cr_usage cr = int (cred_refs X st c)"
proof -
  have "cred_usage st c = Some (int (cred_refs X st c))"
    using assms usage_okD by (simp add: acct_def)
  then show ?thesis by (auto simp: cred_usage_def)
qed

text \<open>Writing a list back with another count, or with other identifiers, and freeing it.\<close>

lemma acct_write_info:
  assumes "acct X Y U st" "at (infos st) a = Some gi" "wf_gi gi'" "a \<notin> U' \<longrightarrow> sorted (gids gi')"
    "pages_of gi' = pages_of gi" "gi_usage gi' = int n" "0 < n" "U \<subseteq> insert a U'"
    "info_refs Y' st = (info_refs Y st)(a := n)"
  shows "acct X Y' U' (st\<lparr>infos := (infos st)[a := Some gi']\<rparr>)"
proof -
  let ?st = "st\<lparr>infos := (infos st)[a := Some gi']\<rparr>"
  have a: "a < length (infos st)" "infos st ! a = Some gi" using assms(2) by (auto simp: at_Some)
  have "info_usage ?st = (info_usage st)(a := Some (int n))"
    using a assms(6) by (auto simp: info_usage_def at_update)
  moreover have "lists_ok U' (infos ?st)"
    using assms(1,3,4,8) a by (auto simp: lists_ok_def acct_def at_update)
  ultimately show ?thesis
    using assms a usage_ok_upd [of "info_usage st" "info_refs Y st" _ a n]
    by (simp add: acct_def sum_update)
qed

lemma acct_free_info:
  assumes "acct X Y U st" "at (infos st) a = Some gi" "info_refs Y' st = (info_refs Y st)(a := 0)"
  shows "acct X Y' U (st\<lparr>infos := (infos st)[a := None], pages := groups_free gi (pages st)\<rparr>)"
proof -
  let ?st = "st\<lparr>infos := (infos st)[a := None], pages := groups_free gi (pages st)\<rparr>"
  have a: "a < length (infos st)" "infos st ! a = Some gi" using assms(2) by (auto simp: at_Some)
  have "info_usage ?st = (info_usage st)(a := None)"
    using a by (auto simp: info_usage_def at_update)
  moreover have "lists_ok U (infos ?st)"
    using assms(1) a by (auto simp: lists_ok_def acct_def at_update)
  ultimately show ?thesis
    using assms a usage_ok_upd [of "info_usage st" "info_refs Y st" _ a 0]
    by (simp add: acct_def sum_update groups_free_pages)
qed

text \<open>The identifiers a list holds.\<close>

definition held :: "cstate \<Rightarrow> nat \<Rightarrow> u32 list option" where
  "held st a = map_option gids (at (infos st) a)"

lemma held_frame [simp]:
  "held (st\<lparr>creds := cs\<rparr>) = held st" "held (st\<lparr>tasks := ts\<rparr>) = held st" "held (st\<lparr>pages := p\<rparr>) = held st"
  by (simp_all add: held_def fun_eq_iff)

lemma get_group_info_acct:
  assumes "acct X Y U st" "0 < info_refs Y st a"
  shows "\<exists>st'. get_group_info a st = Some st' \<and> acct X (Y(a := Y a + 1)) U st' \<and>
    creds st' = creds st \<and> tasks st' = tasks st \<and> held st' = held st \<and> length (infos st') = length (infos st)"
proof -
  obtain gi where gi: "at (infos st) a = Some gi" "gi_usage gi = int (info_refs Y st a)" "wf_gi gi"
    using acct_infoD [OF assms] by blast
  have "acct X (Y(a := Y a + 1)) U (st\<lparr>infos := (infos st)[a := Some (gi\<lparr>gi_usage := gi_usage gi + 1\<rparr>)]\<rparr>)"
    by (rule acct_write_info [OF assms(1) gi(1), where n = "info_refs Y st a + 1"])
      (use assms gi in \<open>auto simp: acct_def lists_ok_def info_refs_def\<close>)
  then show ?thesis using gi(1)
    by (auto simp: get_group_info_def held_def at_update fun_eq_iff)
qed

lemma put_group_info_acct:
  assumes "acct X Y U st" "0 < Y a"
  shows "\<exists>st'. put_group_info a st = Some st' \<and> acct X (Y(a := Y a - 1)) U st' \<and>
    creds st' = creds st \<and> tasks st' = tasks st \<and> length (infos st') = length (infos st) \<and>
    held st' = (if info_refs Y st a = 1 then (held st)(a := None) else held st)"
proof -
  have r: "0 < info_refs Y st a" using assms(2) by (simp add: info_refs_def)
  obtain gi where gi: "at (infos st) a = Some gi" "gi_usage gi = int (info_refs Y st a)" "wf_gi gi"
    using acct_infoD [OF assms(1) r] by blast
  have n: "info_refs (Y(a := Y a - 1)) st = (info_refs Y st)(a := info_refs Y st a - 1)"
    using assms(2) by (auto simp: info_refs_def)
  show ?thesis
  proof (cases "info_refs Y st a = 1")
    case True
    have "acct X (Y(a := Y a - 1)) U (st\<lparr>infos := (infos st)[a := None], pages := groups_free gi (pages st)\<rparr>)"
      by (rule acct_free_info [OF assms(1) gi(1)]) (use n True in simp)
    then show ?thesis using gi True at_Some [of "infos st" a gi]
      by (auto simp: put_group_info_def held_def at_update fun_eq_iff groups_free_pages Let_def)
  next
    case False
    have "acct X (Y(a := Y a - 1)) U (st\<lparr>infos := (infos st)[a := Some (gi\<lparr>gi_usage := gi_usage gi - 1\<rparr>)]\<rparr>)"
      by (rule acct_write_info [OF assms(1) gi(1), where n = "info_refs Y st a - 1"])
        (use assms gi r False n in \<open>auto simp: acct_def lists_ok_def\<close>)
    then show ?thesis using gi False r
      by (auto simp: put_group_info_def held_def at_update fun_eq_iff Let_def)
  qed
qed

section \<open>Credentials\<close>

lemma acct_write_cred:
  assumes "acct X Y U st" "at (creds st) c = Some cr" "cr_usage cr' = int n" "0 < n"
    "cr_group_info cr' = cr_group_info cr" "cred_refs X' st = (cred_refs X st)(c := n)"
  shows "acct X' Y U (st\<lparr>creds := (creds st)[c := Some cr']\<rparr>)"
proof -
  let ?st = "st\<lparr>creds := (creds st)[c := Some cr']\<rparr>"
  have c: "c < length (creds st)" "creds st ! c = Some cr" using assms(2) by (auto simp: at_Some)
  have "cred_usage ?st = (cred_usage st)(c := Some (int n))"
    using c assms(3) by (auto simp: cred_usage_def at_update)
  moreover have "info_refs Y ?st = info_refs Y st"
  proof -
    have "map (map_option cr_group_info) (creds ?st) = map (map_option cr_group_info) (creds st)"
      using c assms(5) by (simp add: map_update list_update_same_conv)
    then show ?thesis by (simp add: info_refs_def fun_eq_iff)
  qed
  ultimately show ?thesis
    using assms usage_ok_upd [of "cred_usage st" "cred_refs X st" _ c n]
    by (simp add: acct_def)
qed

text \<open>Credentials without their count.\<close>

definition face :: "cstate \<Rightarrow> nat \<Rightarrow> cred option" where
  "face st c = map_option (\<lambda>cr. cr\<lparr>cr_usage := 0\<rparr>) (at (creds st) c)"

lemma face_frame [simp]:
  "face (st\<lparr>infos := is\<rparr>) = face st" "face (st\<lparr>tasks := ts\<rparr>) = face st" "face (st\<lparr>pages := p\<rparr>) = face st"
  by (simp_all add: face_def fun_eq_iff)

lemma get_cred_acct:
  assumes "acct X Y U st" "0 < cred_refs X st c"
  shows "\<exists>st'. get_cred c st = Some st' \<and> acct (X(c := X c + 1)) Y U st' \<and> tasks st' = tasks st \<and>
    infos st' = infos st \<and> length (creds st') = length (creds st) \<and> face st' = face st"
proof -
  obtain cr where cr: "at (creds st) c = Some cr" "cr_usage cr = int (cred_refs X st c)"
    using acct_credD [OF assms] by blast
  have "acct (X(c := X c + 1)) Y U (st\<lparr>creds := (creds st)[c := Some (cr\<lparr>cr_usage := cr_usage cr + 1\<rparr>)]\<rparr>)"
    by (rule acct_write_cred [OF assms(1) cr(1), where n = "cred_refs X st c + 1"])
      (use cr in \<open>auto simp: cred_refs_def\<close>)
  then show ?thesis using cr at_Some [of "creds st" c cr]
    by (auto simp: get_cred_def face_def at_update fun_eq_iff)
qed

lemma info_refs_free:
  assumes "at (creds st) c = Some cr"
  defines "a \<equiv> cr_group_info cr"
  shows "info_refs (Y(a := Y a + 1)) (st\<lparr>creds := (creds st)[c := None]\<rparr>) = info_refs Y st"
proof
  fix b
  show "info_refs (Y(a := Y a + 1)) (st\<lparr>creds := (creds st)[c := None]\<rparr>) b = info_refs Y st b"
    using refs_update [of c "map (map_option cr_group_info) (creds st)" None "Some b"] assms
    by (auto simp: info_refs_def map_update at_Some)
qed

lemma acct_free_cred:
  assumes "acct X Y U st" "at (creds st) c = Some cr" "cred_refs X' st = (cred_refs X st)(c := 0)"
  shows "acct X' (Y(cr_group_info cr := Y (cr_group_info cr) + 1)) U (st\<lparr>creds := (creds st)[c := None]\<rparr>)"
proof -
  let ?st = "st\<lparr>creds := (creds st)[c := None]\<rparr>" and ?a = "cr_group_info cr"
  have c: "c < length (creds st)" "creds st ! c = Some cr" using assms(2) by (auto simp: at_Some)
  have "cred_usage ?st = (cred_usage st)(c := None)"
    using c by (auto simp: cred_usage_def at_update)
  then show ?thesis
    using assms usage_ok_upd [of "cred_usage st" "cred_refs X st" _ c 0] info_refs_free [OF assms(2)]
    by (simp add: acct_def)
qed

lemma put_group_info_creds:
  "put_group_info a (st\<lparr>creds := cs\<rparr>) = map_option (\<lambda>s. s\<lparr>creds := cs\<rparr>) (put_group_info a st)"
  by (cases "at (infos st) a") (auto simp: put_group_info_def Let_def)

text \<open>Dropping a reference that is held: the last one frees the credentials and drops their list.\<close>

lemma put_cred_acct:
  assumes "acct X Y U st" "0 < X c"
  shows "\<exists>st'. put_cred current c st = Some st' \<and> acct (X(c := X c - 1)) Y U st' \<and> tasks st' = tasks st \<and>
    length (creds st') = length (creds st) \<and> length (infos st') = length (infos st) \<and>
    (\<forall>d. d \<noteq> c \<longrightarrow> at (creds st') d = at (creds st) d) \<and>
    (\<forall>a. 1 < info_refs Y st a \<longrightarrow> held st' a = held st a) \<and>
    (cred_refs X st c \<noteq> 1 \<longrightarrow> infos st' = infos st)"
proof -
  have r: "0 < cred_refs X st c" using assms(2) by (simp add: cred_refs_def)
  obtain cr where cr: "at (creds st) c = Some cr" "cr_usage cr = int (cred_refs X st c)"
    using acct_credD [OF assms(1) r] by blast
  have n: "cred_refs (X(c := X c - 1)) st = (cred_refs X st)(c := cred_refs X st c - 1)"
    using assms(2) by (auto simp: cred_refs_def)
  define st1 where "st1 = st\<lparr>creds := (creds st)[c := Some (cr\<lparr>cr_usage := cr_usage cr - 1\<rparr>)]\<rparr>"
  show ?thesis
  proof (cases "cred_refs X st c = 1")
    case False
    have "acct (X(c := X c - 1)) Y U st1" unfolding st1_def
      by (rule acct_write_cred [OF assms(1) cr(1), where n = "cred_refs X st c - 1"])
        (use cr r False n in auto)
    then show ?thesis using cr False r
      by (auto simp: put_cred_def Let_def st1_def at_update held_def)
  next
    case True
    let ?a = "cr_group_info cr" and ?fr = "st\<lparr>creds := (creds st)[c := None]\<rparr>"
    have "acct (X(c := X c - 1)) (Y(?a := Y ?a + 1)) U ?fr"
      by (rule acct_free_cred [OF assms(1) cr(1)]) (use n True in simp)
    then obtain s where s: "put_group_info ?a ?fr = Some s" "acct (X(c := X c - 1)) Y U s"
      "creds s = creds ?fr" "tasks s = tasks st" "length (infos s) = length (infos st)"
      "held s = (if info_refs (Y(?a := Y ?a + 1)) ?fr ?a = 1 then (held ?fr)(?a := None) else held ?fr)"
      using put_group_info_acct [of _ "Y(?a := Y ?a + 1)" U ?fr ?a] by auto
    have t: "at (tasks st) current \<noteq> Some c"
      using True assms(2) refs_pos [of current "tasks st"] by (auto simp: cred_refs_def at_Some)
    obtain s0 where s0: "put_group_info ?a st = Some s0" "s = s0\<lparr>creds := (creds st)[c := None]\<rparr>"
      using s(1) by (auto simp: put_group_info_creds)
    have "put_cred_uu current c st1 = Some s"
      using t cr True s0 at_Some [of "creds st" c cr]
      by (simp add: st1_def put_cred_uu_def put_cred_rcu_def put_group_info_creds at_update)
    then have "put_cred current c st = Some s" using cr True by (simp add: put_cred_def st1_def Let_def)
    then show ?thesis using s info_refs_free [OF cr(1)] True by (auto simp: at_update)
  qed
qed

end
