(* ===== verification/Group_Calls.thy ===== *)
theory Group_Calls
  imports Group_Creds
begin

text \<open>
  What the credential functions and the group system calls do: each of them keeps the account of
  references of \<open>Group_Creds\<close>, \<open>setgroups\<close> installs exactly the user's groups or reports the
  first error, \<open>getgroups\<close> returns them, and \<open>in_group_p\<close> decides membership.
\<close>

section \<open>Preparing and committing credentials\<close>

lemma get_group_info_creds:
  "get_group_info a (st\<lparr>creds := cs\<rparr>) = map_option (\<lambda>s. s\<lparr>creds := cs\<rparr>) (get_group_info a st)"
  by (cases "at (infos st) a") (auto simp: get_group_info_def)

lemma acct_set_cred:
  assumes "acct X (Y(a := Y a + 1)) U st" "c < length (creds st)" "creds st ! c = None"
    "cr_group_info cr = a" "cr_usage cr = int n" "0 < n" "cred_refs X' st = (cred_refs X st)(c := n)"
  shows "acct X' Y U (st\<lparr>creds := (creds st)[c := Some cr]\<rparr>)"
proof -
  let ?st = "st\<lparr>creds := (creds st)[c := Some cr]\<rparr>"
  have "cred_usage ?st = (cred_usage st)(c := Some (int n))"
    using assms(2,5) by (auto simp: cred_usage_def at_update)
  moreover have "info_refs Y ?st = info_refs (Y(a := Y a + 1)) st"
  proof
    fix b
    show "info_refs Y ?st b = info_refs (Y(a := Y a + 1)) st b"
      using refs_update [of c "map (map_option cr_group_info) (creds st)" "Some a" "Some b"] assms(2-4)
      by (auto simp: info_refs_def map_update)
  qed
  ultimately show ?thesis
    using assms(1,6,7) usage_ok_upd [of "cred_usage st" "cred_refs X st" _ c n] by (simp add: acct_def)
qed

lemma acct_grow:
  "acct X Y U (st\<lparr>creds := creds st @ [None]\<rparr>) = acct X Y U st"
proof -
  have "cred_usage (st\<lparr>creds := creds st @ [None]\<rparr>) = cred_usage st"
    by (rule ext) (simp add: cred_usage_def at_append, simp add: at_def)
  moreover have "info_refs Y (st\<lparr>creds := creds st @ [None]\<rparr>) = info_refs Y st"
    by (rule ext) (simp add: info_refs_def refs_append refs_single)
  ultimately show ?thesis by (simp add: acct_def)
qed

lemma acct_no_ref:
  assumes "acct X Y U st" "at (creds st) c = None"
  shows "cred_refs X st c = 0" "X c = 0" "c \<noteq> 0"
proof -
  have "cred_usage st c = None" using assms(2) by (simp add: cred_usage_def)
  then show r: "cred_refs X st c = 0" using assms(1) by (auto simp: acct_def usage_ok_def split: if_splits)
  from r show "X c = 0" "c \<noteq> 0" by (auto simp: cred_refs_def split: if_splits)
qed

lemma task_cred:
  assumes "acct X Y U st" "at (tasks st) t = Some c"
  shows "\<exists>cr. at (creds st) c = Some cr \<and> 0 < info_refs Y st (cr_group_info cr)"
proof -
  have "0 < refs (tasks st) (Some c)" using assms(2) refs_pos by (force simp: at_Some)
  then have "0 < cred_refs X st c" by (simp add: cred_refs_def)
  then obtain cr where cr: "at (creds st) c = Some cr" using acct_credD [OF assms(1)] by blast
  then have "0 < refs (map (map_option cr_group_info) (creds st)) (Some (cr_group_info cr))"
    using refs_pos [of c "map (map_option cr_group_info) (creds st)"] by (auto simp: at_Some)
  then show ?thesis using cr by (simp add: info_refs_def)
qed

definition prepared :: "(nat \<Rightarrow> nat) \<Rightarrow> (nat \<Rightarrow> nat) \<Rightarrow> nat set \<Rightarrow> nat \<Rightarrow> cred \<Rightarrow> cstate \<Rightarrow> cstate \<Rightarrow> bool" where
  "prepared X Y U new cr st st' \<longleftrightarrow> new = length (creds st) \<and> acct (X(new := 1)) Y U st' \<and> X new = 0 \<and>
     tasks st' = tasks st \<and> held st' = held st \<and> length (infos st') = length (infos st) \<and>
     creds st' = creds st @ [Some (cr\<lparr>cr_usage := 1\<rparr>)]"

lemma prepare_creds_acct:
  assumes "acct X Y U st" "at (tasks st) t = Some c" "at (creds st) c = Some cr"
  shows "\<exists>st'. prepare_creds Prepared t st = Some (Some (length (creds st)), st') \<and>
    prepared X Y U (length (creds st)) cr st st'"
proof -
  let ?new = "length (creds st)" and ?a = "cr_group_info cr"
  obtain s where s: "get_group_info ?a st = Some s" "acct X (Y(?a := Y ?a + 1)) U s" "creds s = creds st"
    "tasks s = tasks st" "held s = held st" "length (infos s) = length (infos st)"
    using get_group_info_acct [OF assms(1), of ?a] task_cred [OF assms(1,2)] assms(3) by auto
  let ?st' = "s\<lparr>creds := creds st @ [Some (cr\<lparr>cr_usage := 1\<rparr>)]\<rparr>"
  have new: "at (creds s) ?new = None" using s(3) by (simp add: at_def)
  note z = acct_no_ref [OF s(2) new]
  have "acct X (Y(?a := Y ?a + 1)) U (s\<lparr>creds := creds s @ [None]\<rparr>)" using s(2) by (simp add: acct_grow)
  from acct_set_cred [OF this, of ?new "cr\<lparr>cr_usage := 1\<rparr>" 1 "X(?new := 1)"]
  have "acct (X(?new := 1)) Y U ?st'"
    using s(3) z by (auto simp: cred_refs_def fun_eq_iff)
  moreover have "prepare_creds Prepared t st = Some (Some ?new, ?st')"
    using assms(2,3) s(1) by (simp add: prepare_creds_def Let_def get_group_info_creds)
  ultimately show ?thesis using s(4-6) z(2) by (auto simp: prepared_def)
qed

lemma acct_tasks:
  "acct X Y U st \<Longrightarrow> cred_refs X' (st\<lparr>tasks := ts\<rparr>) = cred_refs X st \<Longrightarrow> acct X' Y U (st\<lparr>tasks := ts\<rparr>)"
  by (simp add: acct_def)

lemma acct_same_infos:
  assumes "acct X Y U st" "acct X' Y' U' st'" "infos st' = infos st"
  shows "info_refs Y' st' = info_refs Y st"
proof
  fix a
  have "info_usage st' = info_usage st" using assms(3) by (simp add: info_usage_def fun_eq_iff)
  moreover have "info_usage st a = (if info_refs Y st a = 0 then None else Some (int (info_refs Y st a)))"
    "info_usage st' a = (if info_refs Y' st' a = 0 then None else Some (int (info_refs Y' st' a)))"
    using assms(1,2) by (simp_all add: acct_def usage_ok_def)
  ultimately show "info_refs Y' st' a = info_refs Y st a" by (auto split: if_splits)
qed

lemma put_cred_twice:
  assumes "acct (X(c := X c + 2)) Y U st"
  shows "\<exists>s st'. put_cred t c st = Some s \<and> put_cred t c s = Some st' \<and> acct X Y U st' \<and>
    tasks st' = tasks st \<and> length (creds st') = length (creds st) \<and> length (infos st') = length (infos st) \<and>
    (\<forall>d. d \<noteq> c \<longrightarrow> at (creds st') d = at (creds st) d) \<and>
    (\<forall>a. 1 < info_refs Y st a \<longrightarrow> held st' a = held st a)"
proof -
  have two: "cred_refs (X(c := X c + 2)) st c \<noteq> 1" by (simp add: cred_refs_def)
  obtain s where s: "put_cred t c st = Some s" "acct (X(c := X c + 1)) Y U s" "tasks s = tasks st"
    "length (creds s) = length (creds st)" "infos s = infos st"
    "\<And>d. d \<noteq> c \<Longrightarrow> at (creds s) d = at (creds st) d"
    using put_cred_acct [OF assms, of c t] two by auto
  obtain st' where st': "put_cred t c s = Some st'" "acct X Y U st'" "tasks st' = tasks s"
    "length (creds st') = length (creds s)" "length (infos st') = length (infos s)"
    "\<And>d. d \<noteq> c \<Longrightarrow> at (creds st') d = at (creds s) d"
    "\<And>a. 1 < info_refs Y s a \<Longrightarrow> held st' a = held s a"
    using put_cred_acct [OF s(2), of c t] by auto
  have "info_refs Y s = info_refs Y st" using acct_same_infos [OF assms s(2,5)] .
  moreover have "held s = held st" using s(5) by (simp add: held_def fun_eq_iff)
  ultimately show ?thesis using s st' by auto
qed

lemma commit_creds_acct:
  assumes "acct X Y U st" "X new = 1" "at (tasks st) t = Some old" "new \<noteq> old"
  shows "\<exists>st'. commit_creds t new st = Some st' \<and> acct (X(new := 0)) Y U st' \<and>
    tasks st' = (tasks st)[t := Some new] \<and> (\<forall>d. d \<noteq> old \<longrightarrow> face st' d = face st d) \<and>
    (\<forall>a. 1 < info_refs Y st a \<longrightarrow> held st' a = held st a)"
proof -
  have r: "0 < cred_refs X st new" using assms(2) by (simp add: cred_refs_def)
  obtain cr where cr: "at (creds st) new = Some cr" "cr_usage cr = int (cred_refs X st new)"
    using acct_credD [OF assms(1) r] by blast
  obtain s where s: "get_cred new st = Some s" "acct (X(new := 2)) Y U s" "tasks s = tasks st"
    "infos s = infos st" "face s = face st"
    using get_cred_acct [OF assms(1) r] assms(2) by (auto simp: numeral_2_eq_2)
  let ?X = "X(new := 0)" and ?s = "s\<lparr>tasks := (tasks s)[t := Some new]\<rparr>"
  have "acct (?X(old := ?X old + 2)) Y U ?s"
  proof (rule acct_tasks [OF s(2)], rule ext)
    fix d
    show "cred_refs (?X(old := ?X old + 2)) ?s d = cred_refs (X(new := 2)) s d"
      using refs_update [of t "tasks st" "Some new" "Some d"] assms(3,4) s(3)
      by (auto simp: cred_refs_def at_Some)
  qed
  then obtain s' st' where st': "put_cred t old ?s = Some s'" "put_cred t old s' = Some st'"
    "acct ?X Y U st'" "tasks st' = tasks ?s" "\<And>d. d \<noteq> old \<Longrightarrow> at (creds st') d = at (creds ?s) d"
    "\<And>a. 1 < info_refs Y ?s a \<Longrightarrow> held st' a = held ?s a"
    using put_cred_twice [of ?X old Y U ?s t] by blast
  have "commit_creds t new st = Some st'"
    using assms(3) cr s(1) st'(1,2) r by (simp add: commit_creds_def Let_def)
  moreover have "info_refs Y s = info_refs Y st" using acct_same_infos [OF assms(1) s(2,4)] .
  moreover have "held s = held st" using s(4) by (simp add: held_def fun_eq_iff)
  moreover have "face st' d = face st d" if "d \<noteq> old" for d
    using st'(5) [OF that] s(5) by (simp add: face_def fun_eq_iff)
  ultimately show ?thesis using st'(3,4,6) s(3) by auto
qed

section \<open>Installing a group list\<close>

lemma group_info_keeps_creds:
  "put_group_info a st = Some s \<Longrightarrow> creds s = creds st"
  "get_group_info a st = Some s \<Longrightarrow> creds s = creds st"
  by (cases "at (infos st) a"; auto simp: put_group_info_def get_group_info_def Let_def split: if_splits)+

lemma sort_info_acct:
  assumes "acct X Y (insert a U) st" "at (infos st) a = Some gi"
  shows "\<exists>gi'. groups_sort gi = Some gi' \<and> gids gi' = sort (gids gi) \<and>
    acct X Y (U - {a}) (st\<lparr>infos := (infos st)[a := Some gi']\<rparr>)"
proof -
  have wf: "wf_gi gi" using assms by (auto simp: acct_def lists_ok_def)
  obtain gi' where gi': "groups_sort gi = Some gi'" "with_gids gi (gids gi') gi'" "gids gi' = sort (gids gi)"
    using groups_sort_spec [OF wf] by blast
  have r: "info_usage st a = Some (gi_usage gi)" using assms(2) by (simp add: info_usage_def)
  then have n: "0 < info_refs Y st a" "gi_usage gi = int (info_refs Y st a)"
    using assms(1) by (auto simp: acct_def usage_ok_def split: if_splits)
  have "acct X Y (U - {a}) (st\<lparr>infos := (infos st)[a := Some gi']\<rparr>)"
    by (rule acct_write_info [OF assms, where n = "info_refs Y st a"])
      (use gi' n in \<open>auto simp: with_gids_def pages_of_def\<close>)
  then show ?thesis using gi' by blast
qed

lemma set_groups_acct:
  assumes "acct X Y (insert a U) st" "0 < X new" "0 < Y a" "at (creds st) new = Some cr"
    "cred_refs X st new = X new" "at (infos st) a = Some gi"
  shows "\<exists>st'. set_groups new a st = Some st' \<and> acct X Y (U - {a}) st' \<and>
    tasks st' = tasks st \<and> creds st' = (creds st)[new := Some (cr\<lparr>cr_group_info := a\<rparr>)] \<and>
    length (infos st') = length (infos st) \<and> held st' a = Some (sort (gids gi))"
proof -
  let ?g = "cr_group_info cr" and ?cs = "(creds st)[new := None]" and ?X = "X(new := 0)"
  let ?fr = "st\<lparr>creds := ?cs\<rparr>" and ?cr = "cr\<lparr>cr_group_info := a\<rparr>"
  have new: "new < length (creds st)" "creds st ! new = Some cr" using assms(4) by (auto simp: at_Some)
  have "acct ?X (Y(?g := Y ?g + 1)) (insert a U) ?fr"
    by (rule acct_free_cred [OF assms(1,4)]) (use assms(5) in \<open>auto simp: cred_refs_def\<close>)
  from put_group_info_acct [OF this, of ?g]
  obtain s where s: "put_group_info ?g ?fr = Some s" "acct ?X Y (insert a U) s"
    "tasks s = tasks st" "length (infos s) = length (infos st)"
    "held s = (if info_refs (Y(?g := Y ?g + 1)) ?fr ?g = 1 then (held ?fr)(?g := None) else held ?fr)"
    by auto
  obtain s0 where s0: "put_group_info ?g st = Some s0" "s = s0\<lparr>creds := ?cs\<rparr>"
    using s(1) by (auto simp: put_group_info_creds)
  have "held s a = Some (gids gi)" using s(5) assms(3,6) by (auto simp: held_def info_refs_def)
  then obtain g1 where g1: "at (infos s) a = Some g1" "gids g1 = gids gi" by (auto simp: held_def)
  obtain g2 where g2: "groups_sort g1 = Some g2" "gids g2 = sort (gids gi)"
    "acct ?X Y (U - {a}) (s\<lparr>infos := (infos s)[a := Some g2]\<rparr>)"
    using sort_info_acct [OF s(2) g1(1)] g1(2) by auto
  have "0 < info_refs Y (s\<lparr>infos := (infos s)[a := Some g2]\<rparr>) a" using assms(3) by (simp add: info_refs_def)
  from get_group_info_acct [OF g2(3) this]
  obtain s2 where s2: "get_group_info a (s\<lparr>infos := (infos s)[a := Some g2]\<rparr>) = Some s2"
    "acct ?X (Y(a := Y a + 1)) (U - {a}) s2" "creds s2 = creds s" "tasks s2 = tasks s"
    "held s2 = held (s\<lparr>infos := (infos s)[a := Some g2]\<rparr>)" "length (infos s2) = length (infos s)" by auto
  let ?s0 = "s0\<lparr>infos := (infos s)[a := Some g2]\<rparr>"
  have "s\<lparr>infos := (infos s)[a := Some g2]\<rparr> = ?s0\<lparr>creds := ?cs\<rparr>" using s0(2) by simp
  then obtain s3 where s3: "get_group_info a ?s0 = Some s3" "s2 = s3\<lparr>creds := ?cs\<rparr>"
    using s2(1) by (auto simp: get_group_info_creds)
  have k: "creds s3 = creds st" using s0(1) s3(1) by (auto dest!: group_info_keeps_creds)
  let ?st' = "s2\<lparr>creds := (creds s2)[new := Some ?cr]\<rparr>"
  have "set_groups new a st = Some ?st'"
    using assms(4) s0 g1(1) g2(1) s3 k by (simp add: set_groups_def Let_def)
  moreover have "acct X Y (U - {a}) ?st'"
  proof (rule acct_set_cred [OF s2(2), where n = "X new"])
    show "cr_usage ?cr = int (X new)"
      using acct_credD [OF assms(1), of new] assms(2,4,5) by auto
    show "cred_refs X s2 = (cred_refs ?X s2)(new := X new)"
      using assms(5) s2(4) s(3) by (auto simp: cred_refs_def)
  qed (use new assms(2) s2(3) s0(2) in auto)
  moreover have "held (s\<lparr>infos := (infos s)[a := Some g2]\<rparr>) a = Some (sort (gids gi))"
    using g2(2) g1(1) at_Some [of "infos s" a g1] by (simp add: held_def at_update)
  ultimately show ?thesis using s2(3-6) s(3,4) s0(2) by simp
qed


section \<open>The system calls as a whole\<close>

definition creds_ok :: "cstate \<Rightarrow> bool" where
  "creds_ok st \<longleftrightarrow> acct (\<lambda>_. 0) (\<lambda>_. 0) {} st"

text \<open>What a task sees: its identifiers and its sorted group list.\<close>

definition view :: "nat \<Rightarrow> cstate \<Rightarrow> (u32 \<times> u32 \<times> u32 \<times> u32 list) option" where
  "view t st = map_option (\<lambda>(cr, gi). (fsuid cr, fsgid cr, egid cr, gids gi)) (current_groups t st)"

lemma view_face:
  "view t st = do {
     c \<leftarrow> at (tasks st) t; cr \<leftarrow> face st c; xs \<leftarrow> held st (cr_group_info cr);
     Some (fsuid cr, fsgid cr, egid cr, xs)
   }"
proof (cases "at (tasks st) t")
  case (Some c)
  then show ?thesis
    by (cases "at (creds st) c"; cases "at (infos st) (cr_group_info (the (at (creds st) c)))")
      (auto simp: view_def current_groups_def face_def held_def)
qed (simp add: view_def current_groups_def)

lemma acct_dead: "acct X Y U st \<Longrightarrow> at (infos st) a = None \<Longrightarrow> acct X Y (U - {a}) st"
  by (auto simp: acct_def lists_ok_def)

lemma prepared_new:
  assumes "prepared X Y U new cr st s" "at (creds st) c = Some cr'"
  shows "at (creds s) new = Some (cr\<lparr>cr_usage := 1\<rparr>)" "cred_refs (X(new := 1)) s new = 1" "new \<noteq> c" "new \<noteq> 0"
proof -
  have n: "acct (X(new := 1)) Y U s" "creds s = creds st @ [Some (cr\<lparr>cr_usage := 1\<rparr>)]" "new = length (creds st)"
    using assms(1) by (auto simp: prepared_def)
  then show a: "at (creds s) new = Some (cr\<lparr>cr_usage := 1\<rparr>)" by (simp add: at_append)
  have "0 < cred_refs (X(new := 1)) s new" by (simp add: cred_refs_def)
  then show r: "cred_refs (X(new := 1)) s new = 1" using acct_credD [OF n(1), of new] a by auto
  show "new \<noteq> c" using assms(2) n(3) by (auto simp: at_Some)
  show "new \<noteq> 0" using r by (auto simp: cred_refs_def split: if_splits)
qed

lemma put_prepared:
  assumes p: "prepared X Y U new cr st s" and c: "at (creds st) c = Some cr"
  shows "\<exists>st'. put_cred t new s = Some st' \<and> acct X Y U st' \<and> tasks st' = tasks st \<and>
    creds st' = creds st @ [None] \<and> held st' (cr_group_info cr) = held st (cr_group_info cr)"
proof -
  let ?a = "cr_group_info cr" and ?gs = "map (map_option cr_group_info)"
  have s: "acct (X(new := 1)) Y U s" "X new = 0" "tasks s = tasks st" "held s = held st"
    "creds s = creds st @ [Some (cr\<lparr>cr_usage := 1\<rparr>)]" "new = length (creds st)"
    using p by (auto simp: prepared_def)
  obtain st' where st': "put_cred t new s = Some st'" "acct (X(new := 0)) Y U st'" "tasks st' = tasks s"
    "length (creds st') = length (creds s)" "\<And>d. d \<noteq> new \<Longrightarrow> at (creds st') d = at (creds s) d"
    "\<And>a. 1 < info_refs Y s a \<Longrightarrow> held st' a = held s a"
    using put_cred_acct [OF s(1), of new t] by auto
  have X: "X(new := 0) = X" using s(2) by auto
  have "cred_refs X st' new = 0"
    using prepared_new(2) [OF p c] st'(3) s(2) by (auto simp: cred_refs_def)
  moreover have "cred_usage st' new = (if cred_refs X st' new = 0 then None else Some (int (cred_refs X st' new)))"
    using st'(2) X by (simp add: acct_def usage_ok_def)
  ultimately have dead: "at (creds st') new = None" by (simp add: cred_usage_def)
  have "creds st' = creds st @ [None]"
  proof (intro nth_equalityI)
    fix i
    assume "i < length (creds st')"
    then show "creds st' ! i = (creds st @ [None]) ! i"
      using dead st'(4) st'(5) [of i] s(5,6) by (cases "i = new") (auto simp: at_def nth_append split: if_splits)
  qed (use st'(4) s(5) in simp)
  moreover have "1 < info_refs Y s ?a"
    using c s(5) refs_pos [of c "?gs (creds st)"]
    by (auto simp: info_refs_def at_Some refs_append refs_single)
  ultimately show ?thesis using st' s X by auto
qed

lemma prepare_refused:
  assumes "acct X Y U st" "at (tasks st) t = Some c" "p \<noteq> Prepared"
  shows "\<exists>st'. prepare_creds p t st = Some (None, st') \<and> acct X Y U st' \<and> view t st' = view t st \<and>
    tasks st' = tasks st \<and> info_refs Y st' = info_refs Y st"
proof (cases "p = No_Memory")
  case True
  then show ?thesis using assms by (simp add: prepare_creds_def)
next
  case False
  then have p: "p = Security_Refused" using assms(3) by (cases p) auto
  obtain cr where cr: "at (creds st) c = Some cr" using task_cred [OF assms(1,2)] by blast
  let ?new = "length (creds st)"
  obtain s where s: "prepare_creds Prepared t st = Some (Some ?new, s)" "prepared X Y U ?new cr st s"
    using prepare_creds_acct [OF assms(1,2) cr] by blast
  obtain st' where st': "put_cred t ?new s = Some st'" "acct X Y U st'" "tasks st' = tasks st"
    "creds st' = creds st @ [None]" "held st' (cr_group_info cr) = held st (cr_group_info cr)"
    using put_prepared [OF s(2) cr] by blast
  have "prepare_creds p t st = Some (None, st')"
    using s(1) st'(1) prepared_new(1) [OF s(2) cr] p assms(2) cr
    by (auto simp: prepare_creds_def abort_creds_def Let_def bind_eq_Some_conv)
  moreover have "info_refs Y st' = info_refs Y st"
    using st'(4) by (auto simp: info_refs_def refs_append refs_single)
  moreover have "view t st' = view t st"
    using assms(2) cr st'(3-5) at_Some [of "creds st" c cr] by (auto simp: view_face face_def at_append)
  ultimately show ?thesis using st' by auto
qed

lemma face_info_refs:
  assumes "face st c = Some cr"
  shows "Y (cr_group_info cr) < info_refs Y st (cr_group_info cr)"
proof -
  have "c < length (creds st)" "map (map_option cr_group_info) (creds st) ! c = Some (cr_group_info cr)"
    using assms by (auto simp: face_def at_Some)
  then show ?thesis
    using refs_pos [of c "map (map_option cr_group_info) (creds st)"] by (auto simp: info_refs_def)
qed

lemma set_current_groups_acct:
  assumes "acct X Y {a} st" "Y a = 1" "at (tasks st) t = Some c" "at (infos st) a = Some gi"
    "view t st = Some (u, g, e, xs)"
  shows "\<exists>r st'. set_current_groups p t a st = Some (r, st') \<and> acct X Y {a} st' \<and>
    r = (if p = Prepared then None else Some ENOMEM) \<and>
    (r = None \<longrightarrow> acct X Y {} st' \<and> view t st' = Some (u, g, e, sort (gids gi)) \<and> 1 < info_refs Y st' a) \<and>
    (r \<noteq> None \<longrightarrow> view t st' = view t st \<and> info_refs Y st' = info_refs Y st)"
proof (cases "p = Prepared")
  case False
  then show ?thesis using prepare_refused [OF assms(1,3) False] False by (auto simp: set_current_groups_def)
next
  case True
  obtain cr where cr: "at (creds st) c = Some cr" using task_cred [OF assms(1,3)] by blast
  let ?new = "length (creds st)" and ?X = "X(length (creds st) := 1)"
  obtain s where s: "prepare_creds p t st = Some (Some ?new, s)" "prepared X Y {a} ?new cr st s"
    using prepare_creds_acct [OF assms(1,3) cr] True by auto
  note new = prepared_new [OF s(2) cr]
  have s': "acct ?X Y (insert a {}) s" "tasks s = tasks st" "held s = held st" "X ?new = 0"
    using s(2) by (auto simp: prepared_def)
  obtain g0 where g0: "at (infos s) a = Some g0" "gids g0 = gids gi"
    using s'(3) assms(4) by (auto simp: held_def fun_eq_iff dest!: spec [of _ a])
  obtain s1 where s1: "set_groups ?new a s = Some s1" "acct ?X Y {} s1" "tasks s1 = tasks s"
    "creds s1 = (creds s)[?new := Some (cr\<lparr>cr_usage := 1, cr_group_info := a\<rparr>)]"
    "held s1 a = Some (sort (gids gi))"
    using set_groups_acct [OF s'(1) _ _ new(1) _ g0(1)] new(2) assms(2) g0(2) by auto
  have t: "at (tasks s1) t = Some c" using s1(3) s'(2) assms(3) by simp
  obtain st' where st': "commit_creds t ?new s1 = Some st'" "acct (?X(?new := 0)) Y {} st'"
    "tasks st' = (tasks s1)[t := Some ?new]" "face st' ?new = face s1 ?new"
    "\<And>a. 1 < info_refs Y s1 a \<Longrightarrow> held st' a = held s1 a"
    using commit_creds_acct [OF s1(2) _ t new(3)] new(3) by auto
  have f: "face s1 ?new = Some (cr\<lparr>cr_usage := 0, cr_group_info := a\<rparr>)"
    using s1(4) new(1) at_Some [of "creds s" ?new] by (simp add: face_def at_update)
  have r: "1 < info_refs Y s1 a" "1 < info_refs Y st' a"
    using face_info_refs [OF f, of Y] face_info_refs [of st' ?new _ Y] st'(4) f assms(2) by auto
  have "set_current_groups p t a st = Some (None, st')"
    using s(1) s1(1) st'(1) by (simp add: set_current_groups_def)
  moreover have "?X(?new := 0) = X" using s'(4) by auto
  moreover have "view t st' = Some (u, g, e, sort (gids gi))"
    using assms(3,5) cr t f st'(3,4) st'(5) [OF r(1)] s1(5)
    by (auto simp: view_face face_def at_update at_Some split: bind_splits)
  moreover have "acct X Y {a} st'" if "acct X Y {} st'"
    using that by (auto simp: acct_def lists_ok_def)
  ultimately show ?thesis using st'(2) r(2) True by auto
qed

lemma acct_append_info:
  assumes "acct X Y U st" "gi_usage gi = 1" "wf_gi gi"
  shows "acct X (Y(length (infos st) := 1)) (insert (length (infos st)) U)
      (st\<lparr>pages := pages st + pages_of gi, infos := infos st @ [Some gi]\<rparr>)"
    "Y (length (infos st)) = 0"
proof -
  let ?a = "length (infos st)" and ?st = "st\<lparr>pages := pages st + pages_of gi, infos := infos st @ [Some gi]\<rparr>"
  have "info_usage st ?a = None" by (simp add: info_usage_def at_def)
  then have z: "info_refs Y st ?a = 0" using assms(1) by (auto simp: acct_def usage_ok_def split: if_splits)
  then show "Y ?a = 0" by (simp add: info_refs_def)
  have "info_usage ?st = (info_usage st)(?a := Some 1)"
    using assms(2) by (auto simp: info_usage_def at_append)
  moreover have "info_refs (Y(?a := 1)) st = (info_refs Y st)(?a := 1)"
    using z by (auto simp: info_refs_def)
  moreover have "lists_ok (insert ?a U) (infos ?st)"
    using assms(1,3) by (auto simp: acct_def lists_ok_def at_append)
  ultimately show "acct X (Y(?a := 1)) (insert ?a U) ?st"
    using assms(1) usage_ok_upd [of "info_usage st" "info_refs Y st" _ ?a 1] by (simp add: acct_def)
qed

lemma view_held:
  assumes "view t st = Some v" "tasks st' = tasks st" "creds st' = creds st"
    "\<And>a. held st a \<noteq> None \<Longrightarrow> held st' a = held st a"
  shows "view t st' = Some v"
  using assms by (auto simp: view_face face_def split: bind_splits)

lemma view_task: "view t st = Some v \<Longrightarrow> \<exists>c. at (tasks st) t = Some c"
  by (auto simp: view_face split: bind_splits)

definition set_result :: "nat \<Rightarrow> u32 \<Rightarrow> u32 list \<Rightarrow> cstate \<Rightarrow> errno option \<Rightarrow> cstate \<Rightarrow> bool" where
  "set_result t n ul st r st' \<longleftrightarrow> creds_ok st' \<and> (r \<noteq> None \<longrightarrow> view t st' = view t st) \<and>
     (r = None \<longrightarrow> unat n \<le> NGROUPS_MAX \<and> unat n \<le> length ul \<and>
       (\<forall>u g e xs. view t st = Some (u, g, e, xs) \<longrightarrow> view t st' = Some (u, g, e, sort (take (unat n) ul))))"

lemma drop_list:
  assumes "acct X Y U st" "Y a = 1" "info_refs Y st a = 1" "view t st = Some v"
  shows "\<exists>st'. put_group_info a st = Some st' \<and> acct X (Y(a := 0)) (U - {a}) st' \<and> view t st' = Some v"
proof -
  obtain st' where st': "put_group_info a st = Some st'" "acct X (Y(a := 0)) U st'" "creds st' = creds st"
    "tasks st' = tasks st" "held st' = (held st)(a := None)"
    using put_group_info_acct [OF assms(1), of a] assms(2,3) by auto
  obtain c cr where c: "at (tasks st) t = Some c" "face st c = Some cr"
    using assms(4) by (auto simp: view_face split: bind_splits)
  have "cr_group_info cr \<noteq> a" using face_info_refs [OF c(2), of Y] assms(2,3) by auto
  moreover have "face st' = face st" using st'(3) by (simp add: face_def fun_eq_iff)
  ultimately have "view t st' = view t st" using c st'(4,5) by (simp add: view_face)
  moreover have "at (infos st') a = None" using st'(5) by (auto simp: held_def fun_eq_iff dest!: spec [of _ a])
  ultimately show ?thesis using st'(1) acct_dead [OF st'(2)] assms(4) by auto
qed

lemma fresh_list:
  assumes "creds_ok st" "view t st = Some v" "wf_gi gi" "gi_usage gi = 1"
  defines "a \<equiv> length (infos st)"
  defines "st0 \<equiv> st\<lparr>pages := pages st + pages_of gi, infos := infos st @ [Some gi]\<rparr>"
  shows "acct (\<lambda>_. 0) ((\<lambda>_. 0)(a := 1)) {a} st0" "view t st0 = Some v"
    "info_refs ((\<lambda>_. 0)(a := 1)) st0 a = 1" "at (infos st0) a = Some gi"
proof -
  show ac: "acct (\<lambda>_. 0) ((\<lambda>_. 0)(a := 1)) {a} st0"
    using acct_append_info [OF assms(1) [unfolded creds_ok_def] assms(4,3)] by (simp add: st0_def a_def)
  show at: "at (infos st0) a = Some gi" by (simp add: st0_def a_def at_append)
  have "held st0 b = held st b" if "held st b \<noteq> None" for b
    using that by (auto simp: held_def st0_def at_append) (auto simp: at_def)
  then show "view t st0 = Some v" using view_held [OF assms(2)] by (simp add: st0_def)
  have "0 < info_refs ((\<lambda>_. 0)(a := 1)) st0 a" by (simp add: info_refs_def)
  from acct_infoD [OF ac this] show "info_refs ((\<lambda>_. 0)(a := 1)) st0 a = 1" using at assms(4) by auto
qed

lemma setgroups_fault:
  assumes "creds_ok st" "view t st = Some v" "wf_gi gi" "gi_usage gi = 1"
  defines "a \<equiv> length (infos st)"
  shows "\<exists>st'. put_group_info a (st\<lparr>pages := pages st + pages_of gi, infos := infos st @ [Some gi]\<rparr>) = Some st' \<and>
    creds_ok st' \<and> view t st' = Some v"
proof -
  note f = fresh_list [OF assms(1-4), folded a_def]
  have "(\<lambda>_. 0 :: nat)(a := 1, a := 0) = (\<lambda>_. 0)" by auto
  then show ?thesis using drop_list [OF f(1) _ f(3) f(2)] by (simp add: creds_ok_def)
qed

lemma setgroups_install:
  assumes "creds_ok st" "view t st = Some (u, g, e, xs)" "wf_gi gi" "gi_usage gi = 1" "with_gids gi ys gi'"
  defines "a \<equiv> length (infos st)"
  shows "\<exists>r s st'. set_current_groups p t a (st\<lparr>pages := pages st + pages_of gi, infos := infos st @ [Some gi']\<rparr>) = Some (r, s) \<and>
    put_group_info a s = Some st' \<and> creds_ok st' \<and> r = (if p = Prepared then None else Some ENOMEM) \<and>
    view t st' = Some (u, g, e, if r = None then sort ys else xs)"
proof -
  let ?Y = "(\<lambda>_. 0 :: nat)(a := 1)" and ?s0 = "st\<lparr>pages := pages st + pages_of gi, infos := infos st @ [Some gi']\<rparr>"
  have gi': "wf_gi gi'" "gi_usage gi' = 1" "pages_of gi' = pages_of gi" "gids gi' = ys"
    using assms(4,5) by (auto simp: with_gids_def pages_of_def)
  note f = fresh_list [OF assms(1,2) gi'(1,2), folded a_def, unfolded gi'(3)]
  obtain c where c: "at (tasks ?s0) t = Some c" using view_task [OF f(2)] by blast
  obtain r s where s: "set_current_groups p t a ?s0 = Some (r, s)" "acct (\<lambda>_. 0) ?Y {a} s"
    and rp: "r = (if p = Prepared then None else Some ENOMEM)" and s3:
    "r = None \<Longrightarrow> acct (\<lambda>_. 0) ?Y {} s \<and> view t s = Some (u, g, e, sort ys) \<and> 1 < info_refs ?Y s a"
    "r \<noteq> None \<Longrightarrow> view t s = view t ?s0 \<and> info_refs ?Y s = info_refs ?Y ?s0"
    using set_current_groups_acct [OF f(1) _ c f(4) f(2), of p] gi'(4) by (auto split del: if_split)
  have Y: "?Y(a := 0) = (\<lambda>_. 0)" and Y': "?Y(a := ?Y a - 1) = (\<lambda>_. 0)" by auto
  show ?thesis
  proof (cases "r = None")
    case True
    have n: "acct (\<lambda>_. 0) ?Y {} s" "view t s = Some (u, g, e, sort ys)" "info_refs ?Y s a \<noteq> 1"
      using s3(1) [OF True] by (blast, blast, linarith)
    have one: "0 < ?Y a" by simp
    obtain st' where st': "put_group_info a s = Some st'" "acct (\<lambda>_. 0) (\<lambda>_. 0) {} st'" "creds st' = creds s"
      "tasks st' = tasks s" "held st' = held s"
      using put_group_info_acct [OF n(1) one, unfolded Y' if_not_P [OF n(3)]] by blast
    have "view t st' = Some (u, g, e, sort ys)" using view_held [OF n(2) st'(4,3)] st'(5) by simp
    then show ?thesis using s(1) True st'(1,2) rp by (auto simp: creds_ok_def)
  next
    case False
    note n = s3(2) [OF False]
    have "info_refs ?Y s a = 1" "view t s = Some (u, g, e, xs)" using n f(2,3) by auto
    from drop_list [OF s(2) _ this(1,2)] show ?thesis using s(1) False Y rp by (auto simp: creds_ok_def)
  qed
qed

definition setgroups_result :: "bool \<Rightarrow> fill option \<Rightarrow> (nat \<Rightarrow> fill option) \<Rightarrow> prepare_outcome \<Rightarrow> u32
    \<Rightarrow> u32 list \<Rightarrow> errno option" where
  "setgroups_result capable km pg p n ul =
     (if \<not> capable then Some EPERM
      else if NGROUPS_MAX < unat n then Some EINVAL
      else if fst (groups_alloc km pg (unat n) 0) = None then Some ENOMEM
      else if length ul < unat n then Some EFAULT
      else if p \<noteq> Prepared then Some ENOMEM else None)"

lemma alloc_blocks_pages: "fst (alloc_blocks pg i n bs q) = fst (alloc_blocks pg i n bs 0)"
proof (induction n arbitrary: i bs q)
  case (Suc n)
  show ?case using Suc [of "i + 1" _ "q + 1"] Suc [of "i + 1" _ 1] by (simp split: option.splits)
qed simp

lemma groups_alloc_pages: "fst (groups_alloc km pg n q) = fst (groups_alloc km pg n 0)"
  by (auto simp: groups_alloc_def Let_def split: option.splits prod.splits) (metis alloc_blocks_pages fst_conv option.distinct(1) option.inject)+

lemma setgroups_spec:
  assumes "creds_ok st" "view t st = Some (u, g, e, xs)"
  shows "\<exists>r st'. setgroups capable km pg p t n ul st = Some (r, st') \<and> creds_ok st' \<and>
    r = setgroups_result capable km pg p n ul \<and>
    (r \<noteq> None \<longrightarrow> view t st' = view t st) \<and>
    (r = None \<longrightarrow> unat n \<le> NGROUPS_MAX \<and> unat n \<le> length ul \<and>
      view t st' = Some (u, g, e, sort (take (unat n) ul)))"
proof (cases "\<not> capable \<or> NGROUPS_MAX < unat n")
  case True
  then show ?thesis using assms by (auto simp: setgroups_def setgroups_result_def)
next
  case False
  obtain go pgs where al: "groups_alloc km pg (unat n) (pages st) = (go, pgs)" by fastforce
  note spec = groups_alloc_spec [OF al]
  have al0: "fst (groups_alloc km pg (unat n) 0) = go" using al groups_alloc_pages [of km pg "unat n" "pages st"] by simp
  show ?thesis
  proof (cases go)
    case None
    then have "st\<lparr>pages := pgs\<rparr> = st" using spec by simp
    then show ?thesis using False assms al None al0 by (auto simp: setgroups_def setgroups_result_def)
  next
    case (Some gi)
    then have gi: "wf_gi gi" "blocks gi \<noteq> []" "ngroups gi = unat n" "gi_usage gi = 1" "pgs = pages st + pages_of gi"
      using spec by auto
    note fu = groups_from_user_spec [OF gi(1,2), of ul, unfolded gi(3)]
    show ?thesis
    proof (cases "unat n \<le> length ul")
      case True
      then obtain gi' where gi': "groups_from_user gi ul = Some (Inr gi')" "with_gids gi (take (unat n) ul) gi'"
        using fu by auto
      show ?thesis
        using setgroups_install [OF assms gi(1,4) gi'(2), of p] False al Some gi(5) gi'(1) True assms(2)
        by (auto simp: setgroups_def setgroups_result_def al0 Let_def split: if_splits)
    next
      case nf: False
      then have "groups_from_user gi ul = Some (Inl EFAULT)" using fu by simp
      then show ?thesis using setgroups_fault [OF assms gi(1,4)] False al Some gi(5) assms(2) nf
        by (auto simp: setgroups_def setgroups_result_def al0 Let_def)
    qed
  qed
qed


section \<open>Fork and exit\<close>

lemma create_user_ns_acct:
  assumes "acct X Y U st" "0 < X new" "at (creds st) new = Some cr" "cred_refs X st new = X new"
  shows "\<exists>r st'. create_user_ns ok new st = Some (r, st') \<and> acct X Y U st' \<and> tasks st' = tasks st"
proof (cases ok)
  case False
  then show ?thesis using assms by (simp add: create_user_ns_def)
next
  case True
  let ?g = "cr_group_info cr" and ?cs = "(creds st)[new := None]" and ?X = "X(new := 0)"
  let ?fr = "st\<lparr>creds := ?cs\<rparr>" and ?cr = "cr\<lparr>fsuid := 0, egid := 0, fsgid := 0, cr_group_info := 0\<rparr>"
  have new: "new < length (creds st)" "creds st ! new = Some cr" using assms(3) by (auto simp: at_Some)
  have "acct ?X (Y(?g := Y ?g + 1)) U ?fr"
    by (rule acct_free_cred [OF assms(1,3)]) (use assms(4) in \<open>auto simp: cred_refs_def\<close>)
  from put_group_info_acct [OF this, of ?g]
  obtain s where s: "put_group_info ?g ?fr = Some s" "acct ?X Y U s" "tasks s = tasks st" by auto
  obtain s0 where s0: "put_group_info ?g st = Some s0" "s = s0\<lparr>creds := ?cs\<rparr>"
    using s(1) by (auto simp: put_group_info_creds)
  have "0 < info_refs Y s 0" by (simp add: info_refs_def)
  from get_group_info_acct [OF s(2) this]
  obtain s2 where s2: "get_group_info 0 s = Some s2" "acct ?X (Y(0 := Y 0 + 1)) U s2" "creds s2 = creds s"
    "tasks s2 = tasks s" by auto
  obtain s3 where s3: "get_group_info 0 s0 = Some s3" "s2 = s3\<lparr>creds := ?cs\<rparr>"
    using s2(1) s0(2) by (auto simp: get_group_info_creds)
  have k: "creds s3 = creds st" using s0(1) s3(1) by (auto dest!: group_info_keeps_creds)
  let ?st' = "s2\<lparr>creds := (creds s2)[new := Some ?cr]\<rparr>"
  have "create_user_ns ok new st = Some (None, ?st')"
    using assms(3) s0(1) s3 k True by (simp add: create_user_ns_def)
  moreover have "acct X Y U ?st'"
  proof (rule acct_set_cred [OF s2(2), where n = "X new"])
    show "cr_usage ?cr = int (X new)" using acct_credD [OF assms(1), of new] assms(2-4) by auto
    show "cred_refs X s2 = (cred_refs ?X s2)(new := X new)"
      using assms(4) s2(4) s(3) by (auto simp: cred_refs_def)
  qed (use new assms(2) s2(3) s0(2) in auto)
  ultimately show ?thesis using s2(4) s(3) by simp
qed

lemma acct_new_task:
  assumes "acct (X(c := X c + 2)) Y U st"
  shows "acct X Y U (st\<lparr>tasks := tasks st @ [Some c]\<rparr>)"
  by (rule acct_tasks [OF assms]) (auto simp: cred_refs_def refs_append refs_single fun_eq_iff)

lemma copy_creds_ok:
  assumes "creds_ok st" "at (tasks st) t = Some c"
  shows "\<exists>r st'. copy_creds share p newuser tg t st = Some (r, st') \<and> creds_ok st'"
proof -
  let ?Z = "\<lambda>_. 0 :: nat"
  have ok: "acct ?Z ?Z {} st" using assms(1) by (simp add: creds_ok_def)
  obtain cr where cr: "at (creds st) c = Some cr" using task_cred [OF ok assms(2)] by blast
  have live: "0 < cred_refs X st c" for X
    using refs_pos [of t "tasks st"] assms(2) by (auto simp: cred_refs_def at_Some)
  consider "share" | "\<not> share" "p \<noteq> Prepared" | "\<not> share" "p = Prepared" by blast
  then show ?thesis
  proof cases
    case 1
    obtain s where s: "get_cred c st = Some s" "acct (?Z(c := 1)) ?Z {} s" "tasks s = tasks st"
      using get_cred_acct [OF ok live] by auto
    have "0 < cred_refs (?Z(c := 1)) s c" by (simp add: cred_refs_def)
    from get_cred_acct [OF s(2) this] obtain s' where s': "get_cred c s = Some s'" "acct (?Z(c := 2)) ?Z {} s'"
      by (auto simp: numeral_2_eq_2)
    from acct_new_task [of ?Z c ?Z "{}" s'] s'(2) show ?thesis
      using 1 assms(2) s(1) s'(1) by (simp add: copy_creds_def creds_ok_def numeral_2_eq_2)
  next
    case 2
    then show ?thesis using prepare_refused [OF ok assms(2) 2(2)]
      by (auto simp: copy_creds_def creds_ok_def)
  next
    case 3
    let ?new = "length (creds st)" and ?X = "?Z(length (creds st) := 1)"
    obtain s where s: "prepare_creds p t st = Some (Some ?new, s)" "prepared ?Z ?Z {} ?new cr st s"
      using prepare_creds_acct [OF ok assms(2) cr] 3(2) by auto
    note new = prepared_new [OF s(2) cr]
    have s': "acct ?X ?Z {} s" using s(2) by (auto simp: prepared_def)
    obtain ret s1 where s1: "(case newuser of None \<Rightarrow> Some (None, s) | Some al \<Rightarrow> create_user_ns al ?new s) = Some (ret, s1)"
      "acct ?X ?Z {} s1"
      using create_user_ns_acct [OF s' _ new(1)] new(2) s' by (cases newuser) fastforce+
    have "?X(?new := 0) = ?Z" by auto
    then obtain s2 where s2: "put_cred t ?new s1 = Some s2" "acct ?Z ?Z {} s2"
      using put_cred_acct [OF s1(2), of ?new t] by auto
    have "0 < cred_refs ?X s1 ?new" by (simp add: cred_refs_def)
    from get_cred_acct [OF s1(2) this] obtain s3 where s3: "get_cred ?new s1 = Some s3" "acct (?Z(?new := 2)) ?Z {} s3"
      by (auto simp: numeral_2_eq_2)
    show ?thesis
      using acct_new_task [of ?Z ?new ?Z "{}" s3] 3(1) s(1) s1(1) s2 s3
      by (auto simp: copy_creds_def creds_ok_def Let_def numeral_2_eq_2 split: option.splits)
  qed
qed

lemma exit_creds_ok:
  assumes "creds_ok st" "at (tasks st) t = Some c"
  shows "\<exists>st'. exit_creds cur t st = Some st' \<and> creds_ok st'"
proof -
  let ?Z = "\<lambda>_. 0 :: nat" and ?s = "st\<lparr>tasks := (tasks st)[t := None]\<rparr>"
  have "acct (?Z(c := ?Z c + 2)) ?Z {} ?s"
  proof (rule acct_tasks [OF assms(1) [unfolded creds_ok_def]], rule ext)
    fix d
    show "cred_refs (?Z(c := ?Z c + 2)) ?s d = cred_refs ?Z st d"
      using refs_update [of t "tasks st" None "Some d"] assms(2) by (auto simp: cred_refs_def at_Some)
  qed
  from put_cred_twice [OF this, of cur] show ?thesis
    using assms(2) by (auto simp: exit_creds_def creds_ok_def Let_def)
qed

section \<open>Everything tasks can do\<close>

inductive cred_step :: "cstate \<Rightarrow> cstate \<Rightarrow> bool" where
  do_setgroups: "at (tasks st) t = Some c \<Longrightarrow> setgroups capable km pg p t n ul st = Some (r, st') \<Longrightarrow> cred_step st st'"
| do_fork: "at (tasks st) t = Some c \<Longrightarrow> copy_creds share p newuser tg t st = Some (r, st') \<Longrightarrow> cred_step st st'"
| do_exit: "at (tasks st) t = Some c \<Longrightarrow> exit_creds cur t st = Some st' \<Longrightarrow> cred_step st st'"

lemma live_view:
  assumes "creds_ok st" "at (tasks st) t = Some c"
  shows "\<exists>u g e xs. view t st = Some (u, g, e, xs) \<and> sorted xs"
proof -
  have ok: "acct (\<lambda>_. 0) (\<lambda>_. 0) {} st" using assms(1) by (simp add: creds_ok_def)
  obtain cr where cr: "at (creds st) c = Some cr" "0 < info_refs (\<lambda>_. 0) st (cr_group_info cr)"
    using task_cred [OF ok assms(2)] by blast
  obtain gi where gi: "at (infos st) (cr_group_info cr) = Some gi" using acct_infoD [OF ok cr(2)] by blast
  then have "sorted (gids gi)" using ok by (auto simp: acct_def lists_ok_def)
  then show ?thesis using assms(2) cr(1) gi by (simp add: view_def current_groups_def)
qed

lemma init_state_ok: "creds_ok init_state"
  by (auto simp: creds_ok_def acct_def usage_ok_def cred_usage_def info_usage_def cred_refs_def info_refs_def
      init_state_def init_cred_def init_groups_def lists_ok_def wf_gi_def gids_def tight_def pages_of_def
      refs_single at_def split: if_splits)

lemma cred_step_ok: "cred_step st st' \<Longrightarrow> creds_ok st \<Longrightarrow> creds_ok st'"
proof (induction rule: cred_step.induct)
  case (do_setgroups st t c capable km pg p n ul r st')
  obtain u g e xs where "view t st = Some (u, g, e, xs)"
    using live_view [OF do_setgroups.prems do_setgroups.hyps(1)] by blast
  from setgroups_spec [OF do_setgroups.prems this, of capable km pg p n ul] do_setgroups.hyps show ?case by auto
next
  case (do_fork st t c share p newuser tg r st')
  then show ?case using copy_creds_ok [OF do_fork.prems do_fork.hyps(1), of share p newuser tg] by auto
next
  case (do_exit st t c cur st')
  then show ?case using exit_creds_ok [OF do_exit.prems do_exit.hyps(1), of cur] by auto
qed

lemma reachable_ok: "cred_step\<^sup>*\<^sup>* init_state st \<Longrightarrow> creds_ok st"
  by (induction rule: rtranclp_induct) (auto intro: init_state_ok cred_step_ok)

definition info_users :: "cstate \<Rightarrow> nat \<Rightarrow> nat" where
  "info_users st a = length [cr \<leftarrow> creds st. map_option cr_group_info cr = Some a]"

lemma count_list_filter: "count_list (map f xs) z = length [x \<leftarrow> xs. f x = z]"
  by (induction xs) auto

lemma creds_okD:
  assumes "creds_ok st"
  shows "at (creds st) c = Some cr \<Longrightarrow>
      cr_usage cr = 2 * int (count_list (tasks st) (Some c)) + (if c = 0 then 2 else 0)"
    "at (infos st) a = Some gi \<Longrightarrow>
      gi_usage gi = int (info_users st a) + (if a = 0 then 1 else 0) \<and> 0 < gi_usage gi"
proof -
  have u: "usage_ok (cred_usage st) (cred_refs (\<lambda>_. 0) st)" "usage_ok (info_usage st) (info_refs (\<lambda>_. 0) st)"
    using assms by (simp_all add: creds_ok_def acct_def)
  show "at (creds st) c = Some cr \<Longrightarrow>
      cr_usage cr = 2 * int (count_list (tasks st) (Some c)) + (if c = 0 then 2 else 0)"
    using u(1) [unfolded usage_ok_def, THEN spec, of c]
    by (auto simp: cred_usage_def cred_refs_def refs_def split: if_splits)
  show "at (infos st) a = Some gi \<Longrightarrow>
      gi_usage gi = int (info_users st a) + (if a = 0 then 1 else 0) \<and> 0 < gi_usage gi"
    using u(2) [unfolded usage_ok_def, THEN spec, of a]
    by (auto simp: info_usage_def info_refs_def refs_def info_users_def count_list_filter split: if_splits)
qed

section \<open>Properties\<close>

lemma current_groups_view:
  "current_groups t st = Some (cr, gi) \<Longrightarrow> view t st = Some (fsuid cr, fsgid cr, egid cr, gids gi)"
  by (simp add: view_def)

lemma view_current_groups:
  assumes "creds_ok st" "view t st = Some (u, g, e, xs)"
  obtains cr gi where "current_groups t st = Some (cr, gi)" "fsgid cr = g" "egid cr = e" "gids gi = xs"
    "wf_gi gi" "sorted xs"
proof -
  obtain cr gi where c: "current_groups t st = Some (cr, gi)" "fsgid cr = g" "egid cr = e" "gids gi = xs"
    using assms(2) by (auto simp: view_def)
  obtain a where "at (infos st) a = Some gi" using c(1) by (auto simp: current_groups_def split: bind_splits)
  then have "wf_gi gi" "sorted (gids gi)" using assms(1) by (auto simp: creds_ok_def acct_def lists_ok_def)
  then show thesis using c that by blast
qed

lemma in_group_p_view:
  assumes "creds_ok st" "view t st = Some (u, g, e, xs)" "\<forall>x \<in> set xs. x < 0x80000000" "grp < 0x80000000"
  shows "in_group_p t st grp = Some (grp = g \<or> grp \<in> set xs)" "in_egroup_p t st grp = Some (grp = e \<or> grp \<in> set xs)"
proof -
  obtain cr gi where c: "current_groups t st = Some (cr, gi)" "fsgid cr = g" "egid cr = e" "gids gi = xs"
    "wf_gi gi" "sorted xs"
    using view_current_groups [OF assms(1,2)] .
  have "groups_search (Some gi) grp = Some (grp \<in> set xs)"
    using groups_search_spec [OF c(5) _ _ assms(4)] c(4,6) assms(3) by (simp add: gids31_def)
  then show "in_group_p t st grp = Some (grp = g \<or> grp \<in> set xs)"
    "in_egroup_p t st grp = Some (grp = e \<or> grp \<in> set xs)"
    using c by (simp_all add: in_group_p_def in_egroup_p_def)
qed

text \<open>
  C6: after any sequence of \<open>setgroups\<close>, \<open>fork\<close> and \<open>exit\<close> calls, with any allocation failures,
  the usage count of every set of credentials is exactly two for each task that uses it, the count
  of every group list is exactly the number of credentials that point to it (plus the references
  that keep the initial objects alive), every live list is positively counted, the pages taken from
  the allocator are those of the live lists, and no further call can touch a freed object.
\<close>

theorem group_refcounts_exact:
  assumes "cred_step\<^sup>*\<^sup>* init_state st"
  shows "(\<forall>c cr. at (creds st) c = Some cr \<longrightarrow>
      cr_usage cr = 2 * int (count_list (tasks st) (Some c)) + (if c = 0 then 2 else 0)) \<and>
    (\<forall>a gi. at (infos st) a = Some gi \<longrightarrow>
      gi_usage gi = int (info_users st a) + (if a = 0 then 1 else 0) \<and> 0 < gi_usage gi) \<and>
    pages st = sum_list (map info_pages (infos st)) \<and>
    (\<forall>t c. at (tasks st) t = Some c \<longrightarrow> current_groups t st \<noteq> None \<and>
      setgroups capable km pg p t n ul st \<noteq> None \<and> copy_creds share p newuser tg t st \<noteq> None \<and>
      exit_creds cur t st \<noteq> None)"
proof -
  have ok: "creds_ok st" by (rule reachable_ok [OF assms])
  have "current_groups t st \<noteq> None \<and> setgroups capable km pg p t n ul st \<noteq> None \<and>
      copy_creds share p newuser tg t st \<noteq> None \<and> exit_creds cur t st \<noteq> None"
    if t: "at (tasks st) t = Some c" for t c
  proof -
    obtain u g e xs where v: "view t st = Some (u, g, e, xs)" using live_view [OF ok t] by blast
    show ?thesis
      using v setgroups_spec [OF ok v, of capable km pg p n ul] copy_creds_ok [OF ok t, of share p newuser tg]
        exit_creds_ok [OF ok t, of cur] by (auto simp: view_def)
  qed
  moreover have "pages st = sum_list (map info_pages (infos st))" using ok by (simp add: creds_ok_def acct_def)
  ultimately show ?thesis using creds_okD [OF ok] by blast
qed

text \<open>
  C8: \<open>setgroups\<close> returns exactly the error of the first check that fails, and then the task's groups
  are as before; when it succeeds, \<open>in_group_p\<close> answers yes exactly for the task's file system
  group and the groups in the user's array: the Shell sort and the binary search together decide
  membership, for identifiers below \<open>2 ^ 31\<close>.
\<close>

theorem setgroups_membership:
  assumes "cred_step\<^sup>*\<^sup>* init_state st" "current_groups t st = Some (cr, gi)"
  shows "\<exists>r st'. setgroups capable km pg p t n ul st = Some (r, st') \<and>
    r = setgroups_result capable km pg p n ul \<and>
    (r \<noteq> None \<longrightarrow> view t st' = view t st) \<and>
    (r = None \<longrightarrow> (\<forall>x \<in> set (take (unat n) ul). x < 0x80000000) \<longrightarrow>
      (\<forall>grp < 0x80000000. in_group_p t st' grp = Some (grp = fsgid cr \<or> grp \<in> set (take (unat n) ul))))"
proof -
  have ok: "creds_ok st" by (rule reachable_ok [OF assms(1)])
  obtain r st' where r: "setgroups capable km pg p t n ul st = Some (r, st')" "creds_ok st'"
    "r = setgroups_result capable km pg p n ul" "r \<noteq> None \<longrightarrow> view t st' = view t st"
    "r = None \<longrightarrow> view t st' = Some (fsuid cr, fsgid cr, egid cr, sort (take (unat n) ul))"
    using setgroups_spec [OF ok current_groups_view [OF assms(2)], of capable km pg p n ul] by auto
  have "in_group_p t st' grp = Some (grp = fsgid cr \<or> grp \<in> set (take (unat n) ul))"
    if "r = None" "\<forall>x \<in> set (take (unat n) ul). x < 0x80000000" "grp < 0x80000000" for grp
    using in_group_p_view(1) [OF r(2) r(5) [rule_format, OF that(1)] _ that(3)] that(2) by simp
  then show ?thesis using r by blast
qed

theorem setgroups_membership_witness:
  "\<exists>st'. setgroups True (Some (\<lambda>_. 0)) (\<lambda>_. None) Prepared 0 3 [7, 3, 5] init_state = Some (None, st') \<and>
     in_group_p 0 st' 5 = Some True \<and> in_group_p 0 st' 6 = Some False"
proof -
  have c: "current_groups 0 init_state = Some (init_cred, init_groups)"
    by (simp add: current_groups_def init_state_def at_def init_cred_def)
  have r: "setgroups_result True (Some (\<lambda>_. 0)) (\<lambda>_. None) Prepared 3 [7, 3, 5] = None"
    by (simp add: setgroups_result_def groups_alloc_def Let_def NGROUPS_MAX_def NGROUPS_SMALL_def)
  have g: "\<forall>x \<in> set (take (unat (3 :: u32)) [7, 3, 5]). x < (0x80000000 :: u32)" by simp
  from setgroups_membership [OF rtranclp.rtrancl_refl c, of True "Some (\<lambda>_. 0)" "\<lambda>_. None" Prepared 3 "[7, 3, 5]",
      unfolded r] g
  show ?thesis by (force simp: init_cred_def)
qed

text \<open>
  C15: \<open>getgroups\<close> after a successful \<open>setgroups\<close> returns the number of groups and writes the user's
  groups back in ascending order, leaving the rest of the buffer alone; it reports \<open>EINVAL\<close> for a
  buffer size that is too small and \<open>EFAULT\<close> for a buffer that cannot be written.
\<close>

theorem setgroups_getgroups:
  assumes "cred_step\<^sup>*\<^sup>* init_state st" "current_groups t st = Some (cr, gi)"
    "setgroups capable km pg p t n ul st = Some (None, st')"
  shows "getgroups t sz ub st' = Some
    (if sz < 0 then Inl EINVAL else if sz = 0 then Inr (uint n, ub)
     else if sz < uint n then Inl EINVAL else if length ub < unat n then Inl EFAULT
     else Inr (uint n, sort (take (unat n) ul) @ drop (unat n) ub))"
proof -
  have ok: "creds_ok st" by (rule reachable_ok [OF assms(1)])
  from setgroups_spec [OF ok current_groups_view [OF assms(2)], of capable km pg p n ul] assms(3)
  have v: "creds_ok st'" "view t st' = Some (fsuid cr, fsgid cr, egid cr, sort (take (unat n) ul))"
    and n: "unat n \<le> length ul" by auto
  obtain cr' gi' where c: "current_groups t st' = Some (cr', gi')" "gids gi' = sort (take (unat n) ul)" "wf_gi gi'"
    using view_current_groups [OF v] .
  have "ngroups gi' = length (gids gi')" using length_gids [OF c(3)] by simp
  then have "ngroups gi' = unat n" unfolding c(2) using n by simp
  then show ?thesis using c groups_to_user_spec [OF c(3), of ub] by (simp add: getgroups_def)
qed

lemma small_setgroups:
  "\<exists>st. setgroups True (Some (\<lambda>_. 0)) (\<lambda>_. None) Prepared 0 3 [x, y, z] init_state = Some (None, st) \<and>
     creds_ok st \<and> view 0 st = Some (0, 0, 0, sort [x, y, z])"
proof -
  have "view 0 init_state = Some (0, 0, 0, [])"
    by (simp add: view_def current_groups_def init_state_def at_def init_cred_def init_groups_def gids_def)
  moreover have "setgroups_result True (Some (\<lambda>_. 0)) (\<lambda>_. None) Prepared 3 [x, y, z] = None"
    by (simp add: setgroups_result_def groups_alloc_def Let_def NGROUPS_MAX_def NGROUPS_SMALL_def)
  ultimately show ?thesis
    using setgroups_spec [OF init_state_ok, of 0 0 0 0 "[]" True "Some (\<lambda>_. 0)" "\<lambda>_. None" Prepared 3 "[x, y, z]"]
    by auto
qed

theorem group_refcounts_exact_witness:
  "\<exists>st. setgroups True (Some (\<lambda>_. 0)) (\<lambda>_. None) Prepared 0 3 [7, 3, 5] init_state = Some (None, st) \<and>
     current_groups 0 st \<noteq> None \<and> exit_creds 1 0 st \<noteq> None \<and> pages st = sum_list (map info_pages (infos st))"
proof -
  obtain st where st: "setgroups True (Some (\<lambda>_. 0)) (\<lambda>_. None) Prepared 0 3 [7, 3, 5] init_state = Some (None, st)"
    "view 0 st = Some (0, 0, 0, sort [7, 3, 5])" using small_setgroups by blast
  have "at (tasks init_state) 0 = Some 0" by (simp add: init_state_def at_def)
  then have "cred_step\<^sup>*\<^sup>* init_state st" using do_setgroups [OF _ st(1)] by blast
  from group_refcounts_exact [OF this] view_task [OF st(2)] st(1) show ?thesis by blast
qed

theorem setgroups_getgroups_witness:
  "\<exists>st. setgroups True (Some (\<lambda>_. 0)) (\<lambda>_. None) Prepared 0 3 [7, 3, 5] init_state = Some (None, st) \<and>
     getgroups 0 4 [0, 0, 0, 9] st = Some (Inr (3, [3, 5, 7, 9]))"
proof -
  obtain st where st: "setgroups True (Some (\<lambda>_. 0)) (\<lambda>_. None) Prepared 0 3 [7, 3, 5] init_state = Some (None, st)"
    using small_setgroups by blast
  have c: "current_groups 0 init_state = Some (init_cred, init_groups)"
    by (simp add: current_groups_def init_state_def at_def init_cred_def)
  from setgroups_getgroups [OF rtranclp.rtrancl_refl c st, of 4 "[0, 0, 0, 9]"] st show ?thesis by simp
qed

text \<open>
  The search compares with a signed difference, so a list that holds both small and very large
  identifiers is not searched correctly: here a task that has just been given the group
  \<open>0xF0000000\<close> is told that it is not a member.
\<close>

lemma large_gid_not_found:
  "\<exists>st. setgroups True (Some (\<lambda>_. 0)) (\<lambda>_. None) Prepared 0 3 [0xF0000000, 1, 2] init_state = Some (None, st) \<and>
     in_group_p 0 st 0xF0000000 = Some False"
proof -
  obtain st where st: "setgroups True (Some (\<lambda>_. 0)) (\<lambda>_. None) Prepared 0 3 [0xF0000000, 1, 2] init_state = Some (None, st)"
    "creds_ok st" "view 0 st = Some (0, 0, 0, sort [0xF0000000, 1, 2])" using small_setgroups by blast
  obtain cr gi where c: "current_groups 0 st = Some (cr, gi)" "fsgid cr = 0" "gids gi = sort [0xF0000000, 1, 2]" "wf_gi gi"
    using view_current_groups [OF st(2,3)] .
  have "sort [0xF0000000, 1, 2 :: u32] = [1, 2, 0xF0000000]" by code_simp
  with c(3) have g: "gids gi = [1, 2, 0xF0000000]" by simp
  then have n: "ngroups gi = 3" using length_gids [OF c(4)] by simp
  have "search_loop gi 0xF0000000 0 3 = Some False"
  proof -
    have cmp: "sint (0xF0000000 - 2 :: u32) < 0" "sint (0xF0000000 - 1 :: u32) < 0" by code_simp+
    then show ?thesis using c(4) n g by (simp add: search_loop.simps GROUP_AT_gids)
  qed
  then show ?thesis using st(1) c n by (auto simp: in_group_p_def groups_search_def)
qed


end
