(* ===== verification/Posix_Acl.thy ===== *)
theory Posix_Acl
  imports Group_Calls
begin

text \<open>
  Access control lists, \<open>fs/posix_acl.c\<close>, and their extended attribute form, \<open>fs/xattr_acl.c\<close>.
  An access control list is a list of entries with a tag, permission bits and an identifier.  The
  modelled operations check a list, derive it from or turn it into a file mode, apply a creation
  mode or a \<open>chmod\<close>, decide an access request, and convert between memory and attribute
  representation.  A request asks the credentials of the current task for its file system user
  and, through \<open>in_group_p\<close>, for its groups.
\<close>

section \<open>Entries\<close>

definition ACL_UNDEFINED_ID :: u32 where "ACL_UNDEFINED_ID = 0xFFFFFFFF"
definition ACL_USER_OBJ :: u16 where "ACL_USER_OBJ = 0x01"
definition ACL_USER :: u16 where "ACL_USER = 0x02"
definition ACL_GROUP_OBJ :: u16 where "ACL_GROUP_OBJ = 0x04"
definition ACL_GROUP :: u16 where "ACL_GROUP = 0x08"
definition ACL_MASK :: u16 where "ACL_MASK = 0x10"
definition ACL_OTHER :: u16 where "ACL_OTHER = 0x20"

definition S_IRWXU :: u16 where "S_IRWXU = 0x1C0"
definition S_IRWXG :: u16 where "S_IRWXG = 0x38"
definition S_IRWXO :: u16 where "S_IRWXO = 7"
definition S_IRWXUGO :: u16 where "S_IRWXUGO = S_IRWXU OR S_IRWXG OR S_IRWXO"

named_theorems acl_tags

lemmas acl_tag_defs [acl_tags] = ACL_USER_OBJ_def ACL_USER_def ACL_GROUP_OBJ_def ACL_GROUP_def ACL_MASK_def
  ACL_OTHER_def

lemmas mode_defs = S_IRWXU_def S_IRWXG_def S_IRWXO_def S_IRWXUGO_def

record posix_acl_entry =
  e_tag :: u16
  e_perm :: u16
  e_id :: u32

record posix_acl =
  a_refcount :: int
  a_entries :: "posix_acl_entry list"

section \<open>Allocation and reference counts\<close>

text \<open>The entries of a fresh list are arbitrary: an allocation outcome is \<open>None\<close> or gives them.\<close>

definition posix_acl_alloc :: "(nat \<Rightarrow> posix_acl_entry) option \<Rightarrow> nat \<Rightarrow> posix_acl option" where
  "posix_acl_alloc mem cnt =
     map_option (\<lambda>f. \<lparr>a_refcount = 1, a_entries = map f [0..<cnt]\<rparr>) mem"

definition posix_acl_clone :: "bool \<Rightarrow> posix_acl option \<Rightarrow> posix_acl option" where
  "posix_acl_clone mem acl =
     (case acl of None \<Rightarrow> None | Some a \<Rightarrow> if mem then Some (a\<lparr>a_refcount := 1\<rparr>) else None)"

definition posix_acl_dup :: "posix_acl option \<Rightarrow> posix_acl option" where
  "posix_acl_dup acl = map_option (\<lambda>a. a\<lparr>a_refcount := a_refcount a + 1\<rparr>) acl"

definition posix_acl_release :: "posix_acl option \<Rightarrow> posix_acl option" where
  "posix_acl_release acl =
     (case acl of
        None \<Rightarrow> None
      | Some a \<Rightarrow> let a = a\<lparr>a_refcount := a_refcount a - 1\<rparr> in
                  if a_refcount a = 0 then None else Some a)"

section \<open>Validity\<close>

fun valid_loop :: "u16 \<Rightarrow> u32 \<Rightarrow> bool \<Rightarrow> posix_acl_entry list \<Rightarrow> errno option" where
  "valid_loop state i needs_mask [] = (if state = 0 then None else Some EINVAL)"
| "valid_loop state i needs_mask (pa # rest) =
     (if e_perm pa AND NOT 7 \<noteq> 0 then Some EINVAL
      else if e_tag pa = ACL_USER_OBJ then
        (if state = ACL_USER_OBJ then valid_loop ACL_USER 0 needs_mask rest else Some EINVAL)
      else if e_tag pa = ACL_USER then
        (if state \<noteq> ACL_USER then Some EINVAL
         else if e_id pa = ACL_UNDEFINED_ID \<or> e_id pa < i then Some EINVAL
         else valid_loop state (e_id pa + 1) True rest)
      else if e_tag pa = ACL_GROUP_OBJ then
        (if state = ACL_USER then valid_loop ACL_GROUP 0 needs_mask rest else Some EINVAL)
      else if e_tag pa = ACL_GROUP then
        (if state \<noteq> ACL_GROUP then Some EINVAL
         else if e_id pa = ACL_UNDEFINED_ID \<or> e_id pa < i then Some EINVAL
         else valid_loop state (e_id pa + 1) True rest)
      else if e_tag pa = ACL_MASK then
        (if state \<noteq> ACL_GROUP then Some EINVAL else valid_loop ACL_OTHER i needs_mask rest)
      else if e_tag pa = ACL_OTHER then
        (if state = ACL_OTHER \<or> (state = ACL_GROUP \<and> \<not> needs_mask)
         then valid_loop 0 i needs_mask rest else Some EINVAL)
      else Some EINVAL)"

definition posix_acl_valid :: "posix_acl_entry list \<Rightarrow> errno option" where
  "posix_acl_valid acl = valid_loop ACL_USER_OBJ 0 False acl"

section \<open>File modes\<close>

fun equiv_loop :: "u16 \<Rightarrow> bool \<Rightarrow> posix_acl_entry list \<Rightarrow> errno + bool \<times> u16" where
  "equiv_loop mode not_equiv [] = Inr (not_equiv, mode)"
| "equiv_loop mode not_equiv (pa # rest) =
     (if e_tag pa = ACL_USER_OBJ then
        equiv_loop (mode OR push_bit 6 (e_perm pa AND S_IRWXO)) not_equiv rest
      else if e_tag pa = ACL_GROUP_OBJ then
        equiv_loop (mode OR push_bit 3 (e_perm pa AND S_IRWXO)) not_equiv rest
      else if e_tag pa = ACL_OTHER then
        equiv_loop (mode OR (e_perm pa AND S_IRWXO)) not_equiv rest
      else if e_tag pa = ACL_MASK then
        equiv_loop ((mode AND NOT S_IRWXG) OR push_bit 3 (e_perm pa AND S_IRWXO)) True rest
      else if e_tag pa = ACL_USER \<or> e_tag pa = ACL_GROUP then equiv_loop mode True rest
      else Inl EINVAL)"

definition posix_acl_equiv_mode :: "posix_acl_entry list \<Rightarrow> u16 option \<Rightarrow> errno + bool \<times> u16 option" where
  "posix_acl_equiv_mode acl mode_p =
     (case equiv_loop 0 False acl of
        Inl e \<Rightarrow> Inl e
      | Inr (not_equiv, mode) \<Rightarrow>
          Inr (not_equiv, map_option (\<lambda>m. (m AND NOT S_IRWXUGO) OR mode) mode_p))"

definition posix_acl_from_mode :: "(nat \<Rightarrow> posix_acl_entry) option \<Rightarrow> u16 \<Rightarrow> errno + posix_acl" where
  "posix_acl_from_mode mem mode =
     (case posix_acl_alloc mem 3 of
        None \<Rightarrow> Inl ENOMEM
      | Some acl \<Rightarrow> Inr (acl\<lparr>a_entries := (a_entries acl)
          [0 := \<lparr>e_tag = ACL_USER_OBJ, e_perm = drop_bit 6 (mode AND S_IRWXU), e_id = ACL_UNDEFINED_ID\<rparr>,
           1 := \<lparr>e_tag = ACL_GROUP_OBJ, e_perm = drop_bit 3 (mode AND S_IRWXG), e_id = ACL_UNDEFINED_ID\<rparr>,
           2 := \<lparr>e_tag = ACL_OTHER, e_perm = mode AND S_IRWXO, e_id = ACL_UNDEFINED_ID\<rparr>]\<rparr>))"

text \<open>
  \<open>create_scan\<close> is the loop of \<open>posix_acl_create_masq\<close>: the entries already visited, the index of
  the next one, and the indices that \<open>group_obj\<close> and \<open>mask_obj\<close> point to.  An unknown tag stops the
  loop with the entries changed so far.
\<close>

record masq =
  q_mode :: u16
  q_not_equiv :: bool
  q_group_obj :: "nat option"
  q_mask_obj :: "nat option"

fun create_scan :: "posix_acl_entry list \<Rightarrow> posix_acl_entry list \<Rightarrow> masq \<Rightarrow> posix_acl_entry list \<times> masq option" where
  "create_scan seen [] q = (seen, Some q)"
| "create_scan seen (pa # rest) q =
     (let mode = q_mode q in
      if e_tag pa = ACL_USER_OBJ then
        let perm = e_perm pa AND (drop_bit 6 mode OR NOT S_IRWXO) in
        create_scan (seen @ [pa\<lparr>e_perm := perm\<rparr>]) rest (q\<lparr>q_mode := mode AND (push_bit 6 perm OR NOT S_IRWXU)\<rparr>)
      else if e_tag pa = ACL_USER \<or> e_tag pa = ACL_GROUP then
        create_scan (seen @ [pa]) rest (q\<lparr>q_not_equiv := True\<rparr>)
      else if e_tag pa = ACL_GROUP_OBJ then
        create_scan (seen @ [pa]) rest (q\<lparr>q_group_obj := Some (length seen)\<rparr>)
      else if e_tag pa = ACL_OTHER then
        let perm = e_perm pa AND (mode OR NOT S_IRWXO) in
        create_scan (seen @ [pa\<lparr>e_perm := perm\<rparr>]) rest (q\<lparr>q_mode := mode AND (perm OR NOT S_IRWXO)\<rparr>)
      else if e_tag pa = ACL_MASK then
        create_scan (seen @ [pa]) rest (q\<lparr>q_mask_obj := Some (length seen), q_not_equiv := True\<rparr>)
      else (seen @ pa # rest, None))"

definition masq_entry :: "nat \<Rightarrow> u16 \<Rightarrow> posix_acl_entry list \<Rightarrow> posix_acl_entry list \<times> u16" where
  "masq_entry i mode acl =
     (let perm = e_perm (acl ! i) AND (drop_bit 3 mode OR NOT S_IRWXO) in
      (acl[i := (acl ! i)\<lparr>e_perm := perm\<rparr>], mode AND (push_bit 3 perm OR NOT S_IRWXG)))"

definition posix_acl_create_masq :: "posix_acl_entry list \<Rightarrow> u16
    \<Rightarrow> posix_acl_entry list \<times> u16 \<times> (errno + bool)" where
  "posix_acl_create_masq acl mode_p =
     (case create_scan [] acl \<lparr>q_mode = mode_p, q_not_equiv = False, q_group_obj = None, q_mask_obj = None\<rparr> of
        (acl, None) \<Rightarrow> (acl, mode_p, Inl EIO)
      | (acl, Some q) \<Rightarrow>
          (case (case q_mask_obj q of Some i \<Rightarrow> Some i | None \<Rightarrow> q_group_obj q) of
             None \<Rightarrow> (acl, mode_p, Inl EIO)
           | Some i \<Rightarrow>
               (case masq_entry i (q_mode q) acl of
                  (acl, mode) \<Rightarrow> (acl, (mode_p AND NOT S_IRWXUGO) OR mode, Inr (q_not_equiv q)))))"

fun chmod_scan :: "u16 \<Rightarrow> posix_acl_entry list \<Rightarrow> posix_acl_entry list \<Rightarrow> nat option \<Rightarrow> nat option
    \<Rightarrow> posix_acl_entry list \<times> (nat option \<times> nat option) option" where
  "chmod_scan mode seen [] group_obj mask_obj = (seen, Some (group_obj, mask_obj))"
| "chmod_scan mode seen (pa # rest) group_obj mask_obj =
     (if e_tag pa = ACL_USER_OBJ then
        chmod_scan mode (seen @ [pa\<lparr>e_perm := drop_bit 6 (mode AND S_IRWXU)\<rparr>]) rest group_obj mask_obj
      else if e_tag pa = ACL_USER \<or> e_tag pa = ACL_GROUP then
        chmod_scan mode (seen @ [pa]) rest group_obj mask_obj
      else if e_tag pa = ACL_GROUP_OBJ then
        chmod_scan mode (seen @ [pa]) rest (Some (length seen)) mask_obj
      else if e_tag pa = ACL_MASK then
        chmod_scan mode (seen @ [pa]) rest group_obj (Some (length seen))
      else if e_tag pa = ACL_OTHER then
        chmod_scan mode (seen @ [pa\<lparr>e_perm := mode AND S_IRWXO\<rparr>]) rest group_obj mask_obj
      else (seen @ pa # rest, None))"

definition posix_acl_chmod_masq :: "posix_acl_entry list \<Rightarrow> u16 \<Rightarrow> posix_acl_entry list \<times> errno option" where
  "posix_acl_chmod_masq acl mode =
     (case chmod_scan mode [] acl None None of
        (acl, None) \<Rightarrow> (acl, Some EIO)
      | (acl, Some (group_obj, mask_obj)) \<Rightarrow>
          (case (case mask_obj of Some i \<Rightarrow> Some i | None \<Rightarrow> group_obj) of
             None \<Rightarrow> (acl, Some EIO)
           | Some i \<Rightarrow> (acl[i := (acl ! i)\<lparr>e_perm := drop_bit 3 (mode AND S_IRWXG)\<rparr>], None)))"

section \<open>Access requests\<close>

definition grants :: "u16 \<Rightarrow> u32 \<Rightarrow> bool" where
  "grants perm want \<longleftrightarrow> ucast perm AND want = want"

definition check_perm :: "u16 \<Rightarrow> u32 \<Rightarrow> errno option" where
  "check_perm perm want = (if grants perm want then None else Some EACCES)"

fun mask_search :: "posix_acl_entry \<Rightarrow> u32 \<Rightarrow> posix_acl_entry list \<Rightarrow> errno option" where
  "mask_search pa want [] = check_perm (e_perm pa) want"
| "mask_search pa want (mask_obj # rest) =
     (if e_tag mask_obj = ACL_MASK then check_perm (e_perm pa AND e_perm mask_obj) want
      else mask_search pa want rest)"

fun permission_loop :: "u32 \<Rightarrow> (u32 \<Rightarrow> bool option) \<Rightarrow> u32 \<Rightarrow> u32 \<Rightarrow> u32 \<Rightarrow> bool \<Rightarrow> posix_acl_entry list
    \<Rightarrow> errno option option" where
  "permission_loop uid in_group i_uid i_gid want found [] = Some (Some EIO)"
| "permission_loop uid in_group i_uid i_gid want found (pa # rest) =
     (if e_tag pa = ACL_USER_OBJ then
        if i_uid = uid then Some (check_perm (e_perm pa) want)
        else permission_loop uid in_group i_uid i_gid want found rest
      else if e_tag pa = ACL_USER then
        if e_id pa = uid then Some (mask_search pa want rest)
        else permission_loop uid in_group i_uid i_gid want found rest
      else if e_tag pa = ACL_GROUP_OBJ \<or> e_tag pa = ACL_GROUP then
        (case in_group (if e_tag pa = ACL_GROUP_OBJ then i_gid else e_id pa) of
           None \<Rightarrow> None
         | Some True \<Rightarrow>
             if grants (e_perm pa) want then Some (mask_search pa want rest)
             else permission_loop uid in_group i_uid i_gid want True rest
         | Some False \<Rightarrow> permission_loop uid in_group i_uid i_gid want found rest)
      else if e_tag pa = ACL_MASK then permission_loop uid in_group i_uid i_gid want found rest
      else if e_tag pa = ACL_OTHER then
        if found then Some (Some EACCES) else Some (check_perm (e_perm pa) want)
      else Some (Some EIO))"

definition posix_acl_permission :: "nat \<Rightarrow> cstate \<Rightarrow> u32 \<Rightarrow> u32 \<Rightarrow> posix_acl_entry list \<Rightarrow> u32
    \<Rightarrow> errno option option" where
  "posix_acl_permission current st i_uid i_gid acl want = do {
     (cr, gi) \<leftarrow> current_groups current st;
     permission_loop (fsuid cr) (in_group_p current st) i_uid i_gid want False acl
   }"

section \<open>Extended attributes\<close>

definition POSIX_ACL_XATTR_VERSION :: u32 where "POSIX_ACL_XATTR_VERSION = 2"

definition posix_acl_xattr_size :: "nat \<Rightarrow> nat" where
  "posix_acl_xattr_size cnt = 4 + cnt * 8"

definition posix_acl_xattr_count :: "nat \<Rightarrow> int" where
  "posix_acl_xattr_count sz =
     (if sz < 4 then -1 else if (sz - 4) mod 8 \<noteq> 0 then -1 else int ((sz - 4) div 8))"

fun from_xattr_loop :: "bytes \<Rightarrow> nat \<Rightarrow> nat \<Rightarrow> (errno + posix_acl_entry list) option" where
  "from_xattr_loop val off 0 = Some (Inr [])"
| "from_xattr_loop val off (Suc n) = do {
     t \<leftarrow> rd val off 2;
     p \<leftarrow> rd val (off + 2) 2;
     let tag = le16_to_cpu t;
     if tag = ACL_USER_OBJ \<or> tag = ACL_GROUP_OBJ \<or> tag = ACL_MASK \<or> tag = ACL_OTHER
     then do {
       r \<leftarrow> from_xattr_loop val (off + 8) n;
       Some (map_sum id ((#) \<lparr>e_tag = tag, e_perm = le16_to_cpu p, e_id = ACL_UNDEFINED_ID\<rparr>) r)
     } else if tag = ACL_USER \<or> tag = ACL_GROUP
     then do {
       i \<leftarrow> rd val (off + 4) 4;
       r \<leftarrow> from_xattr_loop val (off + 8) n;
       Some (map_sum id ((#) \<lparr>e_tag = tag, e_perm = le16_to_cpu p, e_id = le32_to_cpu i\<rparr>) r)
     } else Some (Inl EINVAL)
   }"

definition posix_acl_from_xattr :: "bool \<Rightarrow> bytes option \<Rightarrow> nat \<Rightarrow> (errno + posix_acl option) option" where
  "posix_acl_from_xattr mem val sz =
     (case val of
        None \<Rightarrow> Some (Inr None)
      | Some val \<Rightarrow>
          if sz < 4 then Some (Inl EINVAL)
          else do {
            a_version \<leftarrow> rd val 0 4;
            if a_version \<noteq> cpu_to_le32 POSIX_ACL_XATTR_VERSION then Some (Inl EOPNOTSUPP)
            else let cnt = posix_acl_xattr_count sz in
              if cnt < 0 then Some (Inl EINVAL)
              else if cnt = 0 then Some (Inr None)
              else if \<not> mem then Some (Inl ENOMEM)
              else do {
                r \<leftarrow> from_xattr_loop val 4 (nat cnt);
                Some (map_sum id (\<lambda>es. Some \<lparr>a_refcount = 1, a_entries = es\<rparr>) r)
              }
          })"

fun to_xattr_loop :: "bytes \<Rightarrow> nat \<Rightarrow> posix_acl_entry list \<Rightarrow> bytes option" where
  "to_xattr_loop buf off [] = Some buf"
| "to_xattr_loop buf off (e # es) = do {
     buf \<leftarrow> wr buf off (cpu_to_le16 (e_tag e));
     buf \<leftarrow> wr buf (off + 2) (cpu_to_le16 (e_perm e));
     buf \<leftarrow> wr buf (off + 4) (cpu_to_le32 (e_id e));
     to_xattr_loop buf (off + 8) es
   }"

definition posix_acl_to_xattr :: "posix_acl \<Rightarrow> bytes option \<Rightarrow> nat \<Rightarrow> (errno + nat \<times> bytes option) option" where
  "posix_acl_to_xattr acl buffer sz =
     (let real_size = posix_acl_xattr_size (length (a_entries acl)) in
      case buffer of
        None \<Rightarrow> Some (Inr (real_size, None))
      | Some buf \<Rightarrow>
          if sz < real_size then Some (Inl ERANGE)
          else do {
            buf \<leftarrow> wr buf 0 (cpu_to_le32 POSIX_ACL_XATTR_VERSION);
            buf \<leftarrow> to_xattr_loop buf 4 (a_entries acl);
            Some (Inr (real_size, Some buf))
          })"

section \<open>The grammar of valid lists\<close>

text \<open>
  A well-formed list has the owner's entry, the named users in strictly ascending order, the owning
  group's entry, the named groups in strictly ascending order, a mask that may only be left out when
  there are no named entries, and the entry for everybody else.
\<close>

definition named :: "u16 \<Rightarrow> posix_acl_entry list \<Rightarrow> bool" where
  "named tag es \<longleftrightarrow> (\<forall>e \<in> set es. e_tag e = tag \<and> e_id e \<noteq> ACL_UNDEFINED_ID) \<and> sorted_wrt (<) (map e_id es)"

definition perms_ok :: "posix_acl_entry list \<Rightarrow> bool" where
  "perms_ok es \<longleftrightarrow> (\<forall>e \<in> set es. e_perm e AND NOT 7 = 0)"

definition acl_parts :: "posix_acl_entry list \<Rightarrow> posix_acl_entry \<Rightarrow> posix_acl_entry list \<Rightarrow> posix_acl_entry
    \<Rightarrow> posix_acl_entry list \<Rightarrow> posix_acl_entry list \<Rightarrow> posix_acl_entry \<Rightarrow> bool" where
  "acl_parts acl uo us go gs ms ot \<longleftrightarrow>
     acl = uo # us @ go # gs @ ms @ [ot] \<and> perms_ok acl \<and>
     e_tag uo = ACL_USER_OBJ \<and> named ACL_USER us \<and> e_tag go = ACL_GROUP_OBJ \<and> named ACL_GROUP gs \<and>
     (ms = [] \<and> us = [] \<and> gs = [] \<or> (\<exists>m. ms = [m] \<and> e_tag m = ACL_MASK)) \<and> e_tag ot = ACL_OTHER"

fun ids_from :: "u16 \<Rightarrow> nat \<Rightarrow> posix_acl_entry list \<Rightarrow> bool" where
  "ids_from tag lo [] = True"
| "ids_from tag lo (e # es) \<longleftrightarrow> e_tag e = tag \<and> e_id e \<noteq> ACL_UNDEFINED_ID \<and> lo \<le> unat (e_id e) \<and>
     ids_from tag (unat (e_id e) + 1) es"

lemma ids_from_named:
  "ids_from tag lo es \<longleftrightarrow> named tag es \<and> (\<forall>e \<in> set es. lo \<le> unat (e_id e))"
proof (induction es arbitrary: lo)
  case (Cons e es)
  show ?case unfolding ids_from.simps Cons.IH
    by (auto simp: named_def word_less_nat_alt Suc_le_eq)
qed (simp add: named_def)

lemma next_id:
  fixes x :: u32
  assumes "x \<noteq> ACL_UNDEFINED_ID"
  shows "unat (x + 1) = unat x + 1"
proof -
  have "unat x \<noteq> 4294967295" using assms by (simp add: ACL_UNDEFINED_ID_def word_unat_eq_iff)
  then have "x < 0xFFFFFFFF" using unat_u32_less [of x] by (simp add: word_less_nat_alt)
  then show ?thesis by (rule word_succ(2))
qed

lemma tags_distinct [simp]:
  "ACL_USER_OBJ \<noteq> ACL_USER" "ACL_USER_OBJ \<noteq> ACL_GROUP_OBJ" "ACL_USER_OBJ \<noteq> ACL_GROUP" "ACL_USER_OBJ \<noteq> ACL_MASK"
  "ACL_USER_OBJ \<noteq> ACL_OTHER" "ACL_USER \<noteq> ACL_GROUP_OBJ" "ACL_USER \<noteq> ACL_GROUP" "ACL_USER \<noteq> ACL_MASK"
  "ACL_USER \<noteq> ACL_OTHER" "ACL_GROUP_OBJ \<noteq> ACL_GROUP" "ACL_GROUP_OBJ \<noteq> ACL_MASK" "ACL_GROUP_OBJ \<noteq> ACL_OTHER"
  "ACL_GROUP \<noteq> ACL_MASK" "ACL_GROUP \<noteq> ACL_OTHER" "ACL_MASK \<noteq> ACL_OTHER"
  "ACL_USER_OBJ \<noteq> 0" "ACL_USER \<noteq> 0" "ACL_GROUP \<noteq> 0" "ACL_OTHER \<noteq> 0"
  by (simp_all add: acl_tags)

lemmas tags_distinct' [simp] = tags_distinct [symmetric]

lemma valid_done: "valid_loop 0 i nm es = None \<longleftrightarrow> es = []"
  by (cases es) auto

lemma valid_other:
  "valid_loop ACL_OTHER i nm es = None \<longleftrightarrow> (\<exists>ot. es = [ot] \<and> e_tag ot = ACL_OTHER \<and> perms_ok es)"
  by (cases es) (auto simp: valid_done perms_ok_def)

lemma perms_ok_simps [simp]:
  "perms_ok []" "perms_ok (e # es) \<longleftrightarrow> e_perm e AND NOT 7 = 0 \<and> perms_ok es"
  "perms_ok (es @ fs) \<longleftrightarrow> perms_ok es \<and> perms_ok fs"
  by (auto simp: perms_ok_def)

definition group_part :: "nat \<Rightarrow> bool \<Rightarrow> posix_acl_entry list \<Rightarrow> posix_acl_entry list \<Rightarrow> posix_acl_entry list
    \<Rightarrow> posix_acl_entry \<Rightarrow> bool" where
  "group_part lo nm es gs ms ot \<longleftrightarrow> es = gs @ ms @ [ot] \<and> perms_ok es \<and> ids_from ACL_GROUP lo gs \<and>
     (ms = [] \<and> \<not> nm \<and> gs = [] \<or> (\<exists>m. ms = [m] \<and> e_tag m = ACL_MASK)) \<and> e_tag ot = ACL_OTHER"

lemma group_part_Cons:
  assumes "e_tag e = ACL_GROUP"
  shows "(\<exists>gs ms ot. group_part lo nm (e # es) gs ms ot) \<longleftrightarrow>
    e_perm e AND NOT 7 = 0 \<and> e_id e \<noteq> ACL_UNDEFINED_ID \<and> lo \<le> unat (e_id e) \<and>
    (\<exists>gs ms ot. group_part (unat (e_id e) + 1) True es gs ms ot)" (is "?L \<longleftrightarrow> ?R")
proof
  assume ?L
  then obtain gs ms ot where p: "group_part lo nm (e # es) gs ms ot" by blast
  then obtain gs' where "gs = e # gs'" using assms by (cases gs) (auto simp: group_part_def)
  with p show ?R using assms by (fastforce simp: group_part_def)
next
  assume ?R
  then obtain gs ms ot where "group_part (unat (e_id e) + 1) True es gs ms ot" by blast
  with \<open>?R\<close> have "group_part lo nm (e # es) (e # gs) ms ot" using assms by (auto simp: group_part_def)
  then show ?L by blast
qed

lemma group_part_end:
  assumes "e_tag e \<noteq> ACL_GROUP"
  shows "(\<exists>gs ms ot. group_part lo nm (e # es) gs ms ot) \<longleftrightarrow>
    e_perm e AND NOT 7 = 0 \<and> (e_tag e = ACL_OTHER \<and> \<not> nm \<and> es = [] \<or>
      e_tag e = ACL_MASK \<and> (\<exists>ot. es = [ot] \<and> e_tag ot = ACL_OTHER \<and> perms_ok es))" (is "?L \<longleftrightarrow> ?R")
proof
  assume ?L
  then obtain gs ms ot where p: "group_part lo nm (e # es) gs ms ot" by blast
  then have "gs = []" using assms by (cases gs) (auto simp: group_part_def)
  with p show ?R by (auto simp: group_part_def)
next
  assume ?R
  then have "group_part lo nm (e # es) [] [] e \<or> (\<exists>ot. group_part lo nm (e # es) [] [e] ot)"
    by (auto simp: group_part_def)
  then show ?L by blast
qed

lemma valid_group:
  "valid_loop ACL_GROUP i nm es = None \<longleftrightarrow> (\<exists>gs ms ot. group_part (unat i) nm es gs ms ot)"
proof (induction es arbitrary: i nm)
  case Nil
  then show ?case by (simp add: group_part_def)
next
  case (Cons e es)
  show ?case
  proof (cases "e_tag e = ACL_GROUP")
    case True
    have v: "valid_loop ACL_GROUP i nm (e # es) = None \<longleftrightarrow> e_perm e AND NOT 7 = 0 \<and>
        e_id e \<noteq> ACL_UNDEFINED_ID \<and> unat i \<le> unat (e_id e) \<and> valid_loop ACL_GROUP (e_id e + 1) True es = None"
      using True by (auto simp: word_less_nat_alt)
    show ?thesis unfolding v group_part_Cons [OF True] Cons.IH
      using next_id [of "e_id e"] by (cases "e_id e = ACL_UNDEFINED_ID") simp_all
  next
    case False
    have "valid_loop ACL_GROUP i nm (e # es) = None \<longleftrightarrow> e_perm e AND NOT 7 = 0 \<and>
      (e_tag e = ACL_OTHER \<and> \<not> nm \<and> es = [] \<or> e_tag e = ACL_MASK \<and> valid_loop ACL_OTHER i nm es = None)"
      using False by (auto simp: valid_done)
    then show ?thesis unfolding group_part_end [OF False] valid_other .
  qed
qed

definition user_part :: "nat \<Rightarrow> bool \<Rightarrow> posix_acl_entry list \<Rightarrow> posix_acl_entry list \<Rightarrow> posix_acl_entry
    \<Rightarrow> posix_acl_entry list \<Rightarrow> bool" where
  "user_part lo nm es us go rest \<longleftrightarrow> es = us @ go # rest \<and> perms_ok (us @ [go]) \<and> ids_from ACL_USER lo us \<and>
     e_tag go = ACL_GROUP_OBJ \<and> valid_loop ACL_GROUP 0 (nm \<or> us \<noteq> []) rest = None"

lemma valid_user:
  "valid_loop ACL_USER i nm es = None \<longleftrightarrow> (\<exists>us go rest. user_part (unat i) nm es us go rest)"
proof (induction es arbitrary: i nm)
  case Nil
  then show ?case by (simp add: user_part_def)
next
  case (Cons e es)
  show ?case
  proof (cases "e_tag e = ACL_USER")
    case True
    have "(\<exists>us go rest. user_part (unat i) nm (e # es) us go rest) \<longleftrightarrow> e_perm e AND NOT 7 = 0 \<and>
      e_id e \<noteq> ACL_UNDEFINED_ID \<and> unat i \<le> unat (e_id e) \<and>
      (\<exists>us go rest. user_part (unat (e_id e) + 1) True es us go rest)" (is "?L \<longleftrightarrow> ?R")
    proof
      assume ?L
      then obtain us go rest where p: "user_part (unat i) nm (e # es) us go rest" by blast
      then obtain us' where "us = e # us'" using True by (cases us) (auto simp: user_part_def)
      with p show ?R using True by (fastforce simp: user_part_def)
    next
      assume ?R
      then obtain us go rest where "user_part (unat (e_id e) + 1) True es us go rest" by blast
      with \<open>?R\<close> have "user_part (unat i) nm (e # es) (e # us) go rest" using True by (auto simp: user_part_def)
      then show ?L by blast
    qed
    moreover have "valid_loop ACL_USER i nm (e # es) = None \<longleftrightarrow> e_perm e AND NOT 7 = 0 \<and>
        e_id e \<noteq> ACL_UNDEFINED_ID \<and> unat i \<le> unat (e_id e) \<and> valid_loop ACL_USER (e_id e + 1) True es = None"
      using True by (auto simp: word_less_nat_alt)
    ultimately show ?thesis unfolding Cons.IH
      using next_id [of "e_id e"] by (cases "e_id e = ACL_UNDEFINED_ID") simp_all
  next
    case False
    have "user_part (unat i) nm (e # es) us go rest \<longleftrightarrow>
        us = [] \<and> go = e \<and> rest = es \<and> user_part (unat i) nm (e # es) [] e es" for us go rest
      using False by (cases us) (auto simp: user_part_def)
    then have "(\<exists>us go rest. user_part (unat i) nm (e # es) us go rest) \<longleftrightarrow> user_part (unat i) nm (e # es) [] e es"
      by blast
    then show ?thesis using False by (auto simp: user_part_def)
  qed
qed

lemma posix_acl_valid_iff:
  "posix_acl_valid acl = None \<longleftrightarrow> (\<exists>uo us go gs ms ot. acl_parts acl uo us go gs ms ot)"
proof
  assume v: "posix_acl_valid acl = None"
  then obtain uo rest where uo: "acl = uo # rest" "e_tag uo = ACL_USER_OBJ" "e_perm uo AND NOT 7 = 0"
    "valid_loop ACL_USER 0 False rest = None"
    by (cases acl) (auto simp: posix_acl_valid_def split: if_splits)
  then obtain us go rest' where us: "user_part 0 False rest us go rest'" by (auto simp: valid_user)
  then obtain gs ms ot where "group_part 0 (us \<noteq> []) rest' gs ms ot" by (auto simp: user_part_def valid_group)
  with uo us have "acl_parts acl uo us go gs ms ot"
    by (auto simp: acl_parts_def user_part_def group_part_def ids_from_named)
  then show "\<exists>uo us go gs ms ot. acl_parts acl uo us go gs ms ot" by blast
next
  assume "\<exists>uo us go gs ms ot. acl_parts acl uo us go gs ms ot"
  then obtain uo us go gs ms ot where p: "acl_parts acl uo us go gs ms ot" by blast
  then have "group_part 0 (us \<noteq> []) (gs @ ms @ [ot]) gs ms ot"
    by (auto simp: acl_parts_def group_part_def ids_from_named)
  then have "valid_loop ACL_GROUP 0 (False \<or> us \<noteq> []) (gs @ ms @ [ot]) = None" using valid_group [of 0] by auto
  with p have "user_part 0 False (us @ go # gs @ ms @ [ot]) us go (gs @ ms @ [ot])"
    by (auto simp: acl_parts_def user_part_def ids_from_named)
  then have "valid_loop ACL_USER 0 False (us @ go # gs @ ms @ [ot]) = None" using valid_user [of 0] by auto
  with p show "posix_acl_valid acl = None" by (auto simp: acl_parts_def posix_acl_valid_def)
qed


end
