(* ===== verification/Acl_Checks.thy ===== *)
theory Acl_Checks
  imports Posix_Acl
begin

text \<open>
  What the operations on access control lists do: the walk of \<open>posix_acl_permission\<close> decides as the
  POSIX.1e reference algorithm, over the membership test of the group lists; the operations on modes
  keep a list well formed and in step with the file mode; the attribute form of a list reads back
  as the list.
\<close>

section \<open>Access decisions\<close>

text \<open>
  The access check algorithm of POSIX.1e: the owner's entry, else the entry of a named user, else
  the entries of the groups the process is in, of which one must grant the request, else the
  entry for everybody else.  The mask limits all entries but the owner's and the last.
\<close>

definition acl_mask :: "posix_acl_entry list \<Rightarrow> u16" where
  "acl_mask acl = (case find (\<lambda>e. e_tag e = ACL_MASK) acl of None \<Rightarrow> NOT 0 | Some m \<Rightarrow> e_perm m)"

definition acl_perm :: "u16 \<Rightarrow> posix_acl_entry list \<Rightarrow> u16" where
  "acl_perm tag acl = (case find (\<lambda>e. e_tag e = tag) acl of None \<Rightarrow> 0 | Some e \<Rightarrow> e_perm e)"

definition group_matches :: "u32 set \<Rightarrow> u32 \<Rightarrow> posix_acl_entry \<Rightarrow> bool" where
  "group_matches G i_gid e \<longleftrightarrow> e_tag e = ACL_GROUP_OBJ \<and> i_gid \<in> G \<or> e_tag e = ACL_GROUP \<and> e_id e \<in> G"



definition masked :: "posix_acl_entry list \<Rightarrow> u16" where
  "masked ms = (case ms of [] \<Rightarrow> NOT 0 | m # _ \<Rightarrow> e_perm m)"


definition mask_part :: "posix_acl_entry list \<Rightarrow> posix_acl_entry \<Rightarrow> bool" where
  "mask_part ms ot \<longleftrightarrow> (ms = [] \<or> (\<exists>m. ms = [m] \<and> e_tag m = ACL_MASK)) \<and> e_tag ot = ACL_OTHER"




lemma find_skip: "\<forall>x \<in> set xs. \<not> P x \<Longrightarrow> find P (xs @ ys) = find P ys"
  by (induction xs) auto

lemma acl_parts_lookup:
  assumes "acl_parts acl uo us go gs ms ot"
  shows "acl_mask acl = masked ms" "acl_perm ACL_USER_OBJ acl = e_perm uo" "acl_perm ACL_OTHER acl = e_perm ot"
    "find (\<lambda>e. e_tag e = ACL_USER \<and> e_id e = uid) acl = find (\<lambda>e. e_id e = uid) us"
    "(\<exists>e \<in> set acl. group_matches G i_gid e \<and> P e) \<longleftrightarrow> (\<exists>e \<in> set (go # gs). group_matches G i_gid e \<and> P e)"
    "mask_part ms ot" "\<forall>e \<in> set us. e_tag e = ACL_USER" "\<forall>e \<in> set gs. e_tag e = ACL_GROUP"
proof -
  have acl: "acl = uo # us @ go # gs @ ms @ [ot]" and t: "e_tag uo = ACL_USER_OBJ" "e_tag go = ACL_GROUP_OBJ"
    "e_tag ot = ACL_OTHER" "ms = [] \<or> (\<exists>m. ms = [m] \<and> e_tag m = ACL_MASK)"
    using assms by (auto simp: acl_parts_def)
  show us: "\<forall>e \<in> set us. e_tag e = ACL_USER" and gs: "\<forall>e \<in> set gs. e_tag e = ACL_GROUP"
    using assms by (auto simp: acl_parts_def named_def)
  show "mask_part ms ot" using t by (auto simp: mask_part_def)
  have "find (\<lambda>e. e_tag e = ACL_MASK) ((uo # us @ go # gs) @ ms @ [ot]) = find (\<lambda>e. e_tag e = ACL_MASK) (ms @ [ot])"
    using t us gs by (intro find_skip) auto
  then show "acl_mask acl = masked ms" using t by (auto simp: acl acl_mask_def masked_def)
  show "acl_perm ACL_USER_OBJ acl = e_perm uo" using t by (simp add: acl acl_perm_def)
  have "find (\<lambda>e. e_tag e = ACL_OTHER) ((uo # us @ go # gs @ ms) @ [ot]) = find (\<lambda>e. e_tag e = ACL_OTHER) [ot]"
    using t us gs by (intro find_skip) auto
  then show "acl_perm ACL_OTHER acl = e_perm ot" using t by (simp add: acl acl_perm_def)
  have "find (\<lambda>e. e_tag e = ACL_USER \<and> e_id e = uid) us = find (\<lambda>e. e_id e = uid) us"
    using us by (intro find_cong) auto
  moreover have "find (\<lambda>e. e_tag e = ACL_USER \<and> e_id e = uid) (go # gs @ ms @ [ot]) = None"
    using t gs by (auto simp: find_None_iff)
  ultimately show "find (\<lambda>e. e_tag e = ACL_USER \<and> e_id e = uid) acl = find (\<lambda>e. e_id e = uid) us"
    using t by (simp add: acl find_append split: option.splits)
  show "(\<exists>e \<in> set acl. group_matches G i_gid e \<and> P e) \<longleftrightarrow> (\<exists>e \<in> set (go # gs). group_matches G i_gid e \<and> P e)"
    using t us by (auto simp: acl group_matches_def)
qed







section \<open>Modes\<close>

lemma bit_modes [simp]:
  "bit S_IRWXO n \<longleftrightarrow> n < 3" "bit S_IRWXG n \<longleftrightarrow> 3 \<le> n \<and> n < 6" "bit S_IRWXU n \<longleftrightarrow> 6 \<le> n \<and> n < 9"
  "bit S_IRWXUGO n \<longleftrightarrow> n < 9"
proof -
  have m: "S_IRWXO = mask 3" "S_IRWXG = push_bit 3 (mask 3)" "S_IRWXU = push_bit 6 (mask 3)" "S_IRWXUGO = mask 9"
    by (simp_all add: mode_defs mask_eq_exp_minus_1)
  show "bit S_IRWXO n \<longleftrightarrow> n < 3" unfolding m(1) by (auto simp: bit_simps)
  show "bit S_IRWXG n \<longleftrightarrow> 3 \<le> n \<and> n < 6" unfolding m(2) by (auto simp: bit_simps)
  show "bit S_IRWXU n \<longleftrightarrow> 6 \<le> n \<and> n < 9" unfolding m(3) by (auto simp: bit_simps)
  show "bit S_IRWXUGO n \<longleftrightarrow> n < 9" unfolding m(4) by (auto simp: bit_simps)
qed

lemma perm_bits: "(p :: u16) AND NOT 7 = 0 \<longleftrightarrow> (\<forall>n. bit p n \<longrightarrow> n < 3)"
proof -
  have m: "(7 :: u16) = mask 3" by (simp add: mask_eq_exp_minus_1)
  have "bit p n \<Longrightarrow> n < 16" for n using bit_imp_le_length [of p n] by simp
  then show ?thesis unfolding m by (auto simp: bit_eq_iff bit_simps not_less) (meson not_less)
qed

lemma chmod_scan_named:
  "\<forall>e \<in> set xs. e_tag e = ACL_USER \<or> e_tag e = ACL_GROUP \<Longrightarrow>
   chmod_scan mode seen (xs @ ys) g m = chmod_scan mode (seen @ xs) ys g m"
  by (induction xs arbitrary: seen) auto

definition class_perm :: "posix_acl_entry \<Rightarrow> posix_acl_entry list \<Rightarrow> u16" where
  "class_perm go ms = (case ms of [] \<Rightarrow> e_perm go | m # _ \<Rightarrow> e_perm m)"

definition with_class :: "u16 \<Rightarrow> posix_acl_entry \<Rightarrow> posix_acl_entry list \<Rightarrow> posix_acl_entry \<times> posix_acl_entry list" where
  "with_class perm go ms =
     (case ms of [] \<Rightarrow> (go\<lparr>e_perm := perm\<rparr>, []) | m # r \<Rightarrow> (go, m\<lparr>e_perm := perm\<rparr> # r))"

text \<open>The list with new permissions for the owner, the group class (the mask, if any) and the others.\<close>

definition reperm :: "u16 \<Rightarrow> u16 \<Rightarrow> u16 \<Rightarrow> posix_acl_entry \<Rightarrow> posix_acl_entry list \<Rightarrow> posix_acl_entry \<Rightarrow> posix_acl_entry list
    \<Rightarrow> posix_acl_entry list \<Rightarrow> posix_acl_entry \<Rightarrow> posix_acl_entry list" where
  "reperm u g o' uo us go gs ms ot =
     uo\<lparr>e_perm := u\<rparr> # us @ fst (with_class g go ms) # gs @ snd (with_class g go ms) @ [ot\<lparr>e_perm := o'\<rparr>]"

lemma reperm_parts:
  assumes "acl_parts acl uo us go gs ms ot" "u AND NOT 7 = 0" "g AND NOT 7 = 0" "o' AND NOT 7 = 0"
  shows "acl_parts (reperm u g o' uo us go gs ms ot) (uo\<lparr>e_perm := u\<rparr>) us (fst (with_class g go ms)) gs
    (snd (with_class g go ms)) (ot\<lparr>e_perm := o'\<rparr>)"
  using assms by (auto simp: acl_parts_def reperm_def with_class_def split: list.splits)

lemma chmod_parts:
  assumes "acl_parts acl uo us go gs ms ot"
  shows "posix_acl_chmod_masq acl mode =
    (reperm (drop_bit 6 (mode AND S_IRWXU)) (drop_bit 3 (mode AND S_IRWXG)) (mode AND S_IRWXO) uo us go gs ms ot, None)"
proof -
  note l = acl_parts_lookup [OF assms]
  have acl: "acl = uo # us @ go # gs @ ms @ [ot]" and t: "e_tag uo = ACL_USER_OBJ" "e_tag go = ACL_GROUP_OBJ"
    "e_tag ot = ACL_OTHER" "ms = [] \<or> (\<exists>m. ms = [m] \<and> e_tag m = ACL_MASK)"
    using assms by (auto simp: acl_parts_def)
  have us: "\<forall>e \<in> set us. e_tag e = ACL_USER \<or> e_tag e = ACL_GROUP" "\<forall>e \<in> set gs. e_tag e = ACL_USER \<or> e_tag e = ACL_GROUP"
    using l(7,8) by auto
  from t(4) show ?thesis
    by (elim disjE exE conjE) (simp_all add: posix_acl_chmod_masq_def acl t chmod_scan_named [OF us(1)]
        chmod_scan_named [OF us(2)] reperm_def with_class_def nth_append list_update_append)
qed

lemma equiv_loop_named:
  "\<forall>e \<in> set xs. e_tag e = ACL_USER \<or> e_tag e = ACL_GROUP \<Longrightarrow>
   equiv_loop mode ne (xs @ ys) = equiv_loop mode (ne \<or> xs \<noteq> []) ys"
  by (induction xs arbitrary: ne) auto

definition mode_of :: "u16 \<Rightarrow> u16 \<Rightarrow> u16 \<Rightarrow> u16" where
  "mode_of u g o' = push_bit 6 (u AND S_IRWXO) OR push_bit 3 (g AND S_IRWXO) OR (o' AND S_IRWXO)"

lemma equiv_parts:
  assumes "acl_parts acl uo us go gs ms ot"
  shows "equiv_loop 0 False acl = Inr (ms \<noteq> [], mode_of (e_perm uo) (class_perm go ms) (e_perm ot))"
proof -
  note l = acl_parts_lookup [OF assms]
  have acl: "acl = uo # us @ go # gs @ ms @ [ot]" and t: "e_tag uo = ACL_USER_OBJ" "e_tag go = ACL_GROUP_OBJ"
    "e_tag ot = ACL_OTHER" and ms: "ms = [] \<and> us = [] \<and> gs = [] \<or> (\<exists>m. ms = [m] \<and> e_tag m = ACL_MASK)"
    using assms by (auto simp: acl_parts_def)
  have us: "\<forall>e \<in> set us. e_tag e = ACL_USER \<or> e_tag e = ACL_GROUP" "\<forall>e \<in> set gs. e_tag e = ACL_USER \<or> e_tag e = ACL_GROUP"
    using l(7,8) by auto
  have cut: "((a OR push_bit 3 (b AND S_IRWXO)) AND NOT S_IRWXG) OR c = (a AND NOT S_IRWXG) OR c" for a b c :: u16
    by (rule bit_word_eqI) (auto simp: bit_simps)
  have keep: "push_bit 6 (a AND S_IRWXO) AND NOT S_IRWXG = push_bit 6 (a AND S_IRWXO)" for a :: u16
    by (rule bit_word_eqI) (auto simp: bit_simps)
  from ms show ?thesis
    by (elim disjE exE conjE) (simp_all add: acl t equiv_loop_named [OF us(1)] equiv_loop_named [OF us(2)]
        mode_of_def class_perm_def cut keep or.assoc del: push_bit_and)
qed

lemma create_scan_named:
  "\<forall>e \<in> set xs. e_tag e = ACL_USER \<or> e_tag e = ACL_GROUP \<Longrightarrow>
   create_scan seen (xs @ ys) q = create_scan (seen @ xs) ys (q\<lparr>q_not_equiv := q_not_equiv q \<or> xs \<noteq> []\<rparr>)"
  by (induction xs arbitrary: seen q) auto

definition masq_perm :: "nat \<Rightarrow> u16 \<Rightarrow> u16 \<Rightarrow> u16" where
  "masq_perm k perm mode = perm AND (drop_bit k mode OR NOT S_IRWXO)"

definition masq_mode :: "u16 \<Rightarrow> u16 \<Rightarrow> u16 \<Rightarrow> u16 \<Rightarrow> u16" where
  "masq_mode u g o' mode =
     (let mode1 = mode AND (push_bit 6 u OR NOT S_IRWXU); mode2 = mode1 AND (o' OR NOT S_IRWXO) in
      (mode AND NOT S_IRWXUGO) OR (mode2 AND (push_bit 3 g OR NOT S_IRWXG)))"

lemma create_parts:
  fixes mode :: u16
  assumes "acl_parts acl uo us go gs ms ot"
  defines "u \<equiv> masq_perm 6 (e_perm uo) mode" and "g \<equiv> masq_perm 3 (class_perm go ms) mode"
    and "o' \<equiv> masq_perm 0 (e_perm ot) mode"
  shows "posix_acl_create_masq acl mode =
    (reperm u g o' uo us go gs ms ot, masq_mode u g o' mode, Inr (ms \<noteq> []))"
proof -
  note l = acl_parts_lookup [OF assms(1)]
  have acl: "acl = uo # us @ go # gs @ ms @ [ot]" and t: "e_tag uo = ACL_USER_OBJ" "e_tag go = ACL_GROUP_OBJ"
    "e_tag ot = ACL_OTHER" and ms: "ms = [] \<and> us = [] \<and> gs = [] \<or> (\<exists>m. ms = [m] \<and> e_tag m = ACL_MASK)"
    using assms(1) by (auto simp: acl_parts_def)
  have us: "\<forall>e \<in> set us. e_tag e = ACL_USER \<or> e_tag e = ACL_GROUP" "\<forall>e \<in> set gs. e_tag e = ACL_USER \<or> e_tag e = ACL_GROUP"
    using l(7,8) by auto
  define mode1 where "mode1 = mode AND (push_bit 6 u OR NOT S_IRWXU)"
  define mode2 where "mode2 = mode1 AND (o' OR NOT S_IRWXO)"
  have o1: "e_perm ot AND (mode1 OR NOT S_IRWXO) = o'"
    by (rule bit_word_eqI) (auto simp: bit_simps mode1_def o'_def masq_perm_def)
  have g2: "p AND (drop_bit 3 mode2 OR NOT S_IRWXO) = masq_perm 3 p mode" for p
    by (rule bit_word_eqI) (auto simp: bit_simps mode1_def mode2_def masq_perm_def)
  have u1: "e_perm uo AND (drop_bit 6 mode OR NOT S_IRWXO) = u" by (simp add: u_def masq_perm_def)
  from ms show ?thesis
    by (elim disjE exE conjE)
      (simp_all add: posix_acl_create_masq_def acl t create_scan_named [OF us(1)] create_scan_named [OF us(2)]
        u1 mode1_def [symmetric] o1 mode2_def [symmetric] masq_entry_def g2 reperm_def with_class_def class_perm_def
        masq_mode_def g_def nth_append list_update_append Let_def
        del: push_bit_and push_bit_or drop_bit_and drop_bit_or)
qed

lemma class_reperm:
  assumes "mask_part ms ot"
  shows "class_perm (fst (with_class g go ms)) (snd (with_class g go ms)) = g" "snd (with_class g go ms) = [] \<longleftrightarrow> ms = []"
  using assms by (auto simp: class_perm_def with_class_def split: list.splits)

lemma equiv_reperm:
  assumes "acl_parts acl uo us go gs ms ot" "u AND NOT 7 = 0" "g AND NOT 7 = 0" "o' AND NOT 7 = 0"
  shows "posix_acl_valid (reperm u g o' uo us go gs ms ot) = None"
    "posix_acl_equiv_mode (reperm u g o' uo us go gs ms ot) (Some mode) =
       Inr (ms \<noteq> [], Some ((mode AND NOT S_IRWXUGO) OR mode_of u g o'))"
proof -
  note p = reperm_parts [OF assms]
  from p show "posix_acl_valid (reperm u g o' uo us go gs ms ot) = None" using posix_acl_valid_iff by blast
  show "posix_acl_equiv_mode (reperm u g o' uo us go gs ms ot) (Some mode) =
       Inr (ms \<noteq> [], Some ((mode AND NOT S_IRWXUGO) OR mode_of u g o'))"
    using equiv_parts [OF p] class_reperm [OF acl_parts_lookup(6) [OF assms(1)]]
    by (simp add: posix_acl_equiv_mode_def)
qed

lemma mode_of_mode:
  "((mode :: u16) AND NOT S_IRWXUGO) OR
     mode_of (drop_bit 6 (mode AND S_IRWXU)) (drop_bit 3 (mode AND S_IRWXG)) (mode AND S_IRWXO) = mode"
proof (rule bit_word_eqI)
  fix n
  show "bit ((mode AND NOT S_IRWXUGO) OR mode_of (drop_bit 6 (mode AND S_IRWXU)) (drop_bit 3 (mode AND S_IRWXG))
      (mode AND S_IRWXO)) n = bit mode n" if "n < LENGTH(16)"
    using that by (cases "n < 3"; cases "n < 6"; cases "n < 9") (auto simp: mode_of_def bit_simps)
qed

lemma mode_perms:
  "drop_bit 6 ((mode :: u16) AND S_IRWXU) AND NOT 7 = 0" "drop_bit 3 (mode AND S_IRWXG) AND NOT 7 = 0"
  "(mode AND S_IRWXO) AND NOT 7 = 0"
  unfolding perm_bits by (auto simp: bit_simps)

lemma masq_perm_ok: "p AND NOT 7 = 0 \<Longrightarrow> masq_perm k p mode AND NOT 7 = 0"
  unfolding perm_bits by (auto simp: bit_simps masq_perm_def)

lemma masq_mode_of:
  fixes mode pu pg po :: u16
  defines "u \<equiv> masq_perm 6 pu mode" and "g \<equiv> masq_perm 3 pg mode" and "o' \<equiv> masq_perm 0 po mode"
  defines "mode' \<equiv> masq_mode u g o' mode"
  shows "(mode' AND NOT S_IRWXUGO) OR mode_of u g o' = mode'" "mode' AND NOT mode = 0"
proof -
  show "(mode' AND NOT S_IRWXUGO) OR mode_of u g o' = mode'"
  proof (rule bit_word_eqI)
    fix n
    show "bit ((mode' AND NOT S_IRWXUGO) OR mode_of u g o') n = bit mode' n" if "n < LENGTH(16)"
      using that by (cases "n < 3"; cases "n < 6"; cases "n < 9")
        (auto simp: mode'_def u_def g_def o'_def masq_mode_def masq_perm_def mode_of_def Let_def bit_simps)
  qed
  show "mode' AND NOT mode = 0"
    by (rule bit_word_eqI) (auto simp: mode'_def masq_mode_def Let_def bit_simps)
qed

lemma masq_less: "masq_perm k p mode AND NOT p = 0"
  by (rule bit_word_eqI) (auto simp: bit_simps masq_perm_def)

definition narrowed :: "posix_acl_entry \<Rightarrow> posix_acl_entry \<Rightarrow> bool" where
  "narrowed e e' \<longleftrightarrow> e_tag e' = e_tag e \<and> e_id e' = e_id e \<and> e_perm e' AND NOT (e_perm e) = 0"

lemma narrowed_refl: "narrowed e e"
  by (simp add: narrowed_def)

lemma reperm_narrowed:
  assumes "acl = uo # us @ go # gs @ ms @ [ot]"
  shows "list_all2 narrowed acl (reperm (masq_perm 6 (e_perm uo) mode) (masq_perm 3 (class_perm go ms) mode)
    (masq_perm 0 (e_perm ot) mode) uo us go gs ms ot)"
proof -
  have "list_all2 narrowed xs xs" for xs by (simp add: list_all2_same narrowed_refl)
  then show ?thesis unfolding assms
    by (auto simp: reperm_def with_class_def class_perm_def narrowed_def masq_less intro!: list_all2_appendI split: list.splits)
qed

lemma chmod_masq_valid:
  assumes "posix_acl_valid acl = None"
  shows "\<exists>acl' ne. posix_acl_chmod_masq acl mode = (acl', None) \<and> posix_acl_valid acl' = None \<and>
    posix_acl_equiv_mode acl' (Some mode) = Inr (ne, Some mode)"
proof -
  obtain uo us go gs ms ot where p: "acl_parts acl uo us go gs ms ot" using assms posix_acl_valid_iff by blast
  show ?thesis using chmod_parts [OF p, of mode] equiv_reperm [OF p mode_perms]
    by (simp add: mode_of_mode del: drop_bit_and)
qed

lemma create_masq_valid:
  assumes "posix_acl_valid acl = None"
  shows "\<exists>acl' mode' ne. posix_acl_create_masq acl mode = (acl', mode', Inr ne) \<and> posix_acl_valid acl' = None \<and>
    posix_acl_equiv_mode acl' (Some mode') = Inr (ne, Some mode') \<and> mode' AND NOT mode = 0 \<and>
    list_all2 narrowed acl acl'"
proof -
  obtain uo us go gs ms ot where p: "acl_parts acl uo us go gs ms ot" using assms posix_acl_valid_iff by blast
  then have acl: "acl = uo # us @ go # gs @ ms @ [ot]" and ok: "perms_ok acl" by (auto simp: acl_parts_def)
  then have "e_perm uo AND NOT 7 = 0" "class_perm go ms AND NOT 7 = 0" "e_perm ot AND NOT 7 = 0"
    by (auto simp: class_perm_def split: list.splits)
  note r = equiv_reperm [OF p this [THEN masq_perm_ok], of 6 mode 3 mode 0 mode]
  from create_parts [OF p, of mode] r masq_mode_of [of "e_perm uo" mode "class_perm go ms" "e_perm ot"]
    reperm_narrowed [OF acl, of mode] show ?thesis by simp
qed

lemma from_mode_entries:
  assumes "posix_acl_from_mode mem mode = Inr acl"
  shows "a_entries acl =
    [\<lparr>e_tag = ACL_USER_OBJ, e_perm = drop_bit 6 (mode AND S_IRWXU), e_id = ACL_UNDEFINED_ID\<rparr>,
     \<lparr>e_tag = ACL_GROUP_OBJ, e_perm = drop_bit 3 (mode AND S_IRWXG), e_id = ACL_UNDEFINED_ID\<rparr>,
     \<lparr>e_tag = ACL_OTHER, e_perm = mode AND S_IRWXO, e_id = ACL_UNDEFINED_ID\<rparr>]"
  using assms by (cases mem) (auto simp: posix_acl_from_mode_def posix_acl_alloc_def upt_rec numeral_eq_Suc)

lemma from_mode_valid:
  assumes "posix_acl_from_mode mem mode = Inr acl"
  shows "posix_acl_valid (a_entries acl) = None" "posix_acl_equiv_mode (a_entries acl) (Some mode) = Inr (False, Some mode)"
proof -
  obtain uo go ot where e: "a_entries acl = [uo, go, ot]" and p: "acl_parts [uo, go, ot] uo [] go [] [] ot"
    and perm: "e_perm uo = drop_bit 6 (mode AND S_IRWXU)" "e_perm go = drop_bit 3 (mode AND S_IRWXG)"
      "e_perm ot = mode AND S_IRWXO"
    using from_mode_entries [OF assms] mode_perms by (force simp: acl_parts_def named_def)
  show "posix_acl_valid (a_entries acl) = None" using p posix_acl_valid_iff unfolding e by blast
  show "posix_acl_equiv_mode (a_entries acl) (Some mode) = Inr (False, Some mode)"
    using equiv_parts [OF p] by (simp add: e posix_acl_equiv_mode_def class_perm_def perm mode_of_mode
        del: drop_bit_and equiv_loop.simps)
qed

text \<open>
  C16: every operation that builds or rewrites a list keeps it well formed and in step with the
  file mode.  A list made from a mode is valid and represents exactly that mode.  A \<open>chmod\<close> of a
  valid list succeeds, leaves a valid list, and the mode that list stands for is the new mode.
  Applying a creation mode succeeds, leaves a valid list with the same entries, adds no
  permission to any entry or to the mode, and the mode it returns is the one the list stands for.
\<close>

theorem acl_operations_keep_valid:
  assumes "posix_acl_valid acl = None"
  shows "(\<forall>acl0. posix_acl_from_mode mem mode = Inr acl0 \<longrightarrow> posix_acl_valid (a_entries acl0) = None \<and>
      posix_acl_equiv_mode (a_entries acl0) (Some mode) = Inr (False, Some mode)) \<and>
    (\<exists>acl' ne. posix_acl_chmod_masq acl mode = (acl', None) \<and> posix_acl_valid acl' = None \<and>
      posix_acl_equiv_mode acl' (Some mode) = Inr (ne, Some mode)) \<and>
    (\<exists>acl' mode' ne. posix_acl_create_masq acl mode = (acl', mode', Inr ne) \<and> posix_acl_valid acl' = None \<and>
      posix_acl_equiv_mode acl' (Some mode') = Inr (ne, Some mode') \<and> mode' AND NOT mode = 0 \<and>
      list_all2 narrowed acl acl')"
  using from_mode_valid chmod_masq_valid [OF assms] create_masq_valid [OF assms] by blast

theorem acl_operations_keep_valid_witness:
  "\<exists>acl' ne. posix_acl_chmod_masq
     [\<lparr>e_tag = ACL_USER_OBJ, e_perm = 7, e_id = 0\<rparr>, \<lparr>e_tag = ACL_GROUP_OBJ, e_perm = 5, e_id = 0\<rparr>,
      \<lparr>e_tag = ACL_MASK, e_perm = 1, e_id = 0\<rparr>, \<lparr>e_tag = ACL_OTHER, e_perm = 4, e_id = 0\<rparr>] 0x1A4 = (acl', None) \<and>
     posix_acl_valid acl' = None \<and> posix_acl_equiv_mode acl' (Some 0x1A4) = Inr (ne, Some 0x1A4)"
proof -
  have "posix_acl_valid
     [\<lparr>e_tag = ACL_USER_OBJ, e_perm = 7, e_id = 0\<rparr>, \<lparr>e_tag = ACL_GROUP_OBJ, e_perm = 5, e_id = 0\<rparr>,
      \<lparr>e_tag = ACL_MASK, e_perm = 1, e_id = 0\<rparr>, \<lparr>e_tag = ACL_OTHER, e_perm = 4, e_id = 0\<rparr>] = None"
    by code_simp
  from acl_operations_keep_valid [OF this, of None "0x1A4"] show ?thesis by blast
qed

section \<open>The attribute form\<close>

definition entry_bytes :: "posix_acl_entry \<Rightarrow> bytes" where
  "entry_bytes e = cpu_to_le16 (e_tag e) @ cpu_to_le16 (e_perm e) @ cpu_to_le32 (e_id e)"

definition known_tag :: "posix_acl_entry \<Rightarrow> bool" where
  "known_tag e \<longleftrightarrow> e_tag e \<in> {ACL_USER_OBJ, ACL_USER, ACL_GROUP_OBJ, ACL_GROUP, ACL_MASK, ACL_OTHER}"

text \<open>Only the entries of named users and groups keep their identifier.\<close>

definition canonical :: "posix_acl_entry \<Rightarrow> posix_acl_entry" where
  "canonical e = (if e_tag e = ACL_USER \<or> e_tag e = ACL_GROUP then e else e\<lparr>e_id := ACL_UNDEFINED_ID\<rparr>)"

lemma to_xattr_loop_spec:
  assumes "length mid = 8 * length es" "off = length pre"
  shows "to_xattr_loop (pre @ mid @ post) off es = Some (pre @ concat (map entry_bytes es) @ post)"
  using assms
proof (induction es arbitrary: pre mid off)
  case (Cons e es)
  define m1 m2 m3 m4 where m: "m1 = take 2 mid" "m2 = take 2 (drop 2 mid)" "m3 = take 4 (drop 4 mid)" "m4 = drop 8 mid"
  have "mid = m1 @ m2 @ m3 @ m4"
    by (simp add: m) (metis append_take_drop_id drop_drop numeral_Bit0 numeral_plus_numeral)
  moreover have l: "length m1 = 2" "length m2 = 2" "length m3 = 4" "length m4 = 8 * length es"
    using Cons.prems(1) by (auto simp: m)
  moreover have "wr (pre @ m1 @ m2 @ m3 @ m4 @ post) off (cpu_to_le16 (e_tag e)) =
      Some (pre @ cpu_to_le16 (e_tag e) @ m2 @ m3 @ m4 @ post)"
    using Cons.prems(2) l by (intro wr_at) auto
  moreover have "wr ((pre @ cpu_to_le16 (e_tag e)) @ m2 @ (m3 @ m4 @ post)) (off + 2) (cpu_to_le16 (e_perm e)) =
      Some ((pre @ cpu_to_le16 (e_tag e)) @ cpu_to_le16 (e_perm e) @ (m3 @ m4 @ post))"
    using Cons.prems(2) l by (intro wr_at) auto
  moreover have "wr ((pre @ cpu_to_le16 (e_tag e) @ cpu_to_le16 (e_perm e)) @ m3 @ (m4 @ post)) (off + 4) (cpu_to_le32 (e_id e)) =
      Some ((pre @ cpu_to_le16 (e_tag e) @ cpu_to_le16 (e_perm e)) @ cpu_to_le32 (e_id e) @ (m4 @ post))"
    using Cons.prems(2) l by (intro wr_at) auto
  moreover have "to_xattr_loop ((pre @ entry_bytes e) @ m4 @ post) (off + 8) es =
      Some ((pre @ entry_bytes e) @ concat (map entry_bytes es) @ post)"
    using Cons.prems(2) l(4) by (intro Cons.IH) (auto simp: entry_bytes_def)
  ultimately show ?case by (simp add: entry_bytes_def [of e])
qed simp

lemma from_xattr_loop_spec:
  assumes "\<forall>e \<in> set es. known_tag e" "off = length pre"
  shows "from_xattr_loop (pre @ concat (map entry_bytes es)) off (length es) = Some (Inr (map canonical es))"
  using assms
proof (induction es arbitrary: pre off)
  case (Cons e es)
  let ?r = "concat (map entry_bytes es)"
  have "rd (pre @ cpu_to_le16 (e_tag e) @ (cpu_to_le16 (e_perm e) @ cpu_to_le32 (e_id e) @ ?r)) off 2 =
      Some (cpu_to_le16 (e_tag e))"
    using Cons.prems(2) by (intro rd_at) auto
  moreover have "rd ((pre @ cpu_to_le16 (e_tag e)) @ cpu_to_le16 (e_perm e) @ (cpu_to_le32 (e_id e) @ ?r)) (off + 2) 2 =
      Some (cpu_to_le16 (e_perm e))"
    using Cons.prems(2) by (intro rd_at) auto
  moreover have "rd ((pre @ cpu_to_le16 (e_tag e) @ cpu_to_le16 (e_perm e)) @ cpu_to_le32 (e_id e) @ ?r) (off + 4) 4 =
      Some (cpu_to_le32 (e_id e))"
    using Cons.prems(2) by (intro rd_at) auto
  moreover have "from_xattr_loop ((pre @ entry_bytes e) @ ?r) (off + 8) (length es) = Some (Inr (map canonical es))"
    using Cons.prems by (intro Cons.IH) (auto simp: entry_bytes_def)
  ultimately show ?case using Cons.prems(1)
    by (auto simp: entry_bytes_def [of e] known_tag_def canonical_def)
qed simp

text \<open>
  C17: \<open>posix_acl_to_xattr\<close> reports \<open>ERANGE\<close> for a buffer that is too small, and otherwise writes exactly
  the reported number of bytes and nothing after them; reading those bytes with
  \<open>posix_acl_from_xattr\<close> gives the list back, except that entries which are not for a named user or
  group lose their (meaningless) identifier.
\<close>

theorem acl_xattr_roundtrip:
  assumes "\<forall>e \<in> set (a_entries acl). known_tag e" "a_entries acl \<noteq> []" "sz \<le> length buf"
  defines "n \<equiv> posix_acl_xattr_size (length (a_entries acl))"
  shows "if sz < n then posix_acl_to_xattr acl (Some buf) sz = Some (Inl ERANGE)
    else \<exists>buf'. posix_acl_to_xattr acl (Some buf) sz = Some (Inr (n, Some buf')) \<and>
      length buf' = length buf \<and> drop n buf' = drop n buf \<and>
      posix_acl_from_xattr True (Some (take n buf')) n =
        Some (Inr (Some \<lparr>a_refcount = 1, a_entries = map canonical (a_entries acl)\<rparr>))"
proof (cases "sz < n")
  case True
  then show ?thesis by (simp add: posix_acl_to_xattr_def n_def)
next
  case False
  let ?es = "a_entries acl" and ?v = "cpu_to_le32 POSIX_ACL_XATTR_VERSION"
  have n: "n = 4 + 8 * length ?es" by (simp add: n_def posix_acl_xattr_size_def)
  define pre mid post where b: "pre = take 4 buf" "mid = take (8 * length ?es) (drop 4 buf)" "post = drop n buf"
  have len: "length pre = 4" "length mid = 8 * length ?es" using False assms(3) n by (auto simp: b)
  have buf: "buf = pre @ mid @ post"
    by (simp add: b n) (metis append_take_drop_id drop_drop add.commute)
  have lb: "length (concat (map entry_bytes es)) = 8 * length es" for es
    by (induction es) (auto simp: entry_bytes_def)
  let ?b = "?v @ concat (map entry_bytes ?es) @ post"
  have "wr ([] @ pre @ (mid @ post)) 0 ?v = Some ([] @ ?v @ (mid @ post))" using len by (intro wr_at) auto
  moreover have "to_xattr_loop (?v @ mid @ post) 4 ?es = Some ?b" using len by (intro to_xattr_loop_spec) auto
  ultimately have to: "posix_acl_to_xattr acl (Some buf) sz = Some (Inr (n, Some ?b))"
    using False by (simp add: posix_acl_to_xattr_def buf n_def)
  have t: "take n ?b = ?v @ concat (map entry_bytes ?es)" using lb [of ?es] by (simp add: n)
  have "rd ([] @ ?v @ concat (map entry_bytes ?es)) 0 4 = Some ?v" by (intro rd_at) auto
  moreover have "from_xattr_loop (?v @ concat (map entry_bytes ?es)) 4 (length ?es) = Some (Inr (map canonical ?es))"
    using assms(1) by (intro from_xattr_loop_spec) auto
  ultimately have "posix_acl_from_xattr True (Some (take n ?b)) n =
      Some (Inr (Some \<lparr>a_refcount = 1, a_entries = map canonical ?es\<rparr>))"
    unfolding t using assms(2) by (simp add: posix_acl_from_xattr_def posix_acl_xattr_count_def n Let_def)
  then show ?thesis using False to len lb [of ?es] by (auto simp: buf n)
qed

theorem acl_xattr_roundtrip_witness:
  "\<exists>buf'. posix_acl_to_xattr \<lparr>a_refcount = 1, a_entries = [\<lparr>e_tag = ACL_USER, e_perm = 5, e_id = 7\<rparr>]\<rparr> (Some (replicate 14 0)) 14 =
     Some (Inr (12, Some buf')) \<and>
     posix_acl_from_xattr True (Some (take 12 buf')) 12 =
       Some (Inr (Some \<lparr>a_refcount = 1, a_entries = [\<lparr>e_tag = ACL_USER, e_perm = 5, e_id = 7\<rparr>]\<rparr>))"
  using acl_xattr_roundtrip [of "\<lparr>a_refcount = 1, a_entries = [\<lparr>e_tag = ACL_USER, e_perm = 5, e_id = 7\<rparr>]\<rparr>" 14 "replicate 14 0"]
  by (auto simp: known_tag_def canonical_def posix_acl_xattr_size_def)


end
