(* ===== verification/Kfifo.thy ===== *)
theory Kfifo
  imports Kernel_Prelude "HOL-Library.Monad_Syntax"
begin

text \<open>
  The kernel's byte queue, \<open>kernel/kfifo.c\<close> and \<open>include/linux/kfifo.h\<close>: a ring buffer whose size is a
  power of two, with an input and an output index that run freely and wrap at \<open>2 ^ 32\<close>.  Every copy
  into or out of the ring, the caller's buffer or user space is bounds-checked; an access outside
  an object, a null buffer or a failed \<open>BUG_ON\<close> is the value \<open>None\<close>.
\<close>

section \<open>The queue and its indices\<close>

record kfifo =
  kbuffer :: "bytes option"
  ksize :: u32
  kin :: u32
  kout :: u32

definition kfifo_reset :: "kfifo \<Rightarrow> kfifo" where
  "kfifo_reset f = f\<lparr>kin := 0, kout := 0\<rparr>"

definition kfifo_reset_out :: "kfifo \<Rightarrow> kfifo" where
  "kfifo_reset_out f = f\<lparr>kout := kin f\<rparr>"

definition kfifo_initialized :: "kfifo \<Rightarrow> bool" where
  "kfifo_initialized f = (kbuffer f \<noteq> None)"

definition kfifo_size :: "kfifo \<Rightarrow> u32" where
  "kfifo_size f = ksize f"

definition kfifo_len :: "kfifo \<Rightarrow> u32" where
  "kfifo_len f = kin f - kout f"

definition kfifo_is_empty :: "kfifo \<Rightarrow> bool" where
  "kfifo_is_empty f = (kin f = kout f)"

definition kfifo_is_full :: "kfifo \<Rightarrow> bool" where
  "kfifo_is_full f = (kfifo_len f = kfifo_size f)"

definition kfifo_avail :: "kfifo \<Rightarrow> u32" where
  "kfifo_avail f = kfifo_size f - kfifo_len f"

definition kfifo_add_out_uu :: "kfifo \<Rightarrow> u32 \<Rightarrow> kfifo" where
  "kfifo_add_out_uu f off = f\<lparr>kout := kout f + off\<rparr>"

definition kfifo_add_in_uu :: "kfifo \<Rightarrow> u32 \<Rightarrow> kfifo" where
  "kfifo_add_in_uu f off = f\<lparr>kin := kin f + off\<rparr>"

definition kfifo_off_uu :: "kfifo \<Rightarrow> u32 \<Rightarrow> u32" where
  "kfifo_off_uu f off = off AND (ksize f - 1)"

section \<open>Creation\<close>

definition is_power_of_2 :: "u32 \<Rightarrow> bool" where
  "is_power_of_2 n \<longleftrightarrow> n \<noteq> 0 \<and> n AND (n - 1) = 0"

definition fls_step :: "nat \<Rightarrow> u32 \<Rightarrow> u32 \<times> nat \<Rightarrow> u32 \<times> nat" where
  "fls_step k hi = (\<lambda>(x, r). if x AND hi = 0 then (push_bit k x, r - k) else (x, r))"

definition fls :: "u32 \<Rightarrow> nat" where
  "fls x = (if x = 0 then 0
     else snd (fls_step 1 0x80000000 (fls_step 2 0xC0000000 (fls_step 4 0xF0000000
       (fls_step 8 0xFF000000 (fls_step 16 0xFFFF0000 (x, 32)))))))"

definition roundup_pow_of_two :: "u32 \<Rightarrow> u32" where
  "roundup_pow_of_two n = push_bit (fls (n - 1)) 1"

definition kfifo_init_u :: "bytes option \<Rightarrow> u32 \<Rightarrow> kfifo" where
  "kfifo_init_u buf sz = kfifo_reset \<lparr>kbuffer = buf, ksize = sz, kin = 0, kout = 0\<rparr>"

definition kfifo_init :: "bytes option \<Rightarrow> u32 \<Rightarrow> kfifo option" where
  "kfifo_init buf sz = (if \<not> is_power_of_2 sz then None else Some (kfifo_init_u buf sz))"

text \<open>The allocator returns \<open>None\<close> or a block with arbitrary contents.\<close>

definition kfifo_alloc :: "(nat \<Rightarrow> u8) option \<Rightarrow> u32 \<Rightarrow> (errno option \<times> kfifo) option" where
  "kfifo_alloc mem sz =
     (if \<not> is_power_of_2 sz \<and> (0x80000000 < sz \<or> sz = 0) then None
      else let sz = (if is_power_of_2 sz then sz else roundup_pow_of_two sz) in
        case mem of
          None \<Rightarrow> Some (Some ENOMEM, kfifo_init_u None 0)
        | Some fill \<Rightarrow> Some (None, kfifo_init_u (Some (map fill [0..<unat sz])) sz))"

definition kfifo_free :: "kfifo \<Rightarrow> kfifo" where
  "kfifo_free f = kfifo_init_u None 0"

definition kfifo_skip :: "kfifo \<Rightarrow> u32 \<Rightarrow> kfifo" where
  "kfifo_skip f len = (if len < kfifo_len f then kfifo_add_out_uu f len else kfifo_reset_out f)"

section \<open>Copies into and out of the ring\<close>

definition memcpy_in :: "bytes option \<Rightarrow> nat \<Rightarrow> bytes \<Rightarrow> bytes option option" where
  "memcpy_in buf off src =
     (if src = [] then Some buf else case buf of None \<Rightarrow> None | Some b \<Rightarrow> map_option Some (wr b off src))"

definition memcpy_out :: "bytes option \<Rightarrow> nat \<Rightarrow> nat \<Rightarrow> bytes option" where
  "memcpy_out buf off n =
     (if n = 0 then Some [] else case buf of None \<Rightarrow> None | Some b \<Rightarrow> rd b off n)"

definition kfifo_in_data_uu :: "kfifo \<Rightarrow> bytes \<Rightarrow> u32 \<Rightarrow> u32 \<Rightarrow> kfifo option" where
  "kfifo_in_data_uu f from len off = do {
     let off = kfifo_off_uu f (kin f + off);
     let l = min len (ksize f - off);
     src \<leftarrow> rd from 0 (unat l);
     buf \<leftarrow> memcpy_in (kbuffer f) (unat off) src;
     src \<leftarrow> rd from (unat l) (unat (len - l));
     buf \<leftarrow> memcpy_in buf 0 src;
     Some (f\<lparr>kbuffer := buf\<rparr>)
   }"

definition kfifo_out_data_uu :: "kfifo \<Rightarrow> bytes \<Rightarrow> u32 \<Rightarrow> u32 \<Rightarrow> bytes option" where
  "kfifo_out_data_uu f to len off = do {
     let off = kfifo_off_uu f (kout f + off);
     let l = min len (ksize f - off);
     src \<leftarrow> memcpy_out (kbuffer f) (unat off) (unat l);
     to \<leftarrow> wr to 0 src;
     src \<leftarrow> memcpy_out (kbuffer f) 0 (unat (len - l));
     wr to (unat l) src
   }"

text \<open>
  The list \<open>from\<close> or \<open>to\<close> is the part of the user's range that can be accessed.  \<open>copy_from_user\<close>
  clears what it could not read; both functions return the number of bytes not copied.
\<close>

definition copy_from_user :: "bytes option \<Rightarrow> nat \<Rightarrow> bytes \<Rightarrow> nat \<Rightarrow> nat \<Rightarrow> (bytes option \<times> nat) option" where
  "copy_from_user buf off from o' n =
     (let got = take n (drop o' from) in
      map_option (\<lambda>b. (b, n - length got)) (memcpy_in buf off (got @ replicate (n - length got) 0)))"

definition copy_to_user :: "bytes \<Rightarrow> nat \<Rightarrow> bytes \<Rightarrow> bytes \<times> nat" where
  "copy_to_user to off src =
     (let n = min (length src) (length to - off) in
      (take off to @ take n src @ drop (off + n) to, length src - n))"

definition kfifo_from_user_data_uu :: "kfifo \<Rightarrow> bytes \<Rightarrow> u32 \<Rightarrow> u32 \<Rightarrow> (errno option \<times> u32 \<times> kfifo) option" where
  "kfifo_from_user_data_uu f from len off = do {
     let off = kfifo_off_uu f (kin f + off);
     let l = min len (ksize f - off);
     (buf, ret) \<leftarrow> copy_from_user (kbuffer f) (unat off) from 0 (unat l);
     if ret \<noteq> 0 then Some (Some EFAULT, of_nat ret, f\<lparr>kbuffer := buf\<rparr>)
     else do {
       (buf, ret) \<leftarrow> copy_from_user buf 0 from (unat l) (unat (len - l));
       Some (if ret \<noteq> 0 then Some EFAULT else None,
             l + (if ret \<noteq> 0 then of_nat ret else len - l), f\<lparr>kbuffer := buf\<rparr>)
     }
   }"

definition kfifo_to_user_data_uu :: "kfifo \<Rightarrow> bytes \<Rightarrow> u32 \<Rightarrow> u32 \<Rightarrow> (errno option \<times> u32 \<times> bytes) option" where
  "kfifo_to_user_data_uu f to len off = do {
     let off = kfifo_off_uu f (kout f + off);
     let l = min len (ksize f - off);
     src \<leftarrow> memcpy_out (kbuffer f) (unat off) (unat l);
     let (to, ret) = copy_to_user to 0 src;
     if ret \<noteq> 0 then Some (Some EFAULT, l - of_nat ret, to)
     else do {
       let len = len - l;
       src \<leftarrow> memcpy_out (kbuffer f) 0 (unat len);
       let (to, ret) = copy_to_user to (unat l) src;
       if ret \<noteq> 0 then Some (Some EFAULT, l + (len - of_nat ret), to)
       else Some (None, l + len, to)
     }
   }"

section \<open>Byte operations\<close>

definition kfifo_in :: "kfifo \<Rightarrow> bytes \<Rightarrow> u32 \<Rightarrow> (u32 \<times> kfifo) option" where
  "kfifo_in f from len = do {
     let len = min (kfifo_avail f) len;
     f \<leftarrow> kfifo_in_data_uu f from len 0;
     Some (len, kfifo_add_in_uu f len)
   }"

definition kfifo_out :: "kfifo \<Rightarrow> bytes \<Rightarrow> u32 \<Rightarrow> (u32 \<times> bytes \<times> kfifo) option" where
  "kfifo_out f to len = do {
     let len = min (kfifo_len f) len;
     to \<leftarrow> kfifo_out_data_uu f to len 0;
     Some (len, to, kfifo_add_out_uu f len)
   }"

definition kfifo_out_peek :: "kfifo \<Rightarrow> bytes \<Rightarrow> u32 \<Rightarrow> u32 \<Rightarrow> (u32 \<times> bytes) option" where
  "kfifo_out_peek f to len offset = do {
     let len = min (kfifo_len f) (len + offset);
     to \<leftarrow> kfifo_out_data_uu f to len offset;
     Some (len, to)
   }"

definition kfifo_from_user :: "kfifo \<Rightarrow> bytes \<Rightarrow> u32 \<Rightarrow> (errno option \<times> u32 \<times> kfifo) option" where
  "kfifo_from_user f from len = do {
     let len = min (kfifo_avail f) len;
     (ret, total, f) \<leftarrow> kfifo_from_user_data_uu f from len 0;
     if ret \<noteq> None then Some (ret, total, f)
     else Some (None, total, kfifo_add_in_uu f len)
   }"

definition kfifo_to_user :: "kfifo \<Rightarrow> bytes \<Rightarrow> u32 \<Rightarrow> (errno option \<times> u32 \<times> bytes \<times> kfifo) option" where
  "kfifo_to_user f to len = do {
     let len = min (kfifo_len f) len;
     (ret, lenout, to) \<leftarrow> kfifo_to_user_data_uu f to len 0;
     Some (ret, lenout, to, kfifo_add_out_uu f lenout)
   }"

section \<open>Record operations\<close>

definition kfifo_get :: "kfifo \<Rightarrow> u32 \<Rightarrow> u8 option" where
  "kfifo_get f off = map_option hd (memcpy_out (kbuffer f) (unat (kfifo_off_uu f (kout f + off))) 1)"

definition kfifo_put :: "kfifo \<Rightarrow> u32 \<Rightarrow> u8 \<Rightarrow> kfifo option" where
  "kfifo_put f off x = do {
     buf \<leftarrow> memcpy_in (kbuffer f) (unat (kfifo_off_uu f (kin f + off))) [x];
     Some (f\<lparr>kbuffer := buf\<rparr>)
   }"

definition kfifo_peek_n_uu :: "kfifo \<Rightarrow> u32 \<Rightarrow> u32 option" where
  "kfifo_peek_n_uu f recsize = do {
     l \<leftarrow> kfifo_get f 0;
     if recsize - 1 \<noteq> 0 then do {
       h \<leftarrow> kfifo_get f 1;
       Some (ucast l OR push_bit 8 (ucast h))
     } else Some (ucast l)
   }"

definition kfifo_poke_n_uu :: "kfifo \<Rightarrow> u32 \<Rightarrow> u32 \<Rightarrow> kfifo option" where
  "kfifo_poke_n_uu f recsize n = do {
     f \<leftarrow> kfifo_put f 0 (ucast n);
     if recsize - 1 \<noteq> 0 then kfifo_put f 1 (ucast (drop_bit 8 n)) else Some f
   }"

definition kfifo_in_n_uu :: "kfifo \<Rightarrow> bytes \<Rightarrow> u32 \<Rightarrow> u32 \<Rightarrow> (u32 \<times> kfifo) option" where
  "kfifo_in_n_uu f from len recsize =
     (if kfifo_avail f < len + recsize then Some (len + 1, f)
      else do { f \<leftarrow> kfifo_in_data_uu f from len recsize; Some (0, f) })"

definition kfifo_in_rec_uu :: "kfifo \<Rightarrow> bytes \<Rightarrow> u32 \<Rightarrow> u32 \<Rightarrow> (u32 \<times> kfifo) option" where
  "kfifo_in_rec_uu f from n recsize = do {
     (ret, f) \<leftarrow> kfifo_in_n_uu f from n recsize;
     if ret = 0 then do {
       f \<leftarrow> (if recsize \<noteq> 0 then kfifo_poke_n_uu f recsize n else Some f);
       Some (ret, kfifo_add_in_uu f (n + recsize))
     } else Some (ret, f)
   }"

definition kfifo_out_n_uu :: "kfifo \<Rightarrow> bytes \<Rightarrow> u32 \<Rightarrow> u32 \<Rightarrow> (u32 \<times> bytes \<times> kfifo) option" where
  "kfifo_out_n_uu f to len recsize =
     (if kfifo_len f < len + recsize then Some (len, to, f)
      else do {
        to \<leftarrow> kfifo_out_data_uu f to len recsize;
        Some (0, to, kfifo_add_out_uu f (len + recsize))
      })"

definition kfifo_out_rec_uu :: "kfifo \<Rightarrow> bytes \<Rightarrow> u32 \<Rightarrow> u32 \<Rightarrow> (u32 \<times> u32 \<times> bytes \<times> kfifo) option" where
  "kfifo_out_rec_uu f to n recsize =
     (if recsize = 0 then map_option (\<lambda>(r, to, f). (r, n, to, f)) (kfifo_out_n_uu f to n recsize)
      else do {
        l \<leftarrow> kfifo_peek_n_uu f recsize;
        if n < l then Some (l, l, to, f)
        else map_option (\<lambda>(r, to, f). (r, l, to, f)) (kfifo_out_n_uu f to l recsize)
      })"

definition kfifo_from_user_n_uu :: "kfifo \<Rightarrow> bytes \<Rightarrow> u32 \<Rightarrow> u32 \<Rightarrow> (u32 \<times> kfifo) option" where
  "kfifo_from_user_n_uu f from len recsize =
     (if kfifo_avail f < len + recsize then Some (len + 1, f)
      else do {
        (ret, total, f) \<leftarrow> kfifo_from_user_data_uu f from len recsize;
        Some (total, f)
      })"

definition kfifo_from_user_rec_uu :: "kfifo \<Rightarrow> bytes \<Rightarrow> u32 \<Rightarrow> u32 \<Rightarrow> (u32 \<times> kfifo) option" where
  "kfifo_from_user_rec_uu f from n recsize = do {
     (ret, f) \<leftarrow> kfifo_from_user_n_uu f from n recsize;
     if ret = 0 then do {
       f \<leftarrow> (if recsize \<noteq> 0 then kfifo_poke_n_uu f recsize n else Some f);
       Some (ret, kfifo_add_in_uu f (n + recsize))
     } else Some (ret, f)
   }"

definition kfifo_to_user_n_uu :: "kfifo \<Rightarrow> bytes \<Rightarrow> u32 \<Rightarrow> u32 \<Rightarrow> u32 \<Rightarrow> (u32 \<times> bytes \<times> kfifo) option" where
  "kfifo_to_user_n_uu f to len reclen recsize =
     (if kfifo_len f < reclen + recsize then Some (len, to, f)
      else do {
        (ret, total, to) \<leftarrow> kfifo_to_user_data_uu f to reclen recsize;
        Some (total, to, if ret = None then kfifo_add_out_uu f (reclen + recsize) else f)
      })"

definition kfifo_to_user_rec_uu :: "kfifo \<Rightarrow> bytes \<Rightarrow> u32 \<Rightarrow> u32 \<Rightarrow> (u32 \<times> u32 \<times> bytes \<times> kfifo) option" where
  "kfifo_to_user_rec_uu f to n recsize =
     (if recsize = 0 then map_option (\<lambda>(r, to, f). (r, n, to, f)) (kfifo_to_user_n_uu f to n n recsize)
      else do {
        l \<leftarrow> kfifo_peek_n_uu f recsize;
        if n < l then Some (l, l, to, f)
        else map_option (\<lambda>(r, to, f). (r, l, to, f)) (kfifo_to_user_n_uu f to n l recsize)
      })"

definition kfifo_peek_rec :: "kfifo \<Rightarrow> u32 \<Rightarrow> u32 option" where
  "kfifo_peek_rec f recsize = (if recsize = 0 then Some (kfifo_len f) else kfifo_peek_n_uu f recsize)"

definition kfifo_peek_generic_uu :: "kfifo \<Rightarrow> u32 \<Rightarrow> u32 option" where
  "kfifo_peek_generic_uu f recsize = (if recsize = 0 then Some (kfifo_avail f) else kfifo_peek_n_uu f recsize)"

definition kfifo_skip_rec_uu :: "kfifo \<Rightarrow> u32 \<Rightarrow> kfifo option" where
  "kfifo_skip_rec_uu f recsize =
     (if recsize \<noteq> 0 then do {
        l \<leftarrow> kfifo_peek_n_uu f recsize;
        if l + recsize \<le> kfifo_len f then Some (kfifo_add_out_uu f (l + recsize)) else Some (kfifo_reset_out f)
      } else Some (kfifo_reset_out f))"

definition kfifo_avail_rec :: "kfifo \<Rightarrow> u32 \<Rightarrow> u32" where
  "kfifo_avail_rec f recsize =
     (let l = kfifo_size f - kfifo_len f in if recsize < l then l - recsize else 0)"

end
