(* ===== verification/Kfifo_Queue.thy ===== *)
theory Kfifo_Queue
  imports Kfifo
begin

text \<open>
  The ring buffer of \<open>Kfifo\<close> is a bounded byte queue: seen from the output index it is a list, of which
  the first \<open>kfifo_len\<close> bytes are the contents.  Input appends, output takes from the front, whatever
  the indices are and wherever they wrap.
\<close>

section \<open>The ring as a rotated list\<close>

definition ring_write :: "bytes \<Rightarrow> nat \<Rightarrow> bytes \<Rightarrow> bytes option" where
  "ring_write b pos xs = do {
     b' \<leftarrow> wr b pos (take (min (length xs) (length b - pos)) xs);
     wr b' 0 (drop (min (length xs) (length b - pos)) xs)
   }"

lemma rotate_split: "n \<le> length xs \<Longrightarrow> rotate n xs = drop n xs @ take n xs"
  using rotate_append [of "take n xs" "drop n xs"] by simp

lemma ring_write_rotate:
  assumes "pos < length b" "length xs \<le> length b"
  shows "\<exists>b'. ring_write b pos xs = Some b' \<and> length b' = length b \<and>
    rotate pos b' = xs @ drop (length xs) (rotate pos b)"
proof (cases "length xs \<le> length b - pos")
  case True
  then show ?thesis using assms by (auto simp: ring_write_def wr_def rotate_split add.commute)
next
  case False
  let ?l = "length b - pos"
  have d: "drop (length xs) (drop pos b @ take pos b) = drop (length xs - ?l) (take pos b)"
    using False by simp
  have "ring_write b pos xs = Some (drop ?l xs @ drop (length xs - ?l) (take pos b) @ take ?l xs)"
    using False assms by (simp add: ring_write_def wr_def min_def drop_take)
  moreover have "rotate pos (drop ?l xs @ drop (length xs - ?l) (take pos b) @ take ?l xs) =
      take ?l xs @ drop ?l xs @ drop (length xs - ?l) (take pos b)"
  proof -
    have "pos = length (drop ?l xs @ drop (length xs - ?l) (take pos b))" using False assms by simp
    then show ?thesis using rotate_append [of "drop ?l xs @ drop (length xs - ?l) (take pos b)" "take ?l xs"] by simp
  qed
  ultimately show ?thesis using False assms d by (auto simp: rotate_split)
qed

text \<open>Appending behind the first \<open>m\<close> bytes seen from \<open>pos\<close>.\<close>

lemma rotate_back:
  assumes "m \<le> length b" "rotate ((pos + m) mod length b) b' = xs @ drop (length xs) (rotate ((pos + m) mod length b) b)"
    "length b' = length b" "length xs \<le> length b - m" "0 < length b"
  shows "rotate pos b' = take m (rotate pos b) @ xs @ drop (m + length xs) (rotate pos b)"
proof -
  let ?R = "rotate pos b"
  have r: "rotate ((pos + m) mod length b) b = rotate m ?R" "rotate ((pos + m) mod length b) b' = rotate m (rotate pos b')"
    using assms(3) rotate_conv_mod [of "pos + m" b] rotate_conv_mod [of "pos + m" b']
    by (simp_all add: rotate_rotate add.commute)
  have m: "rotate m ?R = drop m ?R @ take m ?R" using assms(1) by (simp add: rotate_split)
  have "rotate m (rotate pos b') = xs @ drop (length xs) (drop m ?R @ take m ?R)"
    using assms(2) unfolding r m .
  also have "\<dots> = (xs @ drop (m + length xs) ?R) @ take m ?R"
    using assms(1,4) by (simp add: add.commute)
  finally have e: "rotate m (rotate pos b') = (xs @ drop (m + length xs) ?R) @ take m ?R" .
  have "length (xs @ drop (m + length xs) ?R) = length b - m" using assms(1,4) by simp
  then have "rotate (length b - m) (rotate m (rotate pos b')) = take m ?R @ xs @ drop (m + length xs) ?R"
    unfolding e using rotate_append [of "xs @ drop (m + length xs) ?R" "take m ?R"] by simp
  moreover have "rotate (length b - m) (rotate m (rotate pos b')) = rotate pos b'"
  proof -
    have "rotate (length b - m) (rotate m (rotate pos b')) = rotate (length b) (rotate pos b')"
      using assms(1) by (simp add: rotate_rotate)
    also have "\<dots> = rotate pos b'" using assms(3) rotate_id [of "length b" "rotate pos b'"] by simp
    finally show ?thesis .
  qed
  ultimately show ?thesis by simp
qed

section \<open>The invariant and the contents\<close>

definition ring :: "kfifo \<Rightarrow> bytes \<Rightarrow> nat \<Rightarrow> bool" where
  "ring f b k \<longleftrightarrow> k < 32 \<and> ksize f = 2 ^ k \<and> kbuffer f = Some b \<and> length b = 2 ^ k"

definition kfifo_ok :: "kfifo \<Rightarrow> bool" where
  "kfifo_ok f \<longleftrightarrow> (\<exists>b k. ring f b k) \<and> kfifo_len f \<le> ksize f"

text \<open>The whole ring as seen from the output index, and the part of it that is in use.\<close>

definition seen :: "kfifo \<Rightarrow> bytes" where
  "seen f = (case kbuffer f of None \<Rightarrow> [] | Some b \<Rightarrow> rotate (unat (kout f) mod length b) b)"

definition contents :: "kfifo \<Rightarrow> bytes" where
  "contents f = take (unat (kfifo_len f)) (seen f)"

lemma unat_exp: "k < 32 \<Longrightarrow> unat (2 ^ k :: u32) = 2 ^ k"
proof -
  assume "k < 32"
  then have "(2 :: nat) ^ k < 2 ^ 32" by (intro power_strict_increasing) auto
  then show ?thesis using unat_of_nat_u32 [of "2 ^ k"] by simp
qed

lemma unat_size: "ring f b k \<Longrightarrow> unat (ksize f) = 2 ^ k"
  by (simp add: ring_def unat_exp)

lemma unat_off:
  assumes "ring f b k"
  shows "unat (kfifo_off_uu f x) = unat x mod 2 ^ k"
proof -
  have "kfifo_off_uu f x = take_bit k x"
    using assms by (simp add: ring_def kfifo_off_uu_def take_bit_eq_mask mask_eq_exp_minus_1)
  then have "unat (kfifo_off_uu f x) = take_bit k (unat x)" by (simp add: unsigned_take_bit_eq)
  then show ?thesis by (simp only: take_bit_eq_mod)
qed

lemma unat_add_mod:
  assumes "k < 32"
  shows "unat (x + y :: u32) mod 2 ^ k = (unat x + unat y) mod 2 ^ k"
proof -
  have "(2 :: nat) ^ k dvd 2 ^ 32" using assms by (intro le_imp_power_dvd) auto
  then show ?thesis by (simp add: unat_word_ariths mod_mod_cancel)
qed

lemma room:
  fixes x :: u32
  assumes "ring f b k"
  defines "off \<equiv> kfifo_off_uu f x"
  shows "unat (ksize f - off) = length b - unat off" "unat off < length b"
proof -
  have "(2 :: nat) ^ k > 0" by simp
  then show o: "unat off < length b" using unat_off [OF assms(1)] assms(1) by (simp add: off_def ring_def)
  then have "off \<le> ksize f" using unat_size [OF assms(1)] assms(1) by (simp add: word_le_nat_alt ring_def)
  then show "unat (ksize f - off) = length b - unat off"
    using unat_size [OF assms(1)] assms(1) by (simp add: unat_sub ring_def)
qed

lemma unat_min: "unat (min a b :: u32) = min (unat a) (unat b)"
  by (simp add: min_def word_le_nat_alt)

lemma memcpy_in_wr: "off \<le> length b \<Longrightarrow> memcpy_in (Some b) off src = map_option Some (wr b off src)"
  by (simp add: memcpy_in_def wr_def)

lemma memcpy_out_rd: "off \<le> length b \<Longrightarrow> memcpy_out (Some b) off n = rd b off n"
  by (simp add: memcpy_out_def rd_def)

lemma in_data_ring:
  fixes off :: u32
  assumes r: "ring f b k" and len: "unat len \<le> length from"
  defines "pos \<equiv> unat (kin f + off) mod length b"
  shows "kfifo_in_data_uu f from len off =
    map_option (\<lambda>b'. f\<lparr>kbuffer := Some b'\<rparr>) (ring_write b pos (take (unat len) from))"
proof -
  let ?off = "kfifo_off_uu f (kin f + off)"
  define l where "l = min len (ksize f - ?off)"
  have b: "kbuffer f = Some b" "length b = 2 ^ k" using r by (auto simp: ring_def)
  have pos: "unat ?off = pos" "pos < length b" using unat_off [OF r] room [OF r] b(2) by (auto simp: pos_def)
  have l: "unat l = min (unat len) (length b - pos)" "l \<le> len"
    using room(1) [OF r] pos(1) by (auto simp: l_def unat_min)
  have s: "rd from 0 (unat l) = Some (take (unat l) (take (unat len) from))"
    "rd from (unat l) (unat (len - l)) = Some (drop (unat l) (take (unat len) from))"
    using len l by (auto simp: rd_def unat_sub drop_take min_def)
  have lx: "min (length (take (unat len) from)) (length b - pos) = unat l" using len l(1) by simp
  show ?thesis
    unfolding kfifo_in_data_uu_def Let_def l_def [symmetric] s ring_write_def lx
    using pos b(1)
    by (cases "wr b pos (take (unat l) (take (unat len) from))")
      (auto simp: memcpy_in_wr map_conv_bind_option comp_def simp del: take_take)
qed

lemma out_data_ring:
  fixes off :: u32
  assumes r: "ring f b k" and len: "unat len \<le> length b" "unat len \<le> length to"
  defines "pos \<equiv> unat (kout f + off) mod length b"
  shows "kfifo_out_data_uu f to len off = Some (take (unat len) (rotate pos b) @ drop (unat len) to)"
proof -
  let ?off = "kfifo_off_uu f (kout f + off)"
  define l where "l = min len (ksize f - ?off)"
  have b: "kbuffer f = Some b" "length b = 2 ^ k" using r by (auto simp: ring_def)
  have pos: "unat ?off = pos" "pos < length b" using unat_off [OF r] room [OF r] b(2) by (auto simp: pos_def)
  have l: "unat l = min (unat len) (length b - pos)" "l \<le> len"
    using room(1) [OF r] pos(1) by (auto simp: l_def unat_min)
  have s: "memcpy_out (kbuffer f) pos (unat l) = Some (take (unat l) (drop pos b))"
    "memcpy_out (kbuffer f) 0 (unat (len - l)) = Some (take (unat len - unat l) b)"
    using pos(2) b(1) l len(1) by (auto simp: memcpy_out_rd rd_def unat_sub)
  have "take (unat len) (rotate pos b) = take (unat l) (drop pos b) @ take (unat len - unat l) b"
    using pos(2) l(1) len(1) by (auto simp: rotate_split min_def)
  then show ?thesis
    unfolding kfifo_out_data_uu_def Let_def l_def [symmetric] pos(1) s
    using l len pos(2) by (auto simp: wr_def min_def)
qed

lemma pos_in:
  assumes "ring f b k"
  shows "unat (kin f + off) mod length b = (unat (kout f) mod length b + (unat (kfifo_len f) + unat off)) mod length b"
proof -
  have k: "k < 32" "length b = 2 ^ k" using assms by (auto simp: ring_def)
  have "kin f + off = kout f + (kfifo_len f + off)" by (simp add: kfifo_len_def)
  then have "unat (kin f + off) mod 2 ^ k = (unat (kout f) + unat (kfifo_len f + off)) mod 2 ^ k"
    using unat_add_mod [OF k(1)] by metis
  moreover have "unat (kfifo_len f + off) mod 2 ^ k = (unat (kfifo_len f) + unat off) mod 2 ^ k"
    by (rule unat_add_mod [OF k(1)])
  ultimately show ?thesis unfolding k(2) by (metis mod_add_left_eq mod_add_right_eq)
qed

lemma ok_ring:
  assumes "kfifo_ok f"
  obtains b k where "ring f b k" "length b = unat (ksize f)" "seen f = rotate (unat (kout f) mod length b) b"
    "0 < length b"
proof -
  obtain b k where r: "ring f b k" using assms by (auto simp: kfifo_ok_def)
  then have "length b = unat (ksize f)" using unat_size [OF r] by (simp add: ring_def)
  moreover have "0 < length b" "kbuffer f = Some b" using r by (auto simp: ring_def)
  ultimately show thesis using that [OF r] by (simp add: seen_def)
qed

lemma len_le_size: "kfifo_ok f \<Longrightarrow> unat (kfifo_len f) \<le> unat (ksize f)"
  by (simp add: kfifo_ok_def word_le_nat_alt)

lemma length_seen: "kfifo_ok f \<Longrightarrow> length (seen f) = unat (ksize f)"
  by (erule ok_ring) simp

lemma length_contents: "kfifo_ok f \<Longrightarrow> length (contents f) = unat (kfifo_len f)"
  using len_le_size length_seen by (simp add: contents_def)

lemma unat_avail: "kfifo_ok f \<Longrightarrow> unat (kfifo_avail f) = unat (ksize f) - length (contents f)"
  by (simp add: kfifo_avail_def kfifo_size_def length_contents unat_sub kfifo_ok_def)

lemma ok_buffer:
  assumes "kfifo_ok f" "kbuffer f = Some b" "length b' = length b"
  shows "kfifo_ok (f\<lparr>kbuffer := Some b'\<rparr>)"
  using assms by (auto simp: kfifo_ok_def ring_def kfifo_len_def)

definition same_indices :: "kfifo \<Rightarrow> kfifo \<Rightarrow> bool" where
  "same_indices f f' \<longleftrightarrow> kfifo_ok f' \<and> kin f' = kin f \<and> kout f' = kout f \<and> ksize f' = ksize f"

lemma same_len: "same_indices f f' \<Longrightarrow> kfifo_len f' = kfifo_len f"
  by (simp add: same_indices_def kfifo_len_def)

text \<open>Writing behind the contents, the basis of byte and record input.\<close>

lemma in_data_seen:
  assumes ok: "kfifo_ok f" and len: "unat len \<le> length src" "unat (kfifo_len f) + unat off + unat len \<le> unat (ksize f)"
  defines "m \<equiv> unat (kfifo_len f) + unat off"
  shows "\<exists>f'. kfifo_in_data_uu f src len off = Some f' \<and> same_indices f f' \<and>
    seen f' = take m (seen f) @ take (unat len) src @ drop (m + unat len) (seen f)"
proof -
  obtain b k where r: "ring f b k" "length b = unat (ksize f)" "seen f = rotate (unat (kout f) mod length b) b" "0 < length b"
    using ok_ring [OF ok] .
  let ?pos = "unat (kout f) mod length b" and ?xs = "take (unat len) src"
  have m: "m \<le> length b" "length ?xs \<le> length b - m" "length ?xs = unat len" "length ?xs \<le> length b"
    using len r(2) by (auto simp: m_def)
  have p: "unat (kin f + off) mod length b = (?pos + m) mod length b"
    using pos_in [OF r(1)] by (simp add: m_def)
  obtain b' where b': "ring_write b ((?pos + m) mod length b) ?xs = Some b'" "length b' = length b"
    "rotate ((?pos + m) mod length b) b' = ?xs @ drop (length ?xs) (rotate ((?pos + m) mod length b) b)"
    using ring_write_rotate [of "(?pos + m) mod length b" b ?xs] m(4) r(4) by fastforce
  have f': "kfifo_in_data_uu f src len off = Some (f\<lparr>kbuffer := Some b'\<rparr>)"
    using in_data_ring [OF r(1) len(1), of off] b'(1) p by simp
  have "rotate ?pos b' = take m (rotate ?pos b) @ ?xs @ drop (m + unat len) (rotate ?pos b)"
    using rotate_back [OF m(1) b'(3,2) m(2) r(4)] m(3) by simp
  then have "seen (f\<lparr>kbuffer := Some b'\<rparr>) = take m (seen f) @ ?xs @ drop (m + unat len) (seen f)"
    using r(3) b'(2) by (simp add: seen_def)
  moreover have "same_indices f (f\<lparr>kbuffer := Some b'\<rparr>)"
    using ok_buffer [OF ok _ b'(2)] r(1) by (simp add: same_indices_def ring_def)
  ultimately show ?thesis using f' by blast
qed

text \<open>Moving the input index over bytes that have been written, and the output index over bytes in use.\<close>

lemma add_in_contents:
  assumes "kfifo_ok f" "unat (kfifo_len f) + unat n \<le> unat (ksize f)"
  shows "kfifo_ok (kfifo_add_in_uu f n)" "contents (kfifo_add_in_uu f n) = take (unat (kfifo_len f) + unat n) (seen f)"
    "ksize (kfifo_add_in_uu f n) = ksize f"
proof -
  let ?f = "kfifo_add_in_uu f n"
  have "kfifo_len ?f = kfifo_len f + n" by (simp add: kfifo_len_def kfifo_add_in_uu_def)
  then have l: "unat (kfifo_len ?f) = unat (kfifo_len f) + unat n"
    using assms(2) unat_u32_less [of "ksize f"] by (simp add: unat_word_ariths)
  then show "kfifo_ok ?f"
    using assms by (auto simp: kfifo_ok_def ring_def kfifo_add_in_uu_def word_le_nat_alt)
  show "contents ?f = take (unat (kfifo_len f) + unat n) (seen f)"
    using l by (simp add: contents_def) (simp add: seen_def kfifo_add_in_uu_def split: option.splits)
  show "ksize ?f = ksize f" by (simp add: kfifo_add_in_uu_def)
qed

lemma add_out_contents:
  assumes "kfifo_ok f" "unat n \<le> unat (kfifo_len f)"
  shows "kfifo_ok (kfifo_add_out_uu f n)" "contents (kfifo_add_out_uu f n) = drop (unat n) (contents f)"
    "ksize (kfifo_add_out_uu f n) = ksize f"
proof -
  let ?f = "kfifo_add_out_uu f n"
  obtain b k where r: "ring f b k" "length b = unat (ksize f)" "seen f = rotate (unat (kout f) mod length b) b" "0 < length b"
    using ok_ring [OF assms(1)] .
  have "kfifo_len ?f = kfifo_len f - n" by (simp add: kfifo_len_def kfifo_add_out_uu_def)
  then have l: "unat (kfifo_len ?f) = unat (kfifo_len f) - unat n"
    using assms(2) by (simp add: unat_sub word_le_nat_alt)
  then show "kfifo_ok ?f"
    using assms by (auto simp: kfifo_ok_def ring_def kfifo_add_out_uu_def word_le_nat_alt)
  have k: "k < 32" "length b = 2 ^ k" using r(1) by (auto simp: ring_def)
  have "unat (kout f + n) mod length b = (unat (kout f) mod length b + unat n) mod length b"
    unfolding k(2) by (simp add: unat_add_mod [OF k(1)] mod_simps)
  then have "seen ?f = rotate (unat n) (seen f)"
    using r(1,3) rotate_conv_mod [of "unat (kout f) mod length b + unat n" b]
    by (simp add: seen_def ring_def kfifo_add_out_uu_def rotate_rotate add.commute)
  moreover have "unat n \<le> length (seen f)" "unat (kfifo_len f) \<le> length (seen f)"
    using assms len_le_size [OF assms(1)] length_seen [OF assms(1)] by auto
  ultimately show "contents ?f = drop (unat n) (contents f)"
    using l by (simp add: contents_def rotate_split drop_take)
  show "ksize ?f = ksize f" by (simp add: kfifo_add_out_uu_def)
qed

section \<open>Byte operations\<close>

lemma kfifo_in_spec:
  assumes ok: "kfifo_ok f" and len: "unat len = length src"
  defines "n \<equiv> min (unat (ksize f) - length (contents f)) (length src)"
  shows "\<exists>f'. kfifo_in f src len = Some (of_nat n, f') \<and> kfifo_ok f' \<and> ksize f' = ksize f \<and>
    contents f' = contents f @ take n src"
proof -
  have n: "unat (min (kfifo_avail f) len) = n" using len by (simp add: unat_min unat_avail [OF ok] n_def)
  then have on: "min (kfifo_avail f) len = of_nat n" by (metis of_nat_unat_u32)
  have b: "n \<le> length src" "unat (kfifo_len f) + n \<le> unat (ksize f)"
    using len_le_size [OF ok] length_contents [OF ok] by (auto simp: n_def)
  obtain f1 where f1: "kfifo_in_data_uu f src (of_nat n) 0 = Some f1" "same_indices f f1"
    "seen f1 = take (unat (kfifo_len f)) (seen f) @ take n src @ drop (unat (kfifo_len f) + n) (seen f)"
    using in_data_seen [OF ok, of "of_nat n" src 0] n b on by auto
  have "kfifo_ok f1" "unat (kfifo_len f1) + unat (of_nat n :: u32) \<le> unat (ksize f1)"
    using f1(2) b(2) n on same_len [OF f1(2)] by (auto simp: same_indices_def)
  note a = add_in_contents [OF this]
  have "contents (kfifo_add_in_uu f1 (of_nat n)) = contents f @ take n src"
    using a(2) f1(3) b n on same_len [OF f1(2)] len_le_size [OF ok] length_seen [OF ok]
    by (simp add: contents_def min_absorb2)
  moreover have "kfifo_in f src len = Some (of_nat n, kfifo_add_in_uu f1 (of_nat n))"
    using f1(1) by (simp add: kfifo_in_def Let_def on)
  ultimately show ?thesis using a f1(2) by (auto simp: same_indices_def)
qed

lemma out_data_contents:
  assumes ok: "kfifo_ok f" and n: "unat off + unat n \<le> unat (kfifo_len f)" "unat n \<le> length to"
  shows "kfifo_out_data_uu f to n off = Some (take (unat n) (drop (unat off) (contents f)) @ drop (unat n) to)"
proof -
  obtain b k where r: "ring f b k" "length b = unat (ksize f)" "seen f = rotate (unat (kout f) mod length b) b" "0 < length b"
    using ok_ring [OF ok] .
  have k: "k < 32" "length b = 2 ^ k" using r(1) by (auto simp: ring_def)
  have l: "unat n \<le> length b" "unat off \<le> length (seen f)" "unat off + unat n \<le> length (seen f)"
    using n len_le_size [OF ok] length_seen [OF ok] r(2) by auto
  have "unat (kout f + off) mod length b = (unat (kout f) mod length b + unat off) mod length b"
    unfolding k(2) by (simp add: unat_add_mod [OF k(1)] mod_simps)
  then have "rotate (unat (kout f + off) mod length b) b = rotate (unat off) (seen f)"
    using rotate_conv_mod [of "unat (kout f) mod length b + unat off" b] r(3) by (simp add: rotate_rotate add.commute)
  then have "take (unat n) (rotate (unat (kout f + off) mod length b) b) = take (unat n) (drop (unat off) (contents f))"
    using l n(1) by (simp add: rotate_split contents_def drop_take min_def)
  then show ?thesis using out_data_ring [OF r(1) l(1) n(2), of off] by simp
qed

lemma kfifo_out_spec:
  assumes ok: "kfifo_ok f" and len: "unat len \<le> length to"
  defines "n \<equiv> min (length (contents f)) (unat len)"
  shows "\<exists>f'. kfifo_out f to len = Some (of_nat n, take n (contents f) @ drop n to, f') \<and> kfifo_ok f' \<and>
    ksize f' = ksize f \<and> contents f' = drop n (contents f)"
proof -
  have n: "unat (min (kfifo_len f) len) = n" by (simp add: unat_min length_contents [OF ok] n_def)
  then have on: "min (kfifo_len f) len = of_nat n" by (metis of_nat_unat_u32)
  have b: "n \<le> unat (kfifo_len f)" "n \<le> length to" "unat (of_nat n :: u32) = n"
    using length_contents [OF ok] len n on by (auto simp: n_def)
  have "kfifo_out_data_uu f to (of_nat n) 0 = Some (take n (contents f) @ drop n to)"
    using out_data_contents [OF ok, of 0 "of_nat n" to] b by simp
  then have "kfifo_out f to len = Some (of_nat n, take n (contents f) @ drop n to, kfifo_add_out_uu f (of_nat n))"
    by (simp add: kfifo_out_def Let_def on)
  then show ?thesis using add_out_contents [OF ok, of "of_nat n"] b by auto
qed

lemma kfifo_reset_out_spec:
  assumes "kfifo_ok f"
  shows "kfifo_ok (kfifo_reset_out f)" "contents (kfifo_reset_out f) = []" "ksize (kfifo_reset_out f) = ksize f"
  using assms by (auto simp: kfifo_ok_def ring_def kfifo_len_def kfifo_reset_out_def contents_def)

lemma kfifo_skip_spec:
  assumes "kfifo_ok f"
  shows "kfifo_ok (kfifo_skip f len)" "contents (kfifo_skip f len) = drop (unat len) (contents f)"
    "ksize (kfifo_skip f len) = ksize f"
proof -
  consider "len < kfifo_len f" | "\<not> len < kfifo_len f" by blast
  then show "kfifo_ok (kfifo_skip f len)" "contents (kfifo_skip f len) = drop (unat len) (contents f)"
    "ksize (kfifo_skip f len) = ksize f"
    using add_out_contents [OF assms, of len] kfifo_reset_out_spec [OF assms] length_contents [OF assms]
    by (cases; simp add: kfifo_skip_def word_less_nat_alt)+
qed

section \<open>Creation\<close>

lemma bit_top: "2 ^ k \<le> m \<Longrightarrow> m < 2 ^ Suc k \<Longrightarrow> bit (m :: nat) k"
proof -
  assume "2 ^ k \<le> m" "m < 2 ^ Suc k"
  then have "m div 2 ^ k = 1" by (intro div_nat_eqI) auto
  then show ?thesis by (simp add: bit_iff_odd)
qed

lemma power_of_2_exp:
  assumes "is_power_of_2 n"
  shows "\<exists>k < 32. n = 2 ^ k"
proof -
  let ?m = "unat n"
  have z: "n \<noteq> 0" "n AND (n - 1) = 0" using assms by (auto simp: is_power_of_2_def)
  then have "0 < ?m" by (simp add: unat_gt_0)
  then obtain k where k: "2 ^ k \<le> ?m" "?m < 2 ^ (k + 1)" using ex_power_ivl1 [of 2 ?m] by auto
  have k32: "k < 32"
  proof (rule ccontr)
    assume "\<not> k < 32"
    then have "(2 :: nat) ^ 32 \<le> 2 ^ k" by (intro power_increasing) auto
    then show False using k(1) unat_u32_less [of n] by simp
  qed
  have "?m = 2 ^ k"
  proof (rule ccontr)
    assume "?m \<noteq> 2 ^ k"
    then have "2 ^ k \<le> ?m - 1" "?m - 1 < 2 ^ Suc k" using k by auto
    then have "bit (unat (n - 1)) k" using bit_top unat_minus_one [OF z(1)] by metis
    moreover have "bit ?m k" using bit_top k by simp
    ultimately have "bit (n AND (n - 1)) k" by (simp add: bit_simps)
    then show False using z(2) by simp
  qed
  then have "n = of_nat (2 ^ k)" by (metis of_nat_unat_u32)
  then show ?thesis using k32 by auto
qed

text \<open>A step of the search keeps \<open>x = x0 * 2 ^ (32 - r)\<close>, and the top bit is among the first \<open>n\<close>.\<close>

definition fls_inv :: "u32 \<Rightarrow> nat \<Rightarrow> u32 \<times> nat \<Rightarrow> bool" where
  "fls_inv x0 n s \<longleftrightarrow>
     (case s of (x, r) \<Rightarrow> n \<le> r \<and> r \<le> 32 \<and> unat x = unat x0 * 2 ^ (32 - r) \<and> 2 ^ (32 - n) \<le> unat x)"

lemma top_bits_clear:
  fixes x :: u32
  assumes "hi = NOT (mask m)"
  shows "x AND hi = 0 \<longleftrightarrow> unat x < 2 ^ m"
proof -
  have "x AND hi = 0 \<longleftrightarrow> take_bit m x = x"
    unfolding assms by (auto simp: bit_eq_iff bit_simps)
  also have "\<dots> \<longleftrightarrow> take_bit m (unat x) = unat x"
    by (simp add: word_unat_eq_iff unsigned_take_bit_eq)
  finally show ?thesis by (simp add: take_bit_nat_eq_self_iff)
qed

lemma fls_step_inv:
  assumes s: "fls_inv x0 (2 * k) s" and k: "k \<le> 16" "hi = NOT (mask (32 - k))"
  shows "fls_inv x0 k (fls_step k hi s)"
proof -
  obtain x r where xr: "s = (x, r)" by (cases s)
  have i: "2 * k \<le> r" "r \<le> 32" "unat x = unat x0 * 2 ^ (32 - r)" "2 ^ (32 - 2 * k) \<le> unat x"
    using s by (auto simp: fls_inv_def xr)
  have p: "(2 :: nat) ^ (32 - k) * 2 ^ k = 2 ^ 32" "(2 :: nat) ^ (32 - 2 * k) * 2 ^ k = 2 ^ (32 - k)"
    "(2 :: nat) ^ (32 - r) * 2 ^ k = 2 ^ (32 - (r - k))"
    using k(1) i by (simp_all flip: power_add)
  show ?thesis
  proof (cases "x AND hi = 0")
    case True
    then have "unat x * 2 ^ k < 2 ^ (32 - k) * 2 ^ k" using top_bits_clear [OF k(2)] by simp
    then have u: "unat (push_bit k x) = unat x * 2 ^ k"
      unfolding p(1) unsigned_push_bit_eq by (simp add: push_bit_eq_mult take_bit_nat_eq_self_iff)
    have "2 ^ (32 - 2 * k) * 2 ^ k \<le> unat x * 2 ^ k" using i(4) by simp
    moreover have "k \<le> r - k" "r - k \<le> 32" using i(1,2) by linarith+
    ultimately show ?thesis using True i u p by (simp add: fls_inv_def fls_step_def xr mult.assoc)
  next
    case False
    then show ?thesis using i top_bits_clear [OF k(2)] by (simp add: fls_inv_def fls_step_def xr not_less)
  qed
qed

lemma fls_bounds:
  assumes "x \<noteq> 0"
  shows "0 < fls x" "2 ^ (fls x - 1) \<le> unat x" "unat x < 2 ^ fls x" "fls x \<le> 32"
proof -
  have "0 < unat x" using assms by (simp add: unat_gt_0)
  then have "fls_inv x (2 * 16) (x, 32)" by (simp add: fls_inv_def)
  then have "fls_inv x (2 * 8) (fls_step 16 0xFFFF0000 (x, 32))" by (auto intro: fls_step_inv simp: mask_eq_exp_minus_1)
  then have "fls_inv x (2 * 4) (fls_step 8 0xFF000000 (fls_step 16 0xFFFF0000 (x, 32)))"
    by (auto intro: fls_step_inv simp: mask_eq_exp_minus_1)
  then have "fls_inv x (2 * 2) (fls_step 4 0xF0000000 (fls_step 8 0xFF000000 (fls_step 16 0xFFFF0000 (x, 32))))"
    by (auto intro: fls_step_inv simp: mask_eq_exp_minus_1)
  then have "fls_inv x (2 * 1) (fls_step 2 0xC0000000 (fls_step 4 0xF0000000 (fls_step 8 0xFF000000
      (fls_step 16 0xFFFF0000 (x, 32)))))"
    by (auto intro: fls_step_inv simp: mask_eq_exp_minus_1)
  then have "fls_inv x 1 (fls_step 1 0x80000000 (fls_step 2 0xC0000000 (fls_step 4 0xF0000000 (fls_step 8 0xFF000000
      (fls_step 16 0xFFFF0000 (x, 32))))))"
    by (rule fls_step_inv) (simp_all add: mask_eq_exp_minus_1)
  then obtain y :: u32 where y: "1 \<le> fls x" "fls x \<le> 32" "unat y = unat x * 2 ^ (32 - fls x)" "2 ^ 31 \<le> unat y"
    using assms by (auto simp: fls_def fls_inv_def split: prod.splits)
  then show "0 < fls x" "fls x \<le> 32" by simp_all
  have "unat x * 2 ^ (32 - fls x) < 2 ^ fls x * 2 ^ (32 - fls x)"
    using y(2,3) unat_u32_less [of y] by (simp flip: power_add)
  then show "unat x < 2 ^ fls x" by simp
  have "2 ^ (fls x - 1) * 2 ^ (32 - fls x) \<le> unat x * 2 ^ (32 - fls x)"
    using y by (simp flip: power_add)
  then show "2 ^ (fls x - 1) \<le> unat x" by simp
qed

lemma roundup_exp:
  assumes "0 < n" "n \<le> 0x80000000"
  shows "\<exists>k < 32. roundup_pow_of_two n = 2 ^ k \<and> unat n \<le> 2 ^ k"
proof -
  let ?k = "fls (n - 1)"
  have n1: "unat n = Suc (unat (n - 1))" using assms(1) unat_minus_one [of n] by (auto simp: word_gt_0 unat_gt_0)
  moreover have "unat n \<le> 2 ^ 31" using assms(2) by (simp add: word_le_nat_alt)
  ultimately have "unat (n - 1) < 2 ^ 31" by simp
  have "?k - 1 < 31" if "n - 1 \<noteq> 0"
  proof (rule power_less_imp_less_exp [of "2 :: nat"])
    show "(2 :: nat) ^ (?k - 1) < 2 ^ 31"
      using fls_bounds(2) [OF that] \<open>unat (n - 1) < 2 ^ 31\<close> by (rule le_less_trans)
  qed simp
  moreover have "fls 0 = 0" by (simp add: fls_def)
  ultimately have "?k < 32" by (cases "n - 1 = 0") auto
  moreover have "unat n \<le> 2 ^ ?k" using n1 fls_bounds(3) [of "n - 1"] by (cases "n - 1 = 0") (auto simp: fls_def)
  ultimately show ?thesis by (intro exI [of _ ?k]) (simp add: roundup_pow_of_two_def push_bit_eq_mult)
qed

lemma kfifo_alloc_ok:
  assumes "kfifo_alloc mem sz = Some (None, f)"
  shows "kfifo_ok f" "contents f = []"
proof -
  define s where "s = (if is_power_of_2 sz then sz else roundup_pow_of_two sz)"
  obtain fill where f: "f = kfifo_init_u (Some (map fill [0..<unat s])) s"
    and sz: "is_power_of_2 sz \<or> (sz \<le> 0x80000000 \<and> sz \<noteq> 0)"
    using assms by (auto simp: kfifo_alloc_def Let_def s_def split: if_splits option.splits)
  obtain k where k: "k < 32" "s = 2 ^ k"
    using sz power_of_2_exp [of sz] roundup_exp [of sz]
    by (cases "is_power_of_2 sz") (auto simp: s_def word_gt_0)
  have "unat s = 2 ^ k" using k unat_exp by simp
  then have "ring f (map fill [0..<unat s]) k" using k by (simp add: f ring_def kfifo_init_u_def kfifo_reset_def)
  then show "kfifo_ok f" "contents f = []"
    by (auto simp: kfifo_ok_def contents_def kfifo_len_def f kfifo_init_u_def kfifo_reset_def)
qed


section \<open>Transfers from and to user space\<close>

lemma copy_to_user_start:
  "copy_to_user to 0 src = (take (length to) src @ drop (length src) to, length src - length to)"
  by (auto simp: copy_to_user_def Let_def min_def)

lemma to_user_chunks:
  assumes ok: "kfifo_ok f" and n: "unat n \<le> unat (kfifo_len f)"
  obtains l s1 s2 where "l \<le> n" "length s1 = unat l" "length s2 = unat n - unat l"
    "take (unat n) (contents f) = s1 @ s2"
    "\<And>to. kfifo_to_user_data_uu f to n 0 =
     (case copy_to_user to 0 s1 of (to1, ret) \<Rightarrow>
        if ret \<noteq> 0 then Some (Some EFAULT, l - of_nat ret, to1)
        else case copy_to_user to1 (unat l) s2 of (to2, ret2) \<Rightarrow>
          if ret2 \<noteq> 0 then Some (Some EFAULT, l + (n - l - of_nat ret2), to2) else Some (None, l + (n - l), to2))"
proof -
  obtain b k where r: "ring f b k" "length b = unat (ksize f)" "seen f = rotate (unat (kout f) mod length b) b" "0 < length b"
    using ok_ring [OF ok] .
  let ?off = "kfifo_off_uu f (kout f + 0)"
  define pos where "pos = unat (kout f) mod length b"
  define l where "l = min n (ksize f - ?off)"
  have b: "kbuffer f = Some b" "length b = 2 ^ k" using r by (auto simp: ring_def)
  have pos: "unat ?off = pos" "pos < length b" using unat_off [OF r(1)] room [OF r(1)] b(2) by (auto simp: pos_def)
  have l: "unat l = min (unat n) (length b - pos)" "l \<le> n"
    using room(1) [OF r(1), of "kout f + 0"] pos(1) by (auto simp: l_def unat_min)
  have nb: "unat n \<le> length b" using n len_le_size [OF ok] r(2) by simp
  define s1 s2 where s: "s1 = take (unat l) (drop pos b)" "s2 = take (unat (n - l)) b"
  have m: "memcpy_out (kbuffer f) pos (unat l) = Some s1" "memcpy_out (kbuffer f) 0 (unat (n - l)) = Some s2"
    using pos(2) b(1) l nb by (auto simp: memcpy_out_rd rd_def unat_sub s)
  have len: "length s1 = unat l" "length s2 = unat n - unat l" "unat (n - l) = unat n - unat l"
    using pos(2) l nb by (auto simp: s unat_sub)
  have "take (unat n) (contents f) = s1 @ s2"
    using n pos(2) l(1) nb len(3) r(3) by (auto simp: contents_def rotate_split min_def s pos_def [symmetric])
  moreover have "kfifo_to_user_data_uu f to n 0 =
     (case copy_to_user to 0 s1 of (to1, ret) \<Rightarrow>
        if ret \<noteq> 0 then Some (Some EFAULT, l - of_nat ret, to1)
        else case copy_to_user to1 (unat l) s2 of (to2, ret2) \<Rightarrow>
          if ret2 \<noteq> 0 then Some (Some EFAULT, l + (n - l - of_nat ret2), to2) else Some (None, l + (n - l), to2))" for to
    unfolding kfifo_to_user_data_uu_def Let_def l_def [symmetric] pos(1) m
    by (cases "copy_to_user to 0 s1") simp
  ultimately show thesis using that l(2) len by blast
qed

lemma of_nat_rest: "a \<le> unat (x :: u32) \<Longrightarrow> x - of_nat (unat x - a) = of_nat a"
  by (simp add: of_nat_diff)

lemma to_user_data_contents:
  fixes to :: bytes
  assumes ok: "kfifo_ok f" and n: "unat n \<le> unat (kfifo_len f)"
  defines "c \<equiv> min (unat n) (length to)"
  shows "kfifo_to_user_data_uu f to n 0 =
    Some (if c < unat n then Some EFAULT else None, of_nat c, take c (contents f) @ drop c to)"
proof -
  obtain l s1 s2 where l: "l \<le> n" and len: "length s1 = unat l" "length s2 = unat n - unat l"
    and C: "take (unat n) (contents f) = s1 @ s2"
    and step: "\<And>to. kfifo_to_user_data_uu f to n 0 =
     (case copy_to_user to 0 s1 of (to1, ret) \<Rightarrow>
        if ret \<noteq> 0 then Some (Some EFAULT, l - of_nat ret, to1)
        else case copy_to_user to1 (unat l) s2 of (to2, ret2) \<Rightarrow>
          if ret2 \<noteq> 0 then Some (Some EFAULT, l + (n - l - of_nat ret2), to2) else Some (None, l + (n - l), to2))"
    by (rule to_user_chunks [OF ok n]) blast
  have ln: "unat l \<le> unat n" "unat (n - l) = unat n - unat l" using l by (simp_all add: word_le_nat_alt unat_sub)
  have t: "take c (contents f) = take c (s1 @ s2)" using arg_cong [OF C, of "take c"] by (simp add: c_def)
  show ?thesis
  proof (cases "length to < unat l")
    case True
    then have c: "c = length to" "c < unat n" using ln by (auto simp: c_def)
    then show ?thesis using True len(1) t of_nat_rest [of "length to" l] by (simp add: step copy_to_user_start)
  next
    case False
    let ?c2 = "min (unat n - unat l) (length to - unat l)"
    have s: "copy_to_user to 0 s1 = (s1 @ drop (unat l) to, 0)" using False len(1) by (simp add: copy_to_user_start)
    have cu: "copy_to_user (s1 @ drop (unat l) to) (unat l) s2 =
        (s1 @ take ?c2 s2 @ drop (unat l + ?c2) to, unat n - unat l - ?c2)"
      using False len by (simp add: copy_to_user_def Let_def add.commute)
    have c: "c = unat l + ?c2" using False ln(1) by (auto simp: c_def min_def)
    have "l + (n - l - of_nat (unat n - unat l - ?c2)) = of_nat c"
      using of_nat_rest [of ?c2 "n - l"] ln(2) c by simp
    then show ?thesis using c t len ln(1)
      by (cases "?c2 < unat n - unat l") (auto simp: step s cu)
  qed
qed


text \<open>A user buffer that ends early reads as one followed by zeros.\<close>

lemma copy_from_user_pad:
  assumes "o' \<le> length src" "o' + n \<le> length src + z"
  shows "copy_from_user buf off src o' n = do {
    xs \<leftarrow> rd (src @ replicate z 0) o' n;
    map_option (\<lambda>b. (b, n - (length src - o'))) (memcpy_in buf off xs)
  }"
  using assms by (auto simp: copy_from_user_def rd_def Let_def min_def take_replicate)

lemma from_user_data_in:
  defines "z \<equiv> \<lambda>src n. src @ replicate (unat (n :: u32)) 0"
  shows "kfifo_from_user_data_uu f src len off =
   (let l = min len (ksize f - kfifo_off_uu f (kin f + off)) in
    if length src < unat l
    then map_option (\<lambda>f'. (Some EFAULT, of_nat (unat l - length src), f')) (kfifo_in_data_uu f (z src len) l off)
    else map_option (\<lambda>f'. (if length src < unat len then Some EFAULT else None,
        l + (if length src < unat len then of_nat (unat len - length src) else len - l), f'))
      (kfifo_in_data_uu f (z src len) len off))"
proof -
  define o1 where "o1 = kfifo_off_uu f (kin f + off)"
  define l where "l = min len (ksize f - o1)"
  have l: "unat l \<le> unat len" "unat (len - l) = unat len - unat l" "min l (ksize f - o1) = l"
    by (auto simp: l_def unat_min unat_sub word_le_nat_alt min_def)
  let ?p = "z src len"
  have c1: "copy_from_user (kbuffer f) (unat o1) src 0 (unat l) = do {
      xs \<leftarrow> rd ?p 0 (unat l); map_option (\<lambda>b. (b, unat l - length src)) (memcpy_in (kbuffer f) (unat o1) xs) }"
    using copy_from_user_pad [of 0 src "unat l" "unat len" "kbuffer f" "unat o1"] l(1) by (simp add: z_def)
  show ?thesis
  proof (cases "length src < unat l")
    case True
    have "rd ?p (unat l) 0 = Some []" using l(1) by (simp add: rd_def z_def)
    then have i: "kfifo_in_data_uu f ?p l off = do {
        xs \<leftarrow> rd ?p 0 (unat l); b \<leftarrow> memcpy_in (kbuffer f) (unat o1) xs; Some (f\<lparr>kbuffer := b\<rparr>) }"
      by (simp add: kfifo_in_data_uu_def Let_def o1_def [symmetric] l(3)) (simp add: memcpy_in_def)
    show ?thesis using True
      unfolding kfifo_from_user_data_uu_def Let_def o1_def [symmetric] l_def [symmetric] c1 i
      by (auto split: Option.bind_splits)
  next
    case False
    have "copy_from_user b 0 src (unat l) (unat (len - l)) = do {
        xs \<leftarrow> rd ?p (unat l) (unat (len - l));
        map_option (\<lambda>b. (b, unat len - length src)) (memcpy_in b 0 xs) }" for b
      using copy_from_user_pad [of "unat l" src "unat (len - l)" "unat len" b 0] l False by (simp add: z_def)
    note c2 = this
    show ?thesis using False
      unfolding kfifo_from_user_data_uu_def kfifo_in_data_uu_def Let_def o1_def [symmetric] l_def [symmetric] c1
      by (cases "rd ?p 0 (unat l)"; simp; cases "memcpy_in (kbuffer f) (unat o1) (the (rd ?p 0 (unat l)))"; simp add: c2)
         (auto split: Option.bind_splits)
  qed
qed

text \<open>Data written behind the contents is not part of them until the input index moves.\<close>

lemma in_data_unseen:
  assumes "kfifo_ok f" "unat len \<le> length src" "unat (kfifo_len f) + unat off + unat len \<le> unat (ksize f)"
    "kfifo_in_data_uu f src len off = Some f'"
  shows "same_indices f f'" "contents f' = contents f"
proof -
  have s: "same_indices f f'" "seen f' = take (unat (kfifo_len f) + unat off) (seen f) @ take (unat len) src @
      drop (unat (kfifo_len f) + unat off + unat len) (seen f)"
    using in_data_seen [OF assms(1-3)] assms(4) by auto
  then show "same_indices f f'" by blast
  show "contents f' = contents f"
    using s same_len [OF s(1)] assms(3) length_seen [OF assms(1)] by (simp add: contents_def)
qed

lemma kfifo_from_user_spec:
  fixes len :: u32
  assumes ok: "kfifo_ok f"
  defines "n \<equiv> min (unat (ksize f) - length (contents f)) (unat len)"
  shows "\<exists>e t f'. kfifo_from_user f src len = Some (e, t, f') \<and> kfifo_ok f' \<and> ksize f' = ksize f \<and>
    (if n \<le> length src then e = None \<and> t = of_nat n \<and> contents f' = contents f @ take n src
     else e = Some EFAULT \<and> contents f' = contents f)"
proof -
  define m where "m = min (kfifo_avail f) len"
  have n: "unat m = n" by (simp add: m_def unat_min unat_avail [OF ok] n_def)
  have b: "unat (kfifo_len f) + unat (0 :: u32) + unat m \<le> unat (ksize f)"
    using len_le_size [OF ok] length_contents [OF ok] n by (auto simp: n_def)
  define l where "l = min m (ksize f - kfifo_off_uu f (kin f + 0))"
  have l: "unat l \<le> unat m" "l + (m - l) = m" by (auto simp: l_def unat_min)
  let ?p = "src @ replicate (unat m) 0"
  note step = from_user_data_in [of f src m 0, unfolded Let_def, folded l_def]
  have un: "kfifo_from_user f src len = do { (ret, total, f) \<leftarrow> kfifo_from_user_data_uu f src m 0;
     if ret \<noteq> None then Some (ret, total, f) else Some (None, total, kfifo_add_in_uu f m) }"
    unfolding kfifo_from_user_def Let_def m_def ..
  show ?thesis
  proof (cases "n \<le> length src")
    case True
    have "unat m \<le> length ?p" by simp
    from in_data_seen [OF ok this b] obtain f1 where f1: "kfifo_in_data_uu f ?p m 0 = Some f1" "same_indices f f1"
      "seen f1 = take (unat (kfifo_len f)) (seen f) @ take n src @ drop (unat (kfifo_len f) + n) (seen f)"
      using True n by auto
    have "kfifo_ok f1" "unat (kfifo_len f1) + unat m \<le> unat (ksize f1)"
      using f1(2) b same_len [OF f1(2)] by (auto simp: same_indices_def)
    note a = add_in_contents [OF this]
    have "contents (kfifo_add_in_uu f1 m) = contents f @ take n src"
      using a(2) f1(3) b n True same_len [OF f1(2)] len_le_size [OF ok] length_seen [OF ok]
      by (simp add: contents_def min_absorb2)
    moreover have "kfifo_from_user f src len = Some (None, of_nat n, kfifo_add_in_uu f1 m)"
      using True n l f1(1) by (auto simp: un step)
    ultimately show ?thesis using a f1(2) True by (auto simp: same_indices_def)
  next
    case False
    define w where "w = (if length src < unat l then l else m)"
    have w: "unat w \<le> length ?p" "unat (kfifo_len f) + unat (0 :: u32) + unat w \<le> unat (ksize f)"
      using l(1) b by (auto simp: w_def)
    obtain f1 where f1: "kfifo_in_data_uu f ?p w 0 = Some f1" using in_data_seen [OF ok w] by blast
    have "\<exists>t. kfifo_from_user f src len = Some (Some EFAULT, t, f1)"
      using False n f1 unfolding un step w_def by auto
    then show ?thesis using in_data_unseen [OF ok w f1] False by (auto simp: same_indices_def)
  qed
qed

lemma kfifo_to_user_spec:
  fixes len :: u32 and to :: bytes
  assumes ok: "kfifo_ok f"
  defines "n \<equiv> min (length (contents f)) (unat len)"
  defines "c \<equiv> min n (length to)"
  shows "\<exists>f'. kfifo_to_user f to len =
      Some (if c < n then Some EFAULT else None, of_nat c, take c (contents f) @ drop c to, f') \<and>
    kfifo_ok f' \<and> ksize f' = ksize f \<and> contents f' = drop c (contents f)"
proof -
  have n: "unat (min (kfifo_len f) len) = n" by (simp add: unat_min length_contents [OF ok] n_def)
  then have le: "unat (min (kfifo_len f) len) \<le> unat (kfifo_len f)" by (simp add: n_def length_contents [OF ok])
  have c: "unat (of_nat c :: u32) = c" "c \<le> unat (kfifo_len f)"
    using n le unat_u32_less [of "kfifo_len f"] by (auto simp: c_def intro!: unat_of_nat_u32)
  show ?thesis
    using to_user_data_contents [OF ok le, of to] add_out_contents [OF ok, of "of_nat c"] c
    by (simp add: kfifo_to_user_def Let_def n c_def [symmetric])
qed


end
