(* ===== verification/Kfifo_Records.thy ===== *)
theory Kfifo_Records
  imports Kfifo_Queue
begin

text \<open>
  Record mode of the byte queue: a record is its length in one or two bytes followed by its data.
  The lemmas say what record input, output and skipping do to the contents, whichever of the three
  writes a record consists of crosses the end of the ring.
\<close>

section \<open>Records\<close>

text \<open>The header of a record is its length in one or two bytes, the low byte first.\<close>

definition rec_header :: "u32 \<Rightarrow> u32 \<Rightarrow> bytes" where
  "rec_header n recsize = (if recsize = 0 then [] else if recsize = 1 then [ucast n] else [ucast n, ucast (drop_bit 8 n)])"

definition rec_length :: "bytes \<Rightarrow> u32 \<Rightarrow> u32" where
  "rec_length q recsize = (if recsize = 1 then ucast (q ! 0) else ucast (q ! 0) OR push_bit 8 (ucast (q ! 1)))"

lemma unat_take_bit_less: "unat (take_bit k (x :: u32)) < 2 ^ k"
  unfolding unsigned_take_bit_eq by (rule take_bit_nat_less_exp)

lemma rec_length_bound: "unat (rec_length q recsize) < 65536"
proof -
  have "rec_length q recsize = take_bit 16 (rec_length q recsize)"
    by (rule bit_word_eqI) (auto simp: rec_length_def bit_simps dest: bit_imp_le_length)
  then show ?thesis using unat_take_bit_less [of 16 "rec_length q recsize"] by simp
qed

lemma rec_length_header:
  assumes "recsize = 1 \<and> unat n < 256 \<or> recsize = 2 \<and> unat n < 65536"
  shows "rec_length (rec_header n recsize @ xs) recsize = n"
proof -
  have t: "take_bit 8 n = n" if "unat n < 256"
    using that by (simp add: take_bit_eq_mod word_unat_eq_iff unat_mod)
  have u: "take_bit 16 n = n" if "unat n < 65536"
    using that by (simp add: take_bit_eq_mod word_unat_eq_iff unat_mod)
  show ?thesis
  proof (cases "recsize = 1")
    case True
    then have "n = take_bit 8 n" using t assms by simp
    moreover have "ucast (ucast n :: u8) = take_bit 8 n" by (rule bit_word_eqI) (auto simp: bit_simps)
    ultimately show ?thesis using True by (simp add: rec_length_def rec_header_def)
  next
    case False
    then have "n = take_bit 16 n" "recsize = 2" using u assms by auto
    moreover have "ucast (ucast n :: u8) OR push_bit 8 (ucast (ucast (drop_bit 8 n) :: u8)) = take_bit 16 n"
      by (rule bit_word_eqI) (auto simp: bit_simps)
    ultimately show ?thesis by (simp add: rec_length_def rec_header_def)
  qed
qed

lemma get_out_data:
  assumes "kfifo_ok f"
  shows "kfifo_out_data_uu f [y] 1 off = map_option (\<lambda>x. [x]) (kfifo_get f off)" "kfifo_get f off \<noteq> None"
proof -
  obtain b k where r: "ring f b k" using assms by (auto simp: kfifo_ok_def)
  let ?off = "kfifo_off_uu f (kout f + off)"
  have b: "kbuffer f = Some b" using r by (simp add: ring_def)
  have o: "unat (ksize f - ?off) = length b - unat ?off" "unat ?off < length b" by (rule room [OF r])+
  then have "unat (min 1 (ksize f - ?off)) = 1" by (auto simp: unat_min)
  then have l: "min 1 (ksize f - ?off) = 1" by (simp add: word_unat_eq_iff)
  have m: "memcpy_out (kbuffer f) (unat ?off) 1 = Some [b ! unat ?off]"
    using o(2) b by (simp add: memcpy_out_def rd_def take_Suc_conv_app_nth hd_drop_conv_nth take_Suc)
  have g: "kfifo_get f off = Some (b ! unat ?off)" using m by (simp add: kfifo_get_def)
  then show "kfifo_get f off \<noteq> None" by simp
  have "memcpy_out (kbuffer f) 0 0 = Some []" by (simp add: memcpy_out_def)
  then show "kfifo_out_data_uu f [y] 1 off = map_option (\<lambda>x. [x]) (kfifo_get f off)"
    unfolding kfifo_out_data_uu_def Let_def l unsigned_1 m g by (simp add: wr_def)
qed

lemma kfifo_get_contents:
  assumes ok: "kfifo_ok f" and off: "unat off < length (contents f)"
  shows "kfifo_get f off = Some (contents f ! unat off)"
proof -
  have "kfifo_out_data_uu f [0] 1 off = Some [contents f ! unat off]"
    using out_data_contents [OF ok, of off 1 "[0]"] off length_contents [OF ok]
    by (simp add: take_Suc hd_drop_conv_nth)
  then show ?thesis using get_out_data(1) [OF ok, of 0 off] by auto
qed

lemma kfifo_peek_n_spec:
  assumes "kfifo_ok f" "recsize = 1 \<or> recsize = 2"
  shows "\<exists>l. kfifo_peek_n_uu f recsize = Some l \<and> unat l < 65536 \<and>
    (unat recsize \<le> length (contents f) \<longrightarrow> l = rec_length (contents f) recsize)"
proof -
  obtain a b where ab: "kfifo_get f 0 = Some a" "kfifo_get f 1 = Some b" using get_out_data(2) [OF assms(1)] by fastforce
  have "kfifo_peek_n_uu f recsize = Some (rec_length [a, b] recsize)"
    using ab assms(2) by (auto simp: kfifo_peek_n_uu_def rec_length_def)
  moreover have "rec_length [a, b] recsize = rec_length (contents f) recsize" if "unat recsize \<le> length (contents f)"
  proof -
    have "0 < length (contents f)" using that assms(2) by auto
    then have "a = contents f ! 0" using ab(1) kfifo_get_contents [OF assms(1), of 0] by simp
    moreover have "b = contents f ! 1" if "recsize = 2"
      using \<open>unat recsize \<le> _\<close> that ab(2) kfifo_get_contents [OF assms(1), of 1] by simp
    ultimately show ?thesis using assms(2) by (auto simp: rec_length_def)
  qed
  ultimately show ?thesis using rec_length_bound by blast
qed

lemma kfifo_put_in_data:
  assumes "kfifo_ok f"
  shows "kfifo_put f off x = kfifo_in_data_uu f [x] 1 off"
proof -
  obtain b k where r: "ring f b k" using assms by (auto simp: kfifo_ok_def)
  let ?off = "kfifo_off_uu f (kin f + off)"
  have "unat (min 1 (ksize f - ?off)) = 1" using room [OF r, of "kin f + off"] by (auto simp: unat_min)
  then have l: "min 1 (ksize f - ?off) = 1" by (simp add: word_unat_eq_iff)
  have "memcpy_in buf 0 [] = Some buf" for buf by (simp add: memcpy_in_def)
  then show ?thesis unfolding kfifo_in_data_uu_def kfifo_put_def Let_def l unsigned_1 by (simp add: rd_def)
qed

lemma kfifo_put_seen:
  assumes "kfifo_ok f" "unat (kfifo_len f) + unat off < unat (ksize f)"
  shows "\<exists>f'. kfifo_put f off x = Some f' \<and> same_indices f f' \<and>
    seen f' = (seen f)[unat (kfifo_len f) + unat off := x]"
  using in_data_seen [OF assms(1), of 1 "[x]" off] assms length_seen [OF assms(1)]
  by (simp add: kfifo_put_in_data upd_conv_take_nth_drop)

lemma two_updates:
  assumes "Suc m < length xs"
  shows "xs[m := x, Suc m := y] = take m xs @ [x, y] @ drop (m + 2) xs"
proof -
  have "xs = take m xs @ xs ! m # xs ! Suc m # drop (m + 2) xs" using assms by (simp add: Cons_nth_drop_Suc)
  then obtain a b where "xs = take m xs @ a # b # drop (m + 2) xs" by blast
  then have "xs[m := x, Suc m := y] = (take m xs @ a # b # drop (m + 2) xs)[m := x, Suc m := y]" by simp
  then show ?thesis using assms by (simp add: list_update_append)
qed

lemma kfifo_poke_n_seen:
  assumes ok: "kfifo_ok f" and recsize: "recsize = 1 \<or> recsize = 2"
    and room: "unat (kfifo_len f) + unat recsize \<le> unat (ksize f)"
  defines "m \<equiv> unat (kfifo_len f)"
  shows "\<exists>f'. kfifo_poke_n_uu f recsize n = Some f' \<and> same_indices f f' \<and>
    seen f' = take m (seen f) @ rec_header n recsize @ drop (m + unat recsize) (seen f)"
proof -
  have u: "unat recsize = 1 \<or> unat recsize = 2" using recsize by auto
  then have "m + unat (0 :: u32) < unat (ksize f)" using room by (auto simp: m_def)
  from kfifo_put_seen [OF ok this [unfolded m_def], of "ucast n"]
  obtain f1 where f1: "kfifo_put f 0 (ucast n) = Some f1" "same_indices f f1" "seen f1 = (seen f)[m := ucast n]"
    by (auto simp: m_def)
  have lens: "length (seen f) = unat (ksize f)" by (rule length_seen [OF ok])
  show ?thesis
  proof (cases "recsize = 1")
    case True
    then show ?thesis using f1 room lens
      by (simp add: kfifo_poke_n_uu_def rec_header_def upd_conv_take_nth_drop m_def)
  next
    case False
    then have rs: "recsize = 2" using recsize by simp
    have o1: "kfifo_ok f1" "unat (kfifo_len f1) + unat (1 :: u32) < unat (ksize f1)"
      using f1(2) room rs same_len [OF f1(2)] by (auto simp: same_indices_def)
    from kfifo_put_seen [OF this, of "ucast (drop_bit 8 n)"]
    obtain f2 where f2: "kfifo_put f1 1 (ucast (drop_bit 8 n)) = Some f2" "same_indices f1 f2"
      "seen f2 = (seen f)[m := ucast n, Suc m := ucast (drop_bit 8 n)]"
      using f1(3) same_len [OF f1(2)] by (auto simp: m_def)
    have "seen f2 = take m (seen f) @ [ucast n, ucast (drop_bit 8 n)] @ drop (m + 2) (seen f)"
      unfolding f2(3) using room rs lens by (intro two_updates) (simp add: m_def)
    moreover have "same_indices f f2" using f1(2) f2(2) by (auto simp: same_indices_def)
    ultimately show ?thesis using f1(1) f2(1) rs by (simp add: kfifo_poke_n_uu_def rec_header_def)
  qed
qed

lemma rec_header_length: "recsize \<in> {0, 1, 2} \<Longrightarrow> length (rec_header n recsize) = unat recsize"
  by (auto simp: rec_header_def)

lemma unat_plus_u32: "unat a + unat b < 2 ^ 32 \<Longrightarrow> unat (a + b :: u32) = unat a + unat b"
  by (simp add: unat_word_ariths)

text \<open>Data behind the space of the header, then the header itself.\<close>

lemma rec_written:
  assumes ok: "kfifo_ok f" and recsize: "recsize \<in> {0, 1, 2}" and len: "unat n = length src"
    and room: "unat (kfifo_len f) + unat recsize + unat n \<le> unat (ksize f)"
  defines "m \<equiv> unat (kfifo_len f)"
  shows "\<exists>f1 f2. kfifo_in_data_uu f src n recsize = Some f1 \<and>
    (if recsize \<noteq> 0 then kfifo_poke_n_uu f1 recsize n else Some f1) = Some f2 \<and> same_indices f f2 \<and>
    seen f2 = take m (seen f) @ rec_header n recsize @ src @ drop (m + unat recsize + unat n) (seen f)"
proof -
  obtain f1 where f1: "kfifo_in_data_uu f src n recsize = Some f1" "same_indices f f1"
    "seen f1 = take (m + unat recsize) (seen f) @ src @ drop (m + unat recsize + unat n) (seen f)"
    using in_data_seen [OF ok _ room, of src] len by (auto simp: m_def)
  have o1: "kfifo_ok f1" "kfifo_len f1 = kfifo_len f" "ksize f1 = ksize f"
    using f1(2) same_len [OF f1(2)] by (auto simp: same_indices_def)
  show ?thesis
  proof (cases "recsize = 0")
    case True
    then show ?thesis using f1 by (auto simp: rec_header_def)
  next
    case False
    have b: "unat (kfifo_len f1) + unat recsize \<le> unat (ksize f1)" "recsize = 1 \<or> recsize = 2"
      using room o1 recsize False by auto
    obtain f2 where f2: "kfifo_poke_n_uu f1 recsize n = Some f2" "same_indices f1 f2"
      "seen f2 = take m (seen f1) @ rec_header n recsize @ drop (m + unat recsize) (seen f1)"
      using kfifo_poke_n_seen [OF o1(1) b(2,1), of n] o1(2) by (auto simp: m_def)
    have "same_indices f f2" using f1(2) f2(2) by (auto simp: same_indices_def)
    then show ?thesis using f1(1,3) f2(1,3) room False length_seen [OF ok] by (auto simp: m_def)
  qed
qed

lemma kfifo_in_rec_spec:
  assumes ok: "kfifo_ok f" and recsize: "recsize \<in> {0, 1, 2}" and len: "unat n = length src" "length src < 2 ^ 32 - 2"
  shows "if unat (ksize f) < length (contents f) + unat recsize + length src
    then kfifo_in_rec_uu f src n recsize = Some (n + 1, f)
    else \<exists>f'. kfifo_in_rec_uu f src n recsize = Some (0, f') \<and> kfifo_ok f' \<and> ksize f' = ksize f \<and>
      contents f' = contents f @ rec_header n recsize @ src"
proof -
  let ?m = "unat (kfifo_len f)"
  have "unat recsize \<le> 2" using recsize by auto
  then have nr: "unat (n + recsize) = length src + unat recsize" using len by (simp add: unat_plus_u32)
  have av: "kfifo_avail f < n + recsize \<longleftrightarrow> unat (ksize f) < ?m + unat recsize + length src"
    using nr len_le_size [OF ok] by (auto simp: word_less_nat_alt unat_avail [OF ok] length_contents [OF ok])
  have "unat (n + 1) = length src + 1" using len by (simp add: unat_plus_u32)
  then have n1: "n + 1 \<noteq> 0" by (metis add_eq_0_iff_both_eq_0 one_neq_zero unsigned_0)
  show ?thesis
  proof (cases "unat (ksize f) < ?m + unat recsize + length src")
    case True
    then show ?thesis using av n1 length_contents [OF ok] by (simp add: kfifo_in_rec_uu_def kfifo_in_n_uu_def)
  next
    case False
    then have b: "?m + unat recsize + unat n \<le> unat (ksize f)" using len by auto
    obtain f1 f2 where f2: "kfifo_in_data_uu f src n recsize = Some f1"
      "(if recsize \<noteq> 0 then kfifo_poke_n_uu f1 recsize n else Some f1) = Some f2" "same_indices f f2"
      "seen f2 = take ?m (seen f) @ rec_header n recsize @ src @ drop (?m + unat recsize + unat n) (seen f)"
      using rec_written [OF ok recsize len(1) b] by blast
    have o2: "kfifo_ok f2" "kfifo_len f2 = kfifo_len f" "ksize f2 = ksize f"
      using f2(3) same_len [OF f2(3)] by (auto simp: same_indices_def)
    have "unat (kfifo_len f2) + unat (n + recsize) \<le> unat (ksize f2)" using o2 b nr len by simp
    note a = add_in_contents [OF o2(1) this]
    have "contents (kfifo_add_in_uu f2 (n + recsize)) = contents f @ rec_header n recsize @ src"
      using a(2) f2(4) o2 nr len(1) b length_seen [OF ok] rec_header_length [OF recsize] by (simp add: contents_def)
    moreover have "kfifo_in_rec_uu f src n recsize = Some (0, kfifo_add_in_uu f2 (n + recsize))"
      using f2(1,2) av False by (simp add: kfifo_in_rec_uu_def kfifo_in_n_uu_def)
    ultimately show ?thesis using a o2 False length_contents [OF ok] by auto
  qed
qed

definition rec_at :: "bytes \<Rightarrow> u32 \<Rightarrow> u32 \<Rightarrow> u32" where
  "rec_at q n recsize = (if recsize = 0 then n else rec_length q recsize)"

lemma kfifo_out_n_spec:
  assumes ok: "kfifo_ok f" and len: "unat l \<le> length to" "unat l + unat recsize < 2 ^ 32"
  shows "if length (contents f) < unat l + unat recsize then kfifo_out_n_uu f to l recsize = Some (l, to, f)
    else \<exists>f'. kfifo_out_n_uu f to l recsize =
        Some (0, take (unat l) (drop (unat recsize) (contents f)) @ drop (unat l) to, f') \<and>
      kfifo_ok f' \<and> ksize f' = ksize f \<and> contents f' = drop (unat l + unat recsize) (contents f)"
proof -
  have u: "unat (l + recsize) = unat l + unat recsize" using len(2) by (rule unat_plus_u32)
  show ?thesis
    using out_data_contents [OF ok _ len(1), of recsize] add_out_contents [OF ok, of "l + recsize"] u
    by (simp add: kfifo_out_n_uu_def word_less_nat_alt length_contents [OF ok] not_less add.commute)
qed

lemma kfifo_out_rec_spec:
  assumes ok: "kfifo_ok f" and recsize: "recsize \<in> {0, 1, 2}" and to: "length to = unat n"
  shows "\<exists>r l to' f'. kfifo_out_rec_uu f to n recsize = Some (r, l, to', f') \<and> kfifo_ok f' \<and> ksize f' = ksize f \<and>
    (unat recsize \<le> length (contents f) \<longrightarrow> l = rec_at (contents f) n recsize) \<and>
    (if length (contents f) < unat recsize \<or> unat n < unat l \<or> length (contents f) < unat l + unat recsize
     then r = l \<and> to' = to \<and> contents f' = contents f
     else r = 0 \<and> to' = take (unat l) (drop (unat recsize) (contents f)) @ drop (unat l) to \<and>
       contents f' = drop (unat l + unat recsize) (contents f))"
proof (cases "recsize = 0")
  case True
  then show ?thesis using kfifo_out_n_spec [OF ok, of n to 0] to unat_u32_less [of n] ok
    by (auto simp: kfifo_out_rec_uu_def rec_at_def split: if_splits)
next
  case False
  then have rs: "recsize = 1 \<or> recsize = 2" "unat recsize \<le> 2" using recsize by auto
  obtain l where l: "kfifo_peek_n_uu f recsize = Some l" "unat l < 65536"
    "unat recsize \<le> length (contents f) \<Longrightarrow> l = rec_length (contents f) recsize"
    using kfifo_peek_n_spec [OF ok rs(1)] by blast
  show ?thesis
  proof (cases "n < l")
    case True
    then show ?thesis using l False ok by (auto simp: kfifo_out_rec_uu_def rec_at_def word_less_nat_alt)
  next
    case nl: False
    have "unat l \<le> length to" "unat l + unat recsize < 2 ^ 32"
      using nl to l(2) rs(2) by (auto simp: word_less_nat_alt)
    from kfifo_out_n_spec [OF ok this] show ?thesis using nl l False ok
      by (auto simp: kfifo_out_rec_uu_def rec_at_def word_less_nat_alt split: if_splits)
  qed
qed

lemma kfifo_skip_rec_spec:
  assumes ok: "kfifo_ok f" and recsize: "recsize \<in> {0, 1, 2}"
  shows "\<exists>f'. kfifo_skip_rec_uu f recsize = Some f' \<and> kfifo_ok f' \<and> ksize f' = ksize f \<and>
    contents f' = (if recsize = 0 \<or> length (contents f) < unat recsize then []
      else drop (unat (rec_length (contents f) recsize) + unat recsize) (contents f))"
proof (cases "recsize = 0")
  case True
  then show ?thesis using kfifo_reset_out_spec [OF ok] by (simp add: kfifo_skip_rec_uu_def)
next
  case False
  then have rs: "recsize = 1 \<or> recsize = 2" "unat recsize \<le> 2" using recsize by auto
  obtain l where l: "kfifo_peek_n_uu f recsize = Some l" "unat l < 65536"
    "unat recsize \<le> length (contents f) \<Longrightarrow> l = rec_length (contents f) recsize"
    using kfifo_peek_n_spec [OF ok rs(1)] by blast
  then have u: "unat (l + recsize) = unat l + unat recsize" using rs(2) by (simp add: unat_plus_u32)
  show ?thesis
    using kfifo_reset_out_spec [OF ok] add_out_contents [OF ok, of "l + recsize"] l u False length_contents [OF ok]
    by (auto simp: kfifo_skip_rec_uu_def word_le_nat_alt)
qed

end
