(* ===== verification/Kfifo_Refinement.thy ===== *)
theory Kfifo_Refinement
  imports Kfifo_Records
begin

text \<open>
  The byte queue against its specification: a locale for simulations of an operation-by-operation
  specification, its instance for the ring buffer of \<open>Kfifo\<close> and the list of bytes it stands for, and
  the operations whose behaviour differs from their documentation.
\<close>

section \<open>Runs of operations against a specification\<close>




section \<open>The queue operations\<close>











section \<open>The refinement\<close>



section \<open>Defects\<close>

text \<open>\<open>kfifo_out_peek\<close> adds the offset to the number of bytes it copies: with an offset it writes behind
  the caller's buffer.\<close>

lemma out_data_overrun:
  assumes n: "length to < unat n"
  shows "kfifo_out_data_uu f to n off = None"
proof -
  let ?off = "kfifo_off_uu f (kout f + off)"
  define l where "l = min n (ksize f - ?off)"
  have l: "unat l \<le> unat n" "unat (n - l) = unat n - unat l"
    by (auto simp: l_def unat_min unat_sub word_le_nat_alt min_def)
  have rdl: "length xs = m" if "memcpy_out (kbuffer f) p m = Some xs" for p m xs
    using that by (auto simp: memcpy_out_def rd_def split: if_splits option.splits)
  show ?thesis
    unfolding kfifo_out_data_uu_def Let_def l_def [symmetric]
    using l n by (auto simp: wr_def dest!: rdl split: Option.bind_splits if_splits)
qed

lemma out_peek_overrun:
  assumes len: "length to = unat len" "0 < unat offset"
    "unat len + unat offset \<le> unat (kfifo_len f)"
  shows "kfifo_out_peek f to len offset = None"
proof -
  have "unat (len + offset) = unat len + unat offset"
    using len(3) unat_u32_less [of "kfifo_len f"] by (intro unat_plus_u32) simp
  then have "unat (min (kfifo_len f) (len + offset)) = unat len + unat offset" using len(3) by (simp add: unat_min)
  then show ?thesis using out_data_overrun [of to "min (kfifo_len f) (len + offset)" f offset] len
    by (simp add: kfifo_out_peek_def Let_def)
qed

text \<open>\<open>__kfifo_from_user_n\<close> returns the number of bytes copied, and its caller takes anything but zero for
  a failure: a record from user space is copied into the ring and then never becomes part of it.\<close>

lemma from_user_rec_never_queues:
  assumes ok: "kfifo_ok f" and n: "0 < n" "unat n \<le> length src" "unat n + unat recsize \<le> unat (kfifo_avail f)"
  shows "\<exists>f'. kfifo_from_user_rec_uu f src n recsize = Some (n, f') \<and> contents f' = contents f"
proof -
  have u: "unat (n + recsize) = unat n + unat recsize"
    using n(3) unat_u32_less [of "kfifo_avail f"] by (intro unat_plus_u32) simp
  have b: "unat n \<le> length (src @ replicate (unat n) 0)" "unat (kfifo_len f) + unat recsize + unat n \<le> unat (ksize f)"
    using n len_le_size [OF ok] by (auto simp: unat_avail [OF ok] length_contents [OF ok])
  then obtain f' where f': "kfifo_in_data_uu f (src @ replicate (unat n) 0) n recsize = Some f'"
    using in_data_seen [OF ok] by blast
  have "kfifo_from_user_data_uu f src n recsize = Some (None, n, f')"
    using from_user_data_in [of f src n recsize] f' n(2) by (auto simp: Let_def unat_min)
  then have "kfifo_from_user_n_uu f src n recsize = Some (n, f')"
    using n(3) u by (simp add: kfifo_from_user_n_uu_def word_less_nat_alt)
  then show ?thesis using n(1) in_data_unseen [OF ok b f'] word_gt_0 [of n] by (simp add: kfifo_from_user_rec_uu_def)
qed

text \<open>\<open>__kfifo_to_user_n\<close> returns the number of bytes copied too: a successful transfer answers like one in
  which nothing could be copied.\<close>

lemma to_user_rec_success_value:
  assumes ok: "kfifo_ok f" and n: "unat n \<le> unat (kfifo_len f)" "length to = unat n"
  shows "\<exists>f'. kfifo_to_user_rec_uu f to n 0 = Some (n, n, take (unat n) (contents f), f') \<and>
    contents f' = drop (unat n) (contents f)"
  using to_user_data_contents [OF ok n(1), of to] n add_out_contents [OF ok n(1)]
  by (simp add: kfifo_to_user_rec_uu_def kfifo_to_user_n_uu_def word_less_nat_alt)

end
