(* ===== verification/Spec2Isabelle.thy ===== *)
theory Spec2Isabelle
  imports Cipher_Modes Socket_Buffers Netlink_Attributes Socket_Filter File_Locks Lock_Ranges Lock_Map Lock_Syscalls Leases
    Resource_Tree Resource_Alloc Resource_Regions Resource_Walks Group_Lists Group_Creds Group_Calls Posix_Acl Acl_Checks Kfifo_Refinement
begin

text \<open>
  A verification library for components of the Linux 2.6.35 kernel for i.MX in
  \<^verbatim>\<open>src/kernel_imx\<close>.  Each component is a group of executable definitions that follows the C
  functions one by one, with the lemmas that make the component correct.  The configuration is the
  32-bit little endian ARM one: \<open>unsigned int\<close> and \<open>long\<close> are 32 bits, \<open>loff_t\<close> is 64.

  \<^bold>\<open>Conventions\<close> (theory \<open>Kernel_Prelude\<close>).  A machine integer is a \<open>word\<close> of its width where the
  code relies on wrap-around, an \<open>int\<close> or \<open>nat\<close> where an invariant of the model bounds it; the
  theory of the component says which.  Errors are the constructors of \<open>errno\<close> in a sum type.
  Reading or writing outside an object is the value \<open>None\<close>, so is a \<open>BUG_ON\<close> and a loop that
  does not end; theorems that a function returns therefore also say that it makes no such access.
  The outcome of an allocation, of a callback and of a copy from user space is an argument, as are the
  events that happen while a call sleeps.  Leading underscores of a C name become the suffix \<open>_u\<close>, or
  \<open>_uu\<close> where the component has both forms.
  Locks that only serialise (spin locks, \<open>lock_kernel\<close>) are left out: an operation is one step.

  \<^bold>\<open>Cryptography\<close>.  \<open>Tea_Ciphers\<close>: \<^verbatim>\<open>crypto/tea.c\<close>, key setup and both directions of TEA, XTEA and
  XETA; the locale \<open>round_schedule\<close> carries the inverse rounds and \<open>sum_driven\<close> the loops that run
  until a running sum meets its limit (32 rounds; the sums of the 32 multiples of the constant are
  distinct, so the loops end).  \<open>Block_Modes\<close>: ECB, CBC, PCBC and CTR of \<^verbatim>\<open>crypto/ecb.c\<close>,
  \<^verbatim>\<open>cbc.c\<close>, \<^verbatim>\<open>pcbc.c\<close>, \<^verbatim>\<open>ctr.c\<close> and \<^verbatim>\<open>crypto_xor\<close>, \<^verbatim>\<open>crypto_inc\<close> of \<^verbatim>\<open>algapi.c\<close> on one
  mapped chunk, with the locale \<open>block_loop\<close> for the loop they share.  \<open>Cipher_Modes\<close>: the contract
  \<open>block_cipher\<close> of a cipher, interpreted by the three ciphers, and from it round trips of the modes,
  agreement of the in-place and the two-buffer routines, and the arithmetic of the helpers.

  \<^bold>\<open>Networking\<close>.  \<open>Socket_Buffers\<close>: \<^verbatim>\<open>net/core/skbuff.c\<close> and \<^verbatim>\<open>skbuff.h\<close>, linear area, page
  fragments and nested fragment lists; reads return the requested window of the byte string a buffer
  denotes and trimming keeps its prefix.  \<open>Netlink_Attributes\<close>: all of \<^verbatim>\<open>lib/nlattr.c\<close>; walks over
  arbitrary bytes stay in bounds and end, attributes that were put are found.  \<open>Socket_Filter\<close>:
  \<^verbatim>\<open>net/core/filter.c\<close>, the checker, the interpreter over socket buffers with its netlink
  extensions, the trimming wrapper, attach and detach; a checked filter ends and does not fault,
  with the two exceptions proved beside it.

  \<^bold>\<open>File locks\<close>, \<^verbatim>\<open>fs/locks.c\<close>.  \<open>File_Locks\<close>: the lock structures in a store (\<open>lock_world\<close>),
  block lists, conflict and deadlock tests and \<open>__posix_lock_file\<close>.  \<open>Lock_Ranges\<close>: the invariant of
  its scan.  \<open>Lock_Map\<close>: the lock list of an inode refines a map from owners and bytes to lock types;
  exclusion, errors and deadlock detection (bounded by \<open>MAX_DEADLK_ITERATIONS\<close> as in the code).
  \<open>Lock_Syscalls\<close>: \<open>flock\<close>, \<open>fcntl\<close>, mandatory locks, close.  \<open>Leases\<close>: taking, breaking and
  timing out leases and the last close.

  \<^bold>\<open>Resources\<close>, \<^verbatim>\<open>kernel/resource.c\<close>.  \<open>Resource_Tree\<close>: the tree of address ranges, with request,
  release, insertion, adjustment and the invariant (ranges nested, disjoint, ordered, no structure
  twice).  \<open>Resource_Alloc\<close>: the search for a free aligned range, which is first fit.
  \<open>Resource_Regions\<close>: busy and muxed regions, with the sleep of a muxed request as an event.
  \<open>Resource_Walks\<close>: expansion to fit, reserving with splits, the walks over the tree, and the
  theorems: every tree that the operations build from \<open>ioport_resource\<close> and \<open>iomem_resource\<close> keeps the
  invariant, and insertion implements adding a range to a laminar set of ranges.  The loops that
  need not end are \<open>partial_function\<close>s; when they do is part of the theorems.

  \<^bold>\<open>Groups and credentials\<close>.  \<open>Group_Lists\<close>: \<^verbatim>\<open>kernel/groups.c\<close>, the supplementary groups in blocks of
  a page, allocation with its unwinding, transfers, the Shell sort (each pass keeps the multiset, the last one
  sorts) and the binary search.  \<open>Group_Creds\<close>: the credentials of \<^verbatim>\<open>kernel/cred.c\<close> and
  \<^verbatim>\<open>user_namespace.c\<close> in a store with tasks pointing to them; a freed object is \<open>None\<close>, so a use after free is
  the value \<open>None\<close>; \<open>acct\<close> accounts for every reference, with those a call holds as extra terms.
  \<open>Group_Calls\<close>: \<open>setgroups\<close>, \<open>fork\<close> and \<open>exit\<close> as the step relation \<open>cred_step\<close>; reference counts are
  exact in every reachable state, and \<open>setgroups\<close>, \<open>getgroups\<close> and \<open>in_group_p\<close> agree with the user's
  array.  Membership is stated for identifiers below \<open>2 ^ 31\<close>: above, the search is wrong
  (\<open>large_gid_not_found\<close>).

  \<^bold>\<open>Access control lists\<close>.  \<open>Posix_Acl\<close>: \<^verbatim>\<open>fs/posix_acl.c\<close> and \<^verbatim>\<open>fs/xattr_acl.c\<close>, and the grammar that
  \<open>posix_acl_valid\<close> accepts.  \<open>Acl_Checks\<close>: the POSIX.1e algorithm as the reference of
  \<open>posix_acl_permission\<close>, through the locale \<open>membership\<close>, which is interpreted by \<open>in_group_p\<close>; mode
  changes keep a list valid and in step with the mode; the attribute form reads back.

  \<^bold>\<open>Byte queue\<close>, \<^verbatim>\<open>kernel/kfifo.c\<close> and \<^verbatim>\<open>include/linux/kfifo.h\<close>.  \<open>Kfifo\<close>: the ring, its wrapping
  indices, byte and record operations from kernel and user space.  \<open>Kfifo_Queue\<close>: the ring seen from the
  output index is a list; what each byte operation does to it; sizes are powers of two.
  \<open>Kfifo_Records\<close>: the same for records.  \<open>Kfifo_Refinement\<close>: the locale \<open>simulation\<close>, interpreted by the
  ring and a bounded list of bytes, the refinement for every sequence of operations, and the
  functions that do not do what their documentation says.

  \<^bold>\<open>Not modelled\<close>.  Device drivers, architecture code, sound, the boot code and the build system talk
  to hardware or to tools, and their behaviour is not determined by the sources.  The scheduler, memory
  management, the page cache, the virtual file system, concrete file systems, the block layer, the
  routing and transport protocols and the security modules are not modelled; each is an argument of
  the components above where they call it (allocation outcomes, sleeping, permission hooks).  Within
  the modelled files the following is left out: registration tables and module boilerplate, log
  messages, \<^verbatim>\<open>/proc\<close> output, RCU (a release takes effect at once), the scatterlist walk that feeds the
  block cipher modes, cloning and allocation of socket buffers, and of the credentials the key rings,
  capabilities, per-user counters, dumpability and temporary overrides.  The spin-locked variants of
  the byte queue add a lock around a modelled operation; its one-reader, one-writer use without a
  lock needs a memory model and is not covered.
\<close>

end
